theory Spec2Isabelle
  imports Main "HOL-Library.Word"
begin

unbundle bit_operations_syntax

section \<open>The p2m tree of arch/x86/xen/mmu.c\<close>

text \<open>
  The p2m table maps a domain-local page frame number (pfn) to a machine frame number
  (mfn). It is a three-level tree of pages: \<open>p2m_top\<close> holds pointers to mid pages, a
  mid page holds pointers to leaf pages, a leaf page holds mfns. A parallel tree
  (\<open>p2m_top_mfn\<close>, \<open>p2m_top_mfn_p\<close> and the mid mfn pages) records the mfns of the
  pages of the first one.

  Memory is a store of pages: \<open>mem s p i\<close> is the \<open>i\<close>-th word of the page whose base
  address is \<open>p\<close>, so the C expression \<open>p[i]\<close> on a page pointer \<open>p\<close> reads
  \<open>mem s p i\<close>. Pointers and mfns are both 64-bit words, as \<open>unsigned long\<close> and
  pointers are on x86-64, and they share the one store: what keeps them apart is the
  invariant \<open>p2m_wf\<close> below, not the type. A pfn is an \<open>unsigned long\<close> too; it is only
  compared, divided and advanced by less than \<open>MAX_P2M_PFN\<close>, so it is a \<open>nat\<close> here.
\<close>

type_synonym ulong = "64 word"
type_synonym addr = "64 word"
type_synonym memory = "addr \<Rightarrow> nat \<Rightarrow> ulong"

datatype error = BUG

text \<open>
  What the file takes from headers that are not part of it: the page size, the bound
  \<open>MAX_DOMAIN_PAGES\<close> and the macro \<open>virt_to_mfn\<close>. They are parameters.
\<close>

record config =
  PAGE_SIZE :: nat
  MAX_DOMAIN_PAGES :: nat
  virt_to_mfn :: "addr \<Rightarrow> ulong"

definition sizeof_ulong :: nat where
  "sizeof_ulong = 8"

definition sizeof_ptr :: nat where
  "sizeof_ptr = 8"

definition P2M_PER_PAGE :: "config \<Rightarrow> nat" where
  "P2M_PER_PAGE c = PAGE_SIZE c div sizeof_ulong"

definition P2M_MID_PER_PAGE :: "config \<Rightarrow> nat" where
  "P2M_MID_PER_PAGE c = PAGE_SIZE c div sizeof_ptr"

definition P2M_TOP_PER_PAGE :: "config \<Rightarrow> nat" where
  "P2M_TOP_PER_PAGE c = PAGE_SIZE c div sizeof_ptr"

definition MAX_P2M_PFN :: "config \<Rightarrow> nat" where
  "MAX_P2M_PFN c = P2M_TOP_PER_PAGE c * P2M_MID_PER_PAGE c * P2M_PER_PAGE c"

text \<open>\<open>INVALID_P2M_ENTRY\<close> is \<open>~0UL\<close>.\<close>

definition INVALID_P2M_ENTRY :: ulong where
  "INVALID_P2M_ENTRY = NOT 0"

record p2m_state =
  mem :: memory
  p2m_missing :: addr
  p2m_mid_missing :: addr
  p2m_mid_missing_mfn :: addr
  p2m_top :: addr
  p2m_top_mfn :: addr
  p2m_top_mfn_p :: addr
  xen_max_p2m_pfn :: nat
  free_pages :: "addr list"
  brk :: "addr list"
  auto_translated_physmap :: bool

text \<open>
  \<open>free_pages\<close> is the pool \<open>__get_free_page\<close> takes from and \<open>free_page\<close> gives back to,
  \<open>brk\<close> the pages \<open>extend_brk\<close> still has to hand out, and \<open>auto_translated_physmap\<close>
  the value of \<open>xen_feature(XENFEAT_auto_translated_physmap)\<close>.
\<close>

subsection \<open>Index arithmetic\<close>

text \<open>
  \<open>p2m_top_index\<close> starts with \<open>BUG_ON(pfn >= MAX_P2M_PFN)\<close>. Every caller computes it
  before the other two indices, so a division by zero (a page too small to hold one
  entry makes \<open>MAX_P2M_PFN\<close> zero) is never reached: the \<open>BUG_ON\<close> fires first.
\<close>

definition p2m_top_index :: "config \<Rightarrow> nat \<Rightarrow> error + nat" where
  "p2m_top_index c pfn =
     (if pfn \<ge> MAX_P2M_PFN c then Inl BUG
      else Inr (pfn div (P2M_MID_PER_PAGE c * P2M_PER_PAGE c)))"

definition p2m_mid_index :: "config \<Rightarrow> nat \<Rightarrow> nat" where
  "p2m_mid_index c pfn = (pfn div P2M_PER_PAGE c) mod P2M_MID_PER_PAGE c"

definition p2m_index :: "config \<Rightarrow> nat \<Rightarrow> nat" where
  "p2m_index c pfn = pfn mod P2M_PER_PAGE c"

subsection \<open>Stores and the initialisation loops\<close>

definition store :: "memory \<Rightarrow> addr \<Rightarrow> nat \<Rightarrow> ulong \<Rightarrow> memory" where
  "store m p i v = m(p := (m p)(i := v))"

text \<open>The loop \<open>for (; i < n; i++) p[i] = v\<close>.\<close>

function fill_from :: "addr \<Rightarrow> ulong \<Rightarrow> nat \<Rightarrow> nat \<Rightarrow> memory \<Rightarrow> memory" where
  "fill_from p v n i m = (if i < n then fill_from p v n (Suc i) (store m p i v) else m)"
  by pat_completeness auto
termination
  by (relation "measure (\<lambda>(p, v, n, i, m). n - i)") auto

declare fill_from.simps [simp del]

definition p2m_top_init :: "config \<Rightarrow> p2m_state \<Rightarrow> addr \<Rightarrow> memory \<Rightarrow> memory" where
  "p2m_top_init c s tp m = fill_from tp (p2m_mid_missing s) (P2M_TOP_PER_PAGE c) 0 m"

definition p2m_top_mfn_init :: "config \<Rightarrow> p2m_state \<Rightarrow> addr \<Rightarrow> memory \<Rightarrow> memory" where
  "p2m_top_mfn_init c s tp m =
     fill_from tp (virt_to_mfn c (p2m_mid_missing_mfn s)) (P2M_TOP_PER_PAGE c) 0 m"

definition p2m_top_mfn_p_init :: "config \<Rightarrow> p2m_state \<Rightarrow> addr \<Rightarrow> memory \<Rightarrow> memory" where
  "p2m_top_mfn_p_init c s tp m =
     fill_from tp (p2m_mid_missing_mfn s) (P2M_TOP_PER_PAGE c) 0 m"

definition p2m_mid_init :: "config \<Rightarrow> p2m_state \<Rightarrow> addr \<Rightarrow> memory \<Rightarrow> memory" where
  "p2m_mid_init c s mid m = fill_from mid (p2m_missing s) (P2M_MID_PER_PAGE c) 0 m"

definition p2m_mid_mfn_init :: "config \<Rightarrow> p2m_state \<Rightarrow> addr \<Rightarrow> memory \<Rightarrow> memory" where
  "p2m_mid_mfn_init c s mid m =
     fill_from mid (virt_to_mfn c (p2m_missing s)) (P2M_MID_PER_PAGE c) 0 m"

text \<open>The source's \<open>p2m_init\<close> runs to \<open>P2M_MID_PER_PAGE\<close>, not \<open>P2M_PER_PAGE\<close>.\<close>

definition p2m_init :: "config \<Rightarrow> addr \<Rightarrow> memory \<Rightarrow> memory" where
  "p2m_init c p2m m = fill_from p2m INVALID_P2M_ENTRY (P2M_MID_PER_PAGE c) 0 m"

subsection \<open>Lookup\<close>

definition get_phys_to_machine :: "config \<Rightarrow> p2m_state \<Rightarrow> nat \<Rightarrow> error + ulong" where
  "get_phys_to_machine c s pfn =
     (if pfn \<ge> MAX_P2M_PFN c then Inr INVALID_P2M_ENTRY
      else case p2m_top_index c pfn of
          Inl e \<Rightarrow> Inl e
        | Inr topidx \<Rightarrow>
            let mididx = p2m_mid_index c pfn;
                idx = p2m_index c pfn
            in Inr (mem s (mem s (mem s (p2m_top s) topidx) mididx) idx))"

subsection \<open>Allocation\<close>

text \<open>
  \<open>alloc_p2m_page\<close> is \<open>__get_free_page\<close>: it takes a page from the pool, and returns
  \<open>NULL\<close> when there is none. \<open>free_p2m_page\<close> gives the page back.
\<close>

definition alloc_p2m_page :: "p2m_state \<Rightarrow> addr \<times> p2m_state" where
  "alloc_p2m_page s =
     (case free_pages s of [] \<Rightarrow> (0, s) | p # ps \<Rightarrow> (p, s\<lparr>free_pages := ps\<rparr>))"

definition free_p2m_page :: "addr \<Rightarrow> p2m_state \<Rightarrow> p2m_state" where
  "free_p2m_page p s = s\<lparr>free_pages := p # free_pages s\<rparr>"

text \<open>\<open>cmpxchg(&p[i], old, new)\<close>: the value found, and the store after it.\<close>

definition cmpxchg :: "memory \<Rightarrow> addr \<Rightarrow> nat \<Rightarrow> ulong \<Rightarrow> ulong \<Rightarrow> ulong \<times> memory" where
  "cmpxchg m p i old new = (m p i, if m p i = old then store m p i new else m)"

text \<open>
  The three blocks of \<open>alloc_p2m\<close>, in the order of the source. Each gives \<open>None\<close>
  where the source returns false, and otherwise the local pointer the rest of the
  function goes on with (\<open>mid\<close>, \<open>mid_mfn\<close>) and the state.
\<close>

definition alloc_p2m_mid :: "config \<Rightarrow> p2m_state \<Rightarrow> nat \<Rightarrow> (addr \<times> p2m_state) option" where
  "alloc_p2m_mid c s topidx =
     (let mid = mem s (p2m_top s) topidx in
      if mid = p2m_mid_missing s then
        (let (mid, s1) = alloc_p2m_page s in
         if mid = 0 then None
         else
           let s2 = s1\<lparr>mem := p2m_mid_init c s1 mid (mem s1)\<rparr>;
               (old, m3) = cmpxchg (mem s2) (p2m_top s2) topidx (p2m_mid_missing s2) mid;
               s3 = s2\<lparr>mem := m3\<rparr>
           in Some (mid, if old \<noteq> p2m_mid_missing s3 then free_p2m_page mid s3 else s3))
      else Some (mid, s))"

definition alloc_p2m_mid_mfn ::
  "config \<Rightarrow> p2m_state \<Rightarrow> nat \<Rightarrow> addr \<Rightarrow> (addr \<times> p2m_state) option" where
  "alloc_p2m_mid_mfn c s topidx mid_mfn =
     (if mid_mfn = p2m_mid_missing_mfn s then
        (let (mid_mfn, s1) = alloc_p2m_page s in
         if mid_mfn = 0 then None
         else
           let s2 = s1\<lparr>mem := p2m_mid_mfn_init c s1 mid_mfn (mem s1)\<rparr>;
               missing_mfn = virt_to_mfn c (p2m_mid_missing_mfn s2);
               mid_mfn_mfn = virt_to_mfn c mid_mfn;
               (old, m3) = cmpxchg (mem s2) (p2m_top_mfn s2) topidx missing_mfn mid_mfn_mfn;
               s3 = s2\<lparr>mem := m3\<rparr>
           in Some (mid_mfn,
                if old \<noteq> missing_mfn then free_p2m_page mid_mfn s3
                else s3\<lparr>mem := store (mem s3) (p2m_top_mfn_p s3) topidx mid_mfn\<rparr>))
      else Some (mid_mfn, s))"

definition alloc_p2m_leaf ::
  "config \<Rightarrow> p2m_state \<Rightarrow> nat \<Rightarrow> nat \<Rightarrow> addr \<Rightarrow> addr \<Rightarrow> p2m_state option" where
  "alloc_p2m_leaf c s topidx mididx mid mid_mfn =
     (if mem s (mem s (p2m_top s) topidx) mididx = p2m_missing s then
        (let (p2m, s1) = alloc_p2m_page s in
         if p2m = 0 then None
         else
           let s2 = s1\<lparr>mem := p2m_init c p2m (mem s1)\<rparr>;
               (old, m3) = cmpxchg (mem s2) mid mididx (p2m_missing s2) p2m;
               s3 = s2\<lparr>mem := m3\<rparr>
           in Some (if old \<noteq> p2m_missing s3 then free_p2m_page p2m s3
                    else s3\<lparr>mem := store (mem s3) mid_mfn mididx (virt_to_mfn c p2m)\<rparr>))
      else Some s)"

definition alloc_p2m :: "config \<Rightarrow> p2m_state \<Rightarrow> nat \<Rightarrow> error + (bool \<times> p2m_state)" where
  "alloc_p2m c s pfn =
     (case p2m_top_index c pfn of
        Inl e \<Rightarrow> Inl e
      | Inr topidx \<Rightarrow>
          let mididx = p2m_mid_index c pfn in
          (case alloc_p2m_mid c s topidx of
             None \<Rightarrow> Inr (False, s)
           | Some (mid, s1) \<Rightarrow>
               let mid_mfn = mem s1 (p2m_top_mfn_p s1) topidx in
               if virt_to_mfn c mid_mfn \<noteq> mem s1 (p2m_top_mfn s1) topidx then Inl BUG
               else
                 (case alloc_p2m_mid_mfn c s1 topidx mid_mfn of
                    None \<Rightarrow> Inr (False, s1)
                  | Some (mid_mfn, s2) \<Rightarrow>
                      (case alloc_p2m_leaf c s2 topidx mididx mid mid_mfn of
                         None \<Rightarrow> Inr (False, s2)
                       | Some s3 \<Rightarrow> Inr (True, s3)))))"

subsection \<open>Update\<close>

text \<open>
  \<open>try_set_phys_to_machine\<close> is the source's \<open>__set_phys_to_machine\<close> (a name cannot
  start with an underscore here).
\<close>

definition try_set_phys_to_machine ::
  "config \<Rightarrow> p2m_state \<Rightarrow> nat \<Rightarrow> ulong \<Rightarrow> error + (bool \<times> p2m_state)" where
  "try_set_phys_to_machine c s pfn mfn =
     (if pfn \<ge> MAX_P2M_PFN c then
        (if mfn \<noteq> INVALID_P2M_ENTRY then Inl BUG else Inr (True, s))
      else case p2m_top_index c pfn of
          Inl e \<Rightarrow> Inl e
        | Inr topidx \<Rightarrow>
            let mididx = p2m_mid_index c pfn;
                idx = p2m_index c pfn
            in if mem s (mem s (p2m_top s) topidx) mididx = p2m_missing s
               then Inr (mfn = INVALID_P2M_ENTRY, s)
               else Inr (True,
                 s\<lparr>mem := store (mem s) (mem s (mem s (p2m_top s) topidx) mididx) idx mfn\<rparr>))"

definition set_phys_to_machine ::
  "config \<Rightarrow> p2m_state \<Rightarrow> nat \<Rightarrow> ulong \<Rightarrow> error + (bool \<times> p2m_state)" where
  "set_phys_to_machine c s pfn mfn =
     (if auto_translated_physmap s then
        (if of_nat pfn \<noteq> mfn \<and> mfn \<noteq> INVALID_P2M_ENTRY then Inl BUG else Inr (True, s))
      else case try_set_phys_to_machine c s pfn mfn of
          Inl e \<Rightarrow> Inl e
        | Inr (True, s1) \<Rightarrow> Inr (True, s1)
        | Inr (False, s1) \<Rightarrow>
            (case alloc_p2m c s1 pfn of
               Inl e \<Rightarrow> Inl e
             | Inr (False, s2) \<Rightarrow> Inr (False, s2)
             | Inr (True, s2) \<Rightarrow>
                 (case try_set_phys_to_machine c s2 pfn mfn of
                    Inl e \<Rightarrow> Inl e
                  | Inr (False, s3) \<Rightarrow> Inr (False, s3)
                  | Inr (True, s3) \<Rightarrow> Inr (True, s3))))"

subsection \<open>Building the trees\<close>

text \<open>
  \<open>extend_brk(PAGE_SIZE, PAGE_SIZE)\<close> hands out the next page of the brk area; the
  source notes that it will \<open>BUG\<close> when it is called too late, which is the empty list.
\<close>

definition extend_brk :: "p2m_state \<Rightarrow> error + (addr \<times> p2m_state)" where
  "extend_brk s = (case brk s of [] \<Rightarrow> Inl BUG | p # ps \<Rightarrow> Inr (p, s\<lparr>brk := ps\<rparr>))"

text \<open>
  The first block of \<open>xen_build_mfn_list_list\<close>: the three pages of the mfn tree are
  taken from the brk area when \<open>p2m_top_mfn\<close> is still \<open>NULL\<close>, and the missing mid
  mfn page is filled again otherwise.
\<close>

definition build_mfn_list_list_init :: "config \<Rightarrow> p2m_state \<Rightarrow> error + p2m_state" where
  "build_mfn_list_list_init c s =
     (if p2m_top_mfn s = 0 then
        (case extend_brk s of
           Inl e \<Rightarrow> Inl e
         | Inr (p1, s1) \<Rightarrow>
             let s2 = s1\<lparr>p2m_mid_missing_mfn := p1\<rparr>;
                 s3 = s2\<lparr>mem := p2m_mid_mfn_init c s2 (p2m_mid_missing_mfn s2) (mem s2)\<rparr>
             in (case extend_brk s3 of
                   Inl e \<Rightarrow> Inl e
                 | Inr (p2, s4) \<Rightarrow>
                     let s5 = s4\<lparr>p2m_top_mfn_p := p2\<rparr>;
                         s6 = s5\<lparr>mem := p2m_top_mfn_p_init c s5 (p2m_top_mfn_p s5) (mem s5)\<rparr>
                     in (case extend_brk s6 of
                           Inl e \<Rightarrow> Inl e
                         | Inr (p3, s7) \<Rightarrow>
                             let s8 = s7\<lparr>p2m_top_mfn := p3\<rparr>
                             in Inr (s8\<lparr>mem :=
                                  p2m_top_mfn_init c s8 (p2m_top_mfn s8) (mem s8)\<rparr>))))
      else Inr (s\<lparr>mem := p2m_mid_mfn_init c s (p2m_mid_missing_mfn s) (mem s)\<rparr>))"

text \<open>
  The loop of \<open>xen_build_mfn_list_list\<close>, from \<open>pfn\<close> on. Where the mid level is
  missing the source adds \<open>(P2M_MID_PER_PAGE - 1) * P2M_PER_PAGE\<close> and continues, so
  the loop's own increment follows.
\<close>

function build_mfn_list_list_loop :: "config \<Rightarrow> nat \<Rightarrow> p2m_state \<Rightarrow> error + p2m_state" where
  "build_mfn_list_list_loop c pfn s =
     (if pfn < xen_max_p2m_pfn s then
        (case p2m_top_index c pfn of
           Inl e \<Rightarrow> Inl e
         | Inr topidx \<Rightarrow>
             let mididx = p2m_mid_index c pfn;
                 mid = mem s (p2m_top s) topidx;
                 mid_mfn_p = mem s (p2m_top_mfn_p s) topidx
             in if mid = p2m_mid_missing s then
                  (if mididx \<noteq> 0 then Inl BUG
                   else if mid_mfn_p \<noteq> p2m_mid_missing_mfn s then Inl BUG
                   else build_mfn_list_list_loop c
                          (pfn + (P2M_MID_PER_PAGE c - 1) * P2M_PER_PAGE c + P2M_PER_PAGE c)
                          (s\<lparr>mem := store (mem s) (p2m_top_mfn s) topidx
                                      (virt_to_mfn c (p2m_mid_missing_mfn s))\<rparr>))
                else
                  (case (if mid_mfn_p = p2m_mid_missing_mfn s then
                           (case extend_brk s of
                              Inl e \<Rightarrow> Inl e
                            | Inr (p, s1) \<Rightarrow>
                                Inr (p, s1\<lparr>mem := store (p2m_mid_mfn_init c s1 p (mem s1))
                                                    (p2m_top_mfn_p s1) topidx p\<rparr>))
                         else Inr (mid_mfn_p, s)) of
                     Inl e \<Rightarrow> Inl e
                   | Inr (mid_mfn_p, s2) \<Rightarrow>
                       let m3 = store (mem s2) (p2m_top_mfn s2) topidx (virt_to_mfn c mid_mfn_p);
                           m4 = store m3 mid_mfn_p mididx (virt_to_mfn c (m3 mid mididx))
                       in build_mfn_list_list_loop c (pfn + P2M_PER_PAGE c)
                            (s2\<lparr>mem := m4\<rparr>)))
      else Inr s)"
  by pat_completeness auto
termination
proof (relation "measure (\<lambda>(c, pfn, s). xen_max_p2m_pfn s - pfn)", goal_cases)
  case 1
  show ?case by simp
next
  case (2 c pfn s topidx)
  then have "0 < P2M_PER_PAGE c"
    by (cases "P2M_PER_PAGE c = 0")
       (simp_all add: p2m_top_index_def MAX_P2M_PFN_def split: if_splits)
  with 2 show ?case by simp
next
  case (3 c pfn s topidx mididx mid mid_mfn_p r mid_mfn_p' s2 m3 m4)
  then have pos: "0 < P2M_PER_PAGE c"
    by (cases "P2M_PER_PAGE c = 0")
       (simp_all add: p2m_top_index_def MAX_P2M_PFN_def split: if_splits)
  from 3 have "xen_max_p2m_pfn s2 = xen_max_p2m_pfn s"
    by (auto simp: extend_brk_def split: if_splits list.splits sum.splits)
  with 3 pos show ?case by simp
qed

declare build_mfn_list_list_loop.simps [simp del]

definition xen_build_mfn_list_list :: "config \<Rightarrow> p2m_state \<Rightarrow> error + p2m_state" where
  "xen_build_mfn_list_list c s =
     (case build_mfn_list_list_init c s of
        Inl e \<Rightarrow> Inl e
      | Inr s1 \<Rightarrow> build_mfn_list_list_loop c 0 s1)"

text \<open>
  \<open>xen_build_dynamic_phys_to_machine\<close> grafts the array \<open>mfn_list\<close> of the domain
  builder into the tree. The array starts on a page boundary and the loop advances by
  whole pages, so \<open>&mfn_list[pfn]\<close> is the base of a page and \<open>mfn_list[pfn + i]\<close> with
  \<open>i < P2M_PER_PAGE\<close> is word \<open>i\<close> of that page.
\<close>

definition mfn_list_at :: "addr \<Rightarrow> nat \<Rightarrow> addr" where
  "mfn_list_at mfn_list pfn = mfn_list + of_nat (pfn * sizeof_ulong)"

function build_dynamic_loop ::
  "config \<Rightarrow> addr \<Rightarrow> nat \<Rightarrow> nat \<Rightarrow> p2m_state \<Rightarrow> error + p2m_state" where
  "build_dynamic_loop c mfn_list max_pfn pfn s =
     (if pfn < max_pfn then
        (case p2m_top_index c pfn of
           Inl e \<Rightarrow> Inl e
         | Inr topidx \<Rightarrow>
             let mididx = p2m_mid_index c pfn in
             (case (if mem s (p2m_top s) topidx = p2m_mid_missing s then
                      (case extend_brk s of
                         Inl e \<Rightarrow> Inl e
                       | Inr (mid, s1) \<Rightarrow>
                           Inr (s1\<lparr>mem := store (p2m_mid_init c s1 mid (mem s1))
                                           (p2m_top s1) topidx mid\<rparr>))
                    else Inr s) of
                Inl e \<Rightarrow> Inl e
              | Inr s2 \<Rightarrow>
                  let m3 = (if pfn + P2M_PER_PAGE c > max_pfn then
                              fill_from (mfn_list_at mfn_list pfn) INVALID_P2M_ENTRY
                                (P2M_PER_PAGE c) (max_pfn mod P2M_PER_PAGE c) (mem s2)
                            else mem s2);
                      m4 = store m3 (m3 (p2m_top s2) topidx) mididx (mfn_list_at mfn_list pfn)
                  in build_dynamic_loop c mfn_list max_pfn (pfn + P2M_PER_PAGE c)
                       (s2\<lparr>mem := m4\<rparr>)))
      else Inr s)"
  by pat_completeness auto
termination
proof (relation "measure (\<lambda>(c, mfn_list, max_pfn, pfn, s). max_pfn - pfn)", goal_cases)
  case 1
  show ?case by simp
next
  case (2 c mfn_list max_pfn pfn s topidx)
  then have "0 < P2M_PER_PAGE c"
    by (cases "P2M_PER_PAGE c = 0")
       (simp_all add: p2m_top_index_def MAX_P2M_PFN_def split: if_splits)
  with 2 show ?case by simp
qed

declare build_dynamic_loop.simps [simp del]

text \<open>
  The body of that loop in its two steps, as the proofs take it: the mid page is
  allocated where it is missing, and then the page of \<open>mfn_list\<close> is filled up to its
  end and grafted in.
\<close>

definition build_dynamic_mid :: "config \<Rightarrow> nat \<Rightarrow> p2m_state \<Rightarrow> error + p2m_state" where
  "build_dynamic_mid c topidx s =
     (if mem s (p2m_top s) topidx = p2m_mid_missing s then
        (case extend_brk s of
           Inl e \<Rightarrow> Inl e
         | Inr (mid, s1) \<Rightarrow>
             Inr (s1\<lparr>mem := store (p2m_mid_init c s1 mid (mem s1))
                             (p2m_top s1) topidx mid\<rparr>))
      else Inr s)"

definition build_dynamic_fill :: "config \<Rightarrow> addr \<Rightarrow> nat \<Rightarrow> nat \<Rightarrow> p2m_state \<Rightarrow> p2m_state" where
  "build_dynamic_fill c mfn_list max_pfn pfn s =
     s\<lparr>mem := (if pfn + P2M_PER_PAGE c > max_pfn then
                 fill_from (mfn_list_at mfn_list pfn) INVALID_P2M_ENTRY
                   (P2M_PER_PAGE c) (max_pfn mod P2M_PER_PAGE c) (mem s)
               else mem s)\<rparr>"

definition build_dynamic_graft :: "config \<Rightarrow> addr \<Rightarrow> nat \<Rightarrow> p2m_state \<Rightarrow> p2m_state" where
  "build_dynamic_graft c mfn_list pfn s =
     s\<lparr>mem := store (mem s)
                 (mem s (p2m_top s) (pfn div (P2M_MID_PER_PAGE c * P2M_PER_PAGE c)))
                 (p2m_mid_index c pfn) (mfn_list_at mfn_list pfn)\<rparr>"

definition xen_build_dynamic_phys_to_machine ::
  "config \<Rightarrow> addr \<Rightarrow> nat \<Rightarrow> p2m_state \<Rightarrow> error + p2m_state" where
  "xen_build_dynamic_phys_to_machine c mfn_list nr_pages s =
     (let max_pfn = min (MAX_DOMAIN_PAGES c) nr_pages;
          s0 = s\<lparr>xen_max_p2m_pfn := max_pfn\<rparr>
      in case extend_brk s0 of
           Inl e \<Rightarrow> Inl e
         | Inr (p1, s1) \<Rightarrow>
             let s2 = s1\<lparr>p2m_missing := p1\<rparr>;
                 s3 = s2\<lparr>mem := p2m_init c (p2m_missing s2) (mem s2)\<rparr>
             in (case extend_brk s3 of
                   Inl e \<Rightarrow> Inl e
                 | Inr (p2, s4) \<Rightarrow>
                     let s5 = s4\<lparr>p2m_mid_missing := p2\<rparr>;
                         s6 = s5\<lparr>mem := p2m_mid_init c s5 (p2m_mid_missing s5) (mem s5)\<rparr>
                     in (case extend_brk s6 of
                           Inl e \<Rightarrow> Inl e
                         | Inr (p3, s7) \<Rightarrow>
                             let s8 = s7\<lparr>p2m_top := p3\<rparr>;
                                 s9 = s8\<lparr>mem := p2m_top_init c s8 (p2m_top s8) (mem s8)\<rparr>
                             in build_dynamic_loop c mfn_list max_pfn 0 s9)))"

subsection \<open>Well-formed trees\<close>

text \<open>The mid page and the leaf page that cover a pfn.\<close>

definition mid_of :: "config \<Rightarrow> p2m_state \<Rightarrow> nat \<Rightarrow> addr" where
  "mid_of c s pfn = mem s (p2m_top s) (pfn div (P2M_MID_PER_PAGE c * P2M_PER_PAGE c))"

definition leaf_of :: "config \<Rightarrow> p2m_state \<Rightarrow> nat \<Rightarrow> addr" where
  "leaf_of c s pfn = mem s (mid_of c s pfn) (p2m_mid_index c pfn)"

text \<open>
  Every page of the two trees has one role: it is one of the six pages the globals
  point to, the mid page of one top slot, the leaf of one mid slot, the mid mfn page
  of one top slot, or a page of the free pool. A tree is well formed when such an
  assignment of roles exists, the pool has no page twice and no \<open>NULL\<close>, and the two
  placeholders hold what \<open>p2m_mid_init\<close> and \<open>p2m_init\<close> wrote into them.
\<close>

datatype role =
    R_missing | R_mid_missing | R_mid_missing_mfn | R_top | R_top_mfn | R_top_mfn_p
  | R_mid nat | R_leaf nat nat | R_mid_mfn nat | R_free

definition p2m_roles :: "config \<Rightarrow> (addr \<Rightarrow> role) \<Rightarrow> p2m_state \<Rightarrow> bool" where
  "p2m_roles c r s \<longleftrightarrow>
     r (p2m_missing s) = R_missing \<and>
     r (p2m_mid_missing s) = R_mid_missing \<and>
     r (p2m_mid_missing_mfn s) = R_mid_missing_mfn \<and>
     r (p2m_top s) = R_top \<and>
     r (p2m_top_mfn s) = R_top_mfn \<and>
     r (p2m_top_mfn_p s) = R_top_mfn_p \<and>
     (\<forall>t < P2M_TOP_PER_PAGE c.
        mem s (p2m_top s) t \<noteq> p2m_mid_missing s \<longrightarrow> r (mem s (p2m_top s) t) = R_mid t) \<and>
     (\<forall>t < P2M_TOP_PER_PAGE c. \<forall>m < P2M_MID_PER_PAGE c.
        mem s (mem s (p2m_top s) t) m \<noteq> p2m_missing s \<longrightarrow>
        r (mem s (mem s (p2m_top s) t) m) = R_leaf t m) \<and>
     (\<forall>t < P2M_TOP_PER_PAGE c.
        mem s (p2m_top_mfn_p s) t \<noteq> p2m_mid_missing_mfn s \<longrightarrow>
        r (mem s (p2m_top_mfn_p s) t) = R_mid_mfn t) \<and>
     (\<forall>p \<in> set (free_pages s). r p = R_free \<and> p \<noteq> 0) \<and>
     distinct (free_pages s) \<and>
     (\<forall>i < P2M_MID_PER_PAGE c. mem s (p2m_mid_missing s) i = p2m_missing s) \<and>
     (\<forall>i < P2M_PER_PAGE c. mem s (p2m_missing s) i = INVALID_P2M_ENTRY)"

text \<open>
  The part of \<open>p2m_roles\<close> that speaks of the p2m tree alone. It is what holds between
  \<open>xen_build_dynamic_phys_to_machine\<close> and \<open>xen_build_mfn_list_list\<close>, when the three
  globals of the mfn tree are still \<open>NULL\<close>.
\<close>

definition tree_roles :: "config \<Rightarrow> (addr \<Rightarrow> role) \<Rightarrow> p2m_state \<Rightarrow> bool" where
  "tree_roles c r s \<longleftrightarrow>
     r (p2m_missing s) = R_missing \<and>
     r (p2m_mid_missing s) = R_mid_missing \<and>
     r (p2m_top s) = R_top \<and>
     (\<forall>t < P2M_TOP_PER_PAGE c.
        mem s (p2m_top s) t \<noteq> p2m_mid_missing s \<longrightarrow> r (mem s (p2m_top s) t) = R_mid t) \<and>
     (\<forall>t < P2M_TOP_PER_PAGE c. \<forall>m < P2M_MID_PER_PAGE c.
        mem s (mem s (p2m_top s) t) m \<noteq> p2m_missing s \<longrightarrow>
        r (mem s (mem s (p2m_top s) t) m) = R_leaf t m) \<and>
     (\<forall>i < P2M_MID_PER_PAGE c. mem s (p2m_mid_missing s) i = p2m_missing s) \<and>
     (\<forall>i < P2M_PER_PAGE c. mem s (p2m_missing s) i = INVALID_P2M_ENTRY)"

text \<open>\<open>off_tree c s q\<close>: the page \<open>q\<close> is no page of the p2m tree.\<close>

definition off_tree :: "config \<Rightarrow> p2m_state \<Rightarrow> addr \<Rightarrow> bool" where
  "off_tree c s q \<longleftrightarrow>
     q \<noteq> p2m_top s \<and> q \<noteq> p2m_mid_missing s \<and> q \<noteq> p2m_missing s \<and>
     (\<forall>t < P2M_TOP_PER_PAGE c. q \<noteq> mem s (p2m_top s) t) \<and>
     (\<forall>t < P2M_TOP_PER_PAGE c. \<forall>m < P2M_MID_PER_PAGE c. q \<noteq> mem s (mem s (p2m_top s) t) m)"

text \<open>
  The pages of the array \<open>mfn_list\<close> that \<open>xen_build_dynamic_phys_to_machine\<close> grafts
  into the tree, one for every \<open>P2M_PER_PAGE\<close> pfns below \<open>max_pfn\<close>, and the entry
  \<open>mfn_list[pfn]\<close> as the state \<open>s\<close> holds it.
\<close>

definition boot_pages :: "config \<Rightarrow> addr \<Rightarrow> nat \<Rightarrow> addr list" where
  "boot_pages c mfn_list max_pfn =
     map (\<lambda>k. mfn_list_at mfn_list (k * P2M_PER_PAGE c))
       [0 ..< (max_pfn + P2M_PER_PAGE c - 1) div P2M_PER_PAGE c]"

definition boot_mfn :: "config \<Rightarrow> addr \<Rightarrow> p2m_state \<Rightarrow> nat \<Rightarrow> ulong" where
  "boot_mfn c mfn_list s pfn =
     mem s (mfn_list_at mfn_list (pfn - pfn mod P2M_PER_PAGE c)) (pfn mod P2M_PER_PAGE c)"

text \<open>
  What a lookup returns once the tree is built from \<open>mfn_list\<close>: the entry of the array
  below \<open>max_pfn\<close>, and \<open>INVALID_P2M_ENTRY\<close> from there on.
\<close>

definition boot_lookup :: "config \<Rightarrow> addr \<Rightarrow> nat \<Rightarrow> p2m_state \<Rightarrow> nat \<Rightarrow> ulong" where
  "boot_lookup c mfn_list nr_pages s pfn =
     (if pfn < min (MAX_DOMAIN_PAGES c) nr_pages then boot_mfn c mfn_list s pfn
      else INVALID_P2M_ENTRY)"

definition p2m_wf :: "config \<Rightarrow> p2m_state \<Rightarrow> bool" where
  "p2m_wf c s \<longleftrightarrow> (\<exists>r. p2m_roles c r s)"

text \<open>Two states with the same globals: the six page pointers, the flag and the rest.\<close>

definition same_globals :: "p2m_state \<Rightarrow> p2m_state \<Rightarrow> bool" where
  "same_globals s s' \<longleftrightarrow>
     p2m_missing s' = p2m_missing s \<and> p2m_mid_missing s' = p2m_mid_missing s \<and>
     p2m_mid_missing_mfn s' = p2m_mid_missing_mfn s \<and> p2m_top s' = p2m_top s \<and>
     p2m_top_mfn s' = p2m_top_mfn s \<and> p2m_top_mfn_p s' = p2m_top_mfn_p s \<and>
     xen_max_p2m_pfn s' = xen_max_p2m_pfn s \<and> brk s' = brk s \<and>
     auto_translated_physmap s' = auto_translated_physmap s"

text \<open>
  Two states with the same pointers and the same page pool; the brk area and the
  memory may differ.
\<close>

definition same_pointers :: "p2m_state \<Rightarrow> p2m_state \<Rightarrow> bool" where
  "same_pointers s s' \<longleftrightarrow>
     p2m_missing s' = p2m_missing s \<and> p2m_mid_missing s' = p2m_mid_missing s \<and>
     p2m_mid_missing_mfn s' = p2m_mid_missing_mfn s \<and> p2m_top s' = p2m_top s \<and>
     p2m_top_mfn s' = p2m_top_mfn s \<and> p2m_top_mfn_p s' = p2m_top_mfn_p s \<and>
     xen_max_p2m_pfn s' = xen_max_p2m_pfn s \<and> free_pages s' = free_pages s \<and>
     auto_translated_physmap s' = auto_translated_physmap s"

text \<open>
  \<open>tree_kept c s s'\<close>: the globals are the same in \<open>s'\<close> as in \<open>s\<close> and every lookup
  returns in \<open>s'\<close> what it returns in \<open>s\<close>.
\<close>

definition tree_kept :: "config \<Rightarrow> p2m_state \<Rightarrow> p2m_state \<Rightarrow> bool" where
  "tree_kept c s s' \<longleftrightarrow>
     same_globals s s' \<and>
     (\<forall>pfn. get_phys_to_machine c s' pfn = get_phys_to_machine c s pfn)"

text \<open>
  The mfn tree mirrors the p2m tree: every entry of the missing mid mfn page is the
  mfn of \<open>p2m_missing\<close>, every entry of \<open>p2m_top_mfn\<close> is the mfn of the mid mfn page
  \<open>p2m_top_mfn_p\<close> points to, and every entry of a mid mfn page is the mfn of the page
  the p2m tree has in the same slot.
\<close>

definition mfn_mirror :: "config \<Rightarrow> p2m_state \<Rightarrow> bool" where
  "mfn_mirror c s \<longleftrightarrow>
     (\<forall>i < P2M_MID_PER_PAGE c.
        mem s (p2m_mid_missing_mfn s) i = virt_to_mfn c (p2m_missing s)) \<and>
     (\<forall>t < P2M_TOP_PER_PAGE c.
        mem s (p2m_top_mfn s) t = virt_to_mfn c (mem s (p2m_top_mfn_p s) t)) \<and>
     (\<forall>t < P2M_TOP_PER_PAGE c. \<forall>m < P2M_MID_PER_PAGE c.
        mem s (mem s (p2m_top_mfn_p s) t) m = virt_to_mfn c (mem s (mem s (p2m_top s) t) m))"

text \<open>
  \<open>mfn_shape c s\<close>: the mfn tree has a mid page of its own exactly where the p2m tree
  has one. \<open>alloc_p2m\<close> allocates the two together.
\<close>

definition mfn_shape :: "config \<Rightarrow> p2m_state \<Rightarrow> bool" where
  "mfn_shape c s \<longleftrightarrow>
     (\<forall>t < P2M_TOP_PER_PAGE c.
        (mem s (p2m_top s) t = p2m_mid_missing s) =
        (mem s (p2m_top_mfn_p s) t = p2m_mid_missing_mfn s))"

text \<open>
  \<open>mirror_at c s pfn\<close>: the entries of the mfn tree on the path of \<open>pfn\<close> are right.
  Where the mid page is missing, \<open>p2m_top_mfn[topidx]\<close> is the mfn of
  \<open>p2m_mid_missing_mfn\<close>; where it is allocated, \<open>p2m_top_mfn[topidx]\<close> is the mfn of
  the mid mfn page and the entry \<open>mididx\<close> of that page is the mfn of the leaf.
\<close>

definition mirror_at :: "config \<Rightarrow> p2m_state \<Rightarrow> nat \<Rightarrow> bool" where
  "mirror_at c s pfn =
     (let t = pfn div (P2M_MID_PER_PAGE c * P2M_PER_PAGE c);
          m = p2m_mid_index c pfn
      in if mem s (p2m_top s) t = p2m_mid_missing s
         then mem s (p2m_top_mfn s) t = virt_to_mfn c (p2m_mid_missing_mfn s)
         else mem s (p2m_top_mfn s) t = virt_to_mfn c (mem s (p2m_top_mfn_p s) t) \<and>
              mem s (mem s (p2m_top_mfn_p s) t) m =
                virt_to_mfn c (mem s (mem s (p2m_top s) t) m))"

subsection \<open>Sequences of calls\<close>

text \<open>
  \<open>kept c pfn s s'\<close>: \<open>s'\<close> is reached from \<open>s\<close> by calls of \<open>set_phys_to_machine\<close> of
  which none is a successful call at \<open>pfn\<close>.
\<close>

inductive kept :: "config \<Rightarrow> nat \<Rightarrow> p2m_state \<Rightarrow> p2m_state \<Rightarrow> bool"
  for c :: config and pfn :: nat where
    kept_refl: "kept c pfn s s"
  | kept_step:
      "kept c pfn s s1 \<Longrightarrow> set_phys_to_machine c s1 pfn' mfn' = Inr (b, s2) \<Longrightarrow>
       pfn' \<noteq> pfn \<or> \<not> b \<Longrightarrow> kept c pfn s s2"

text \<open>The four operations on the tree, and a sequence of them run in order.\<close>

datatype p2m_op =
    Op_get nat
  | Op_try_set nat ulong
  | Op_set nat ulong
  | Op_alloc nat

fun p2m_step :: "config \<Rightarrow> p2m_state \<Rightarrow> p2m_op \<Rightarrow> error + p2m_state" where
  "p2m_step c s (Op_get pfn) =
     (case get_phys_to_machine c s pfn of Inl e \<Rightarrow> Inl e | Inr v \<Rightarrow> Inr s)"
| "p2m_step c s (Op_try_set pfn mfn) =
     (case try_set_phys_to_machine c s pfn mfn of Inl e \<Rightarrow> Inl e | Inr (b, s') \<Rightarrow> Inr s')"
| "p2m_step c s (Op_set pfn mfn) =
     (case set_phys_to_machine c s pfn mfn of Inl e \<Rightarrow> Inl e | Inr (b, s') \<Rightarrow> Inr s')"
| "p2m_step c s (Op_alloc pfn) =
     (case alloc_p2m c s pfn of Inl e \<Rightarrow> Inl e | Inr (b, s') \<Rightarrow> Inr s')"

fun p2m_run :: "config \<Rightarrow> p2m_state \<Rightarrow> p2m_op list \<Rightarrow> error + p2m_state" where
  "p2m_run c s [] = Inr s"
| "p2m_run c s (x # xs) =
     (case p2m_step c s x of Inl e \<Rightarrow> Inl e | Inr s' \<Rightarrow> p2m_run c s' xs)"

text \<open>
  A sequence of calls of \<open>set_phys_to_machine\<close>, run in order; the flag tells whether
  every call returned true.
\<close>

fun set_seq :: "config \<Rightarrow> p2m_state \<Rightarrow> (nat \<times> ulong) list \<Rightarrow> error + (bool \<times> p2m_state)" where
  "set_seq c s [] = Inr (True, s)"
| "set_seq c s ((pfn, mfn) # xs) =
     (case set_phys_to_machine c s pfn mfn of
        Inl e \<Rightarrow> Inl e
      | Inr (b, s1) \<Rightarrow>
          (case set_seq c s1 xs of
             Inl e \<Rightarrow> Inl e
           | Inr (b', s2) \<Rightarrow> Inr (b \<and> b', s2)))"

text \<open>The pfns a sequence writes to.\<close>

fun set_targets :: "p2m_op list \<Rightarrow> nat set" where
  "set_targets [] = {}"
| "set_targets (Op_try_set pfn mfn # xs) = insert pfn (set_targets xs)"
| "set_targets (Op_set pfn mfn # xs) = insert pfn (set_targets xs)"
| "set_targets (x # xs) = set_targets xs"

subsection \<open>A small tree\<close>

text \<open>
  A configuration with pages of sixteen bytes, so that a page holds two entries and the
  tree covers eight pfns, and a tree over it: one mid page, one leaf (pfns 0 and 1,
  mapped to 7 and 9) and one mid mfn page, with three pages in the free pool.
\<close>

definition cfg0 :: config where
  "cfg0 = \<lparr>PAGE_SIZE = 16, MAX_DOMAIN_PAGES = 8, virt_to_mfn = (\<lambda>a. a + 4096)\<rparr>"

definition mem0 :: memory where
  "mem0 = (\<lambda>a i.
     if a = 0x10 then (if i < 2 then INVALID_P2M_ENTRY else 0)
     else if a = 0x20 then (if i < 2 then 0x10 else 0)
     else if a = 0x30 then (if i = 0 then 0x40 else if i = 1 then 0x20 else 0)
     else if a = 0x40 then (if i = 0 then 0x100 else if i = 1 then 0x10 else 0)
     else if a = 0x50 then (if i < 2 then 0x10 + 4096 else 0)
     else if a = 0x60 then (if i = 0 then 0x80 else if i = 1 then 0x50 else 0)
     else if a = 0x70 then (if i = 0 then 0x80 + 4096 else if i = 1 then 0x50 + 4096 else 0)
     else if a = 0x80 then (if i = 0 then 0x100 + 4096 else if i = 1 then 0x10 + 4096 else 0)
     else if a = 0x100 then (if i = 0 then 7 else 9)
     else 0)"

definition s0 :: p2m_state where
  "s0 = \<lparr>mem = mem0,
          p2m_missing = 0x10, p2m_mid_missing = 0x20, p2m_mid_missing_mfn = 0x50,
          p2m_top = 0x30, p2m_top_mfn = 0x70, p2m_top_mfn_p = 0x60,
          xen_max_p2m_pfn = 2,
          free_pages = [0x500, 0x510, 0x520],
          brk = [],
          auto_translated_physmap = False\<rparr>"

definition roles0 :: "addr \<Rightarrow> role" where
  "roles0 = (\<lambda>a.
     if a = 0x10 then R_missing
     else if a = 0x20 then R_mid_missing
     else if a = 0x30 then R_top
     else if a = 0x40 then R_mid 0
     else if a = 0x50 then R_mid_missing_mfn
     else if a = 0x60 then R_top_mfn_p
     else if a = 0x70 then R_top_mfn
     else if a = 0x80 then R_mid_mfn 0
     else if a = 0x100 then R_leaf 0 0
     else R_free)"

text \<open>
  The machine before \<open>xen_build_dynamic_phys_to_machine\<close> runs: nothing is set up, the
  brk area has its pages, and the domain builder has left its list of two mfns, 7 and
  9, in the page at \<open>0x100\<close>.
\<close>

definition s_boot :: p2m_state where
  "s_boot = \<lparr>mem = (\<lambda>a i. if a = 0x100 then (if i = 0 then 7 else 9) else 0),
          p2m_missing = 0, p2m_mid_missing = 0, p2m_mid_missing_mfn = 0,
          p2m_top = 0, p2m_top_mfn = 0, p2m_top_mfn_p = 0,
          xen_max_p2m_pfn = 0,
          free_pages = [0x500, 0x510, 0x520],
          brk = [0x10, 0x20, 0x30, 0x40, 0x50, 0x60, 0x70, 0x80],
          auto_translated_physmap = False\<rparr>"

section \<open>Properties of the p2m tree\<close>

subsection \<open>Stores, loops and indices\<close>

lemma store_apply: "store m p i v q j = (if q = p \<and> j = i then v else m q j)"
  by (simp add: store_def)

lemma fill_from_apply:
  "fill_from p v n i m q j = (if q = p \<and> i \<le> j \<and> j < n then v else m q j)"
proof (induction p v n i m rule: fill_from.induct)
  case (1 p v n i m)
  show ?case
  proof (cases "i < n")
    case True
    have "fill_from p v n i m q j = fill_from p v n (Suc i) (store m p i v) q j"
      using True by (subst fill_from.simps) simp
    also have "\<dots> = (if q = p \<and> Suc i \<le> j \<and> j < n then v else store m p i v q j)"
      by (rule "1.IH" [OF True])
    also have "\<dots> = (if q = p \<and> i \<le> j \<and> j < n then v else m q j)"
      using True by (auto simp: store_apply)
    finally show ?thesis .
  next
    case False
    then show ?thesis by (subst fill_from.simps) auto
  qed
qed

lemma per_page_eq: "P2M_MID_PER_PAGE c = P2M_PER_PAGE c" "P2M_TOP_PER_PAGE c = P2M_PER_PAGE c"
  by (simp_all add: P2M_MID_PER_PAGE_def P2M_PER_PAGE_def P2M_TOP_PER_PAGE_def sizeof_ulong_def sizeof_ptr_def)

lemma top_index_Inr:
  "pfn < MAX_P2M_PFN c \<Longrightarrow> p2m_top_index c pfn = Inr (pfn div (P2M_MID_PER_PAGE c * P2M_PER_PAGE c))"
  by (simp add: p2m_top_index_def)

lemma top_index_less:
  assumes "pfn < MAX_P2M_PFN c"
  shows "pfn div (P2M_MID_PER_PAGE c * P2M_PER_PAGE c) < P2M_TOP_PER_PAGE c"
proof -
  have "pfn < P2M_TOP_PER_PAGE c * (P2M_MID_PER_PAGE c * P2M_PER_PAGE c)"
    using assms by (simp only: MAX_P2M_PFN_def mult.assoc)
  then show ?thesis by (rule less_mult_imp_div_less)
qed

lemma per_page_pos: "pfn < MAX_P2M_PFN c \<Longrightarrow> 0 < P2M_PER_PAGE c"
  by (cases "P2M_PER_PAGE c = 0") (simp_all add: MAX_P2M_PFN_def)

lemma mid_index_less: "pfn < MAX_P2M_PFN c \<Longrightarrow> p2m_mid_index c pfn < P2M_MID_PER_PAGE c"
  using per_page_pos [of pfn c] by (simp add: p2m_mid_index_def per_page_eq)

lemma index_less: "pfn < MAX_P2M_PFN c \<Longrightarrow> p2m_index c pfn < P2M_PER_PAGE c"
  using per_page_pos [of pfn c] by (simp add: p2m_index_def)

lemma pfn_decompose:
  "(pfn div (P2M_MID_PER_PAGE c * P2M_PER_PAGE c)) * (P2M_MID_PER_PAGE c * P2M_PER_PAGE c)
       + p2m_mid_index c pfn * P2M_PER_PAGE c + p2m_index c pfn = pfn"
proof -
  define P where "P = P2M_PER_PAGE c"
  define M where "M = P2M_MID_PER_PAGE c"
  have a: "(pfn div P) * P + pfn mod P = pfn" by simp
  have b: "((pfn div P) div M) * M + (pfn div P) mod M = pfn div P" by simp
  have "(pfn div P) div M = pfn div (P * M)"
    by (simp only: div_mult2_eq)
  then have c: "pfn div (M * P) = (pfn div P) div M"
    by (simp only: mult.commute [of M P])
  have "(pfn div (M * P)) * (M * P) + ((pfn div P) mod M) * P + pfn mod P
      = (((pfn div P) div M) * M + (pfn div P) mod M) * P + pfn mod P"
    unfolding c by (simp only: algebra_simps)
  also have "\<dots> = pfn" unfolding b by (rule a)
  finally show ?thesis
    unfolding p2m_mid_index_def p2m_index_def P_def M_def .
qed

lemma pfn_indices_inj:
  assumes "pfn div (P2M_MID_PER_PAGE c * P2M_PER_PAGE c) = pfn' div (P2M_MID_PER_PAGE c * P2M_PER_PAGE c)"
    and "p2m_mid_index c pfn = p2m_mid_index c pfn'"
    and "p2m_index c pfn = p2m_index c pfn'"
  shows "pfn = pfn'"
proof -
  have "pfn = (pfn div (P2M_MID_PER_PAGE c * P2M_PER_PAGE c)) * (P2M_MID_PER_PAGE c * P2M_PER_PAGE c)
       + p2m_mid_index c pfn * P2M_PER_PAGE c + p2m_index c pfn"
    by (rule pfn_decompose [symmetric])
  also have "\<dots> = (pfn' div (P2M_MID_PER_PAGE c * P2M_PER_PAGE c)) * (P2M_MID_PER_PAGE c * P2M_PER_PAGE c)
       + p2m_mid_index c pfn' * P2M_PER_PAGE c + p2m_index c pfn'"
    by (simp only: assms)
  also have "\<dots> = pfn'" by (rule pfn_decompose)
  finally show ?thesis .
qed


subsection \<open>Reading and writing a leaf\<close>

lemma roles_frame:
  assumes r: "p2m_roles c r s"
    and p: "r p \<noteq> R_top" "r p \<noteq> R_mid_missing" "r p \<noteq> R_top_mfn_p" "r p \<noteq> R_missing"
           "\<And>t. r p \<noteq> R_mid t"
    and m': "\<And>a j. a \<noteq> p \<Longrightarrow> m' a j = mem s a j"
  shows "p2m_roles c r (s\<lparr>mem := m'\<rparr>)"
proof -
  have top: "p2m_top s \<noteq> p" and mm: "p2m_mid_missing s \<noteq> p"
    and tp: "p2m_top_mfn_p s \<noteq> p" and ms: "p2m_missing s \<noteq> p"
    using r p unfolding p2m_roles_def by auto
  have mid: "mem s (p2m_top s) t \<noteq> p" if "t < P2M_TOP_PER_PAGE c" for t
    using r p that unfolding p2m_roles_def by metis
  show ?thesis
    using r unfolding p2m_roles_def
    by (simp add: m' top mm tp ms mid)
qed

lemma get_in_range:
  "pfn < MAX_P2M_PFN c \<Longrightarrow>
   get_phys_to_machine c s pfn = Inr (mem s (leaf_of c s pfn) (p2m_index c pfn))"
  by (simp add: get_phys_to_machine_def top_index_Inr leaf_of_def mid_of_def)

lemma get_out_of_range:
  "MAX_P2M_PFN c \<le> pfn \<Longrightarrow> get_phys_to_machine c s pfn = Inr INVALID_P2M_ENTRY"
  by (simp add: get_phys_to_machine_def)

lemma try_set_in_range:
  "pfn < MAX_P2M_PFN c \<Longrightarrow>
   try_set_phys_to_machine c s pfn mfn =
     (if leaf_of c s pfn = p2m_missing s then Inr (mfn = INVALID_P2M_ENTRY, s)
      else Inr (True, s\<lparr>mem := store (mem s) (leaf_of c s pfn) (p2m_index c pfn) mfn\<rparr>))"
  by (simp add: try_set_phys_to_machine_def top_index_Inr leaf_of_def mid_of_def)

lemma try_set_out_of_range:
  "MAX_P2M_PFN c \<le> pfn \<Longrightarrow>
   try_set_phys_to_machine c s pfn mfn =
     (if mfn \<noteq> INVALID_P2M_ENTRY then Inl BUG else Inr (True, s))"
  by (simp add: try_set_phys_to_machine_def)

lemma roles_mid:
  assumes "p2m_roles c r s" "pfn < MAX_P2M_PFN c" "mid_of c s pfn \<noteq> p2m_mid_missing s"
  shows "r (mid_of c s pfn) = R_mid (pfn div (P2M_MID_PER_PAGE c * P2M_PER_PAGE c))"
  using assms top_index_less [of pfn c] unfolding p2m_roles_def mid_of_def by blast

lemma roles_mid_missing_leaf:
  assumes "p2m_roles c r s" "pfn < MAX_P2M_PFN c" "mid_of c s pfn = p2m_mid_missing s"
  shows "leaf_of c s pfn = p2m_missing s"
  using assms mid_index_less [of pfn c] unfolding p2m_roles_def leaf_of_def by simp

lemma roles_leaf:
  assumes "p2m_roles c r s" "pfn < MAX_P2M_PFN c" "leaf_of c s pfn \<noteq> p2m_missing s"
  shows "r (leaf_of c s pfn) =
         R_leaf (pfn div (P2M_MID_PER_PAGE c * P2M_PER_PAGE c)) (p2m_mid_index c pfn)"
  using assms top_index_less [of pfn c] mid_index_less [of pfn c]
  unfolding p2m_roles_def leaf_of_def mid_of_def by blast

lemma roles_missing_invalid:
  assumes "p2m_roles c r s" "pfn < MAX_P2M_PFN c" "leaf_of c s pfn = p2m_missing s"
  shows "get_phys_to_machine c s pfn = Inr INVALID_P2M_ENTRY"
  using assms index_less [of pfn c] unfolding p2m_roles_def
  by (simp add: get_in_range)

lemma roles_store_leaf:
  assumes r: "p2m_roles c r s" and p: "pfn < MAX_P2M_PFN c"
    and l: "leaf_of c s pfn \<noteq> p2m_missing s"
  shows "p2m_roles c r (s\<lparr>mem := store (mem s) (leaf_of c s pfn) i v\<rparr>)"
  by (rule roles_frame [OF r, where p = "leaf_of c s pfn"])
     (simp_all add: roles_leaf [OF r p l] store_apply)

lemma leaf_of_store_leaf:
  assumes r: "p2m_roles c r s" and p: "pfn < MAX_P2M_PFN c" and p': "pfn' < MAX_P2M_PFN c"
    and l: "leaf_of c s pfn \<noteq> p2m_missing s"
  shows "leaf_of c (s\<lparr>mem := store (mem s) (leaf_of c s pfn) i v\<rparr>) pfn' = leaf_of c s pfn'"
proof -
  have rl: "r (leaf_of c s pfn) = R_leaf (pfn div (P2M_MID_PER_PAGE c * P2M_PER_PAGE c)) (p2m_mid_index c pfn)"
    by (rule roles_leaf [OF r p l])
  have top: "p2m_top s \<noteq> leaf_of c s pfn"
    using r rl unfolding p2m_roles_def by auto
  have mid: "mid_of c s pfn' \<noteq> leaf_of c s pfn"
  proof (cases "mid_of c s pfn' = p2m_mid_missing s")
    case True
    then show ?thesis using r rl unfolding p2m_roles_def by auto
  next
    case False
    then show ?thesis using roles_mid [OF r p' False] rl by auto
  qed
  have m1: "mid_of c (s\<lparr>mem := store (mem s) (leaf_of c s pfn) i v\<rparr>) pfn' = mid_of c s pfn'"
    using top by (simp add: mid_of_def store_apply)
  define s' where "s' = s\<lparr>mem := store (mem s) (leaf_of c s pfn) i v\<rparr>"
  have "leaf_of c s' pfn' = mem s' (mid_of c s' pfn') (p2m_mid_index c pfn')"
    by (simp add: leaf_of_def)
  also have "\<dots> = mem s' (mid_of c s pfn') (p2m_mid_index c pfn')"
    using m1 by (simp add: s'_def)
  also have "\<dots> = mem s (mid_of c s pfn') (p2m_mid_index c pfn')"
    using mid by (simp add: s'_def store_apply)
  also have "\<dots> = leaf_of c s pfn'"
    by (simp add: leaf_of_def)
  finally show ?thesis by (simp add: s'_def)
qed

lemma get_store_leaf:
  assumes r: "p2m_roles c r s" and p: "pfn < MAX_P2M_PFN c" and p': "pfn' < MAX_P2M_PFN c"
    and l: "leaf_of c s pfn \<noteq> p2m_missing s"
  shows "get_phys_to_machine c
           (s\<lparr>mem := store (mem s) (leaf_of c s pfn) (p2m_index c pfn) v\<rparr>) pfn' =
         (if pfn' = pfn then Inr v else get_phys_to_machine c s pfn')"
proof (cases "pfn' = pfn")
  case True
  then show ?thesis
    using p by (simp add: get_in_range leaf_of_store_leaf [OF r p p l] store_apply)
next
  case False
  have "\<not> (leaf_of c s pfn' = leaf_of c s pfn \<and> p2m_index c pfn' = p2m_index c pfn)"
  proof
    assume a: "leaf_of c s pfn' = leaf_of c s pfn \<and> p2m_index c pfn' = p2m_index c pfn"
    then have l': "leaf_of c s pfn' \<noteq> p2m_missing s" using l by simp
    have "R_leaf (pfn' div (P2M_MID_PER_PAGE c * P2M_PER_PAGE c)) (p2m_mid_index c pfn') =
          R_leaf (pfn div (P2M_MID_PER_PAGE c * P2M_PER_PAGE c)) (p2m_mid_index c pfn)"
      using roles_leaf [OF r p l] roles_leaf [OF r p' l'] a by simp
    then have "pfn' = pfn"
      using a by (intro pfn_indices_inj [of pfn' c pfn]) simp_all
    with False show False by simp
  qed
  then show ?thesis
    using False p'
    by (auto simp: get_in_range leaf_of_store_leaf [OF r p p' l] store_apply)
qed


subsection \<open>The small tree is well formed, and booting builds it\<close>

lemma cfg0_per [simp]: "P2M_PER_PAGE cfg0 = 2" "P2M_MID_PER_PAGE cfg0 = 2" "P2M_TOP_PER_PAGE cfg0 = 2"
  "MAX_P2M_PFN cfg0 = 8"
  by (simp_all add: cfg0_def P2M_PER_PAGE_def P2M_MID_PER_PAGE_def P2M_TOP_PER_PAGE_def MAX_P2M_PFN_def sizeof_ulong_def sizeof_ptr_def)

lemma cfg0_sel [simp]: "virt_to_mfn cfg0 a = a + 4096" "MAX_DOMAIN_PAGES cfg0 = 8"
  by (simp_all add: cfg0_def)

lemma less_2_cases: "(n::nat) < 2 \<longleftrightarrow> n = 0 \<or> n = 1"
  by auto

lemma roles0: "p2m_roles cfg0 roles0 s0"
  unfolding p2m_roles_def
  by (simp add: s0_def mem0_def roles0_def less_2_cases INVALID_P2M_ENTRY_def)

lemma wf0: "p2m_wf cfg0 s0"
  unfolding p2m_wf_def using roles0 by blast


lemma boot_dyn:
  "xen_build_dynamic_phys_to_machine cfg0 0x100 2 s_boot =
     Inr (s_boot\<lparr>mem := store (store (fill_from 64 16 2 0 (fill_from 48 32 2 0
              (fill_from 32 16 2 0 (fill_from 16 INVALID_P2M_ENTRY 2 0 (mem s_boot))))) 48 0 64) 64 0 256,
            p2m_missing := 16, p2m_mid_missing := 32, p2m_top := 48, xen_max_p2m_pfn := 2,
            brk := [80, 96, 112, 128]\<rparr>)"
  apply (simp add: xen_build_dynamic_phys_to_machine_def s_boot_def extend_brk_def Let_def)
  apply (simp add: build_dynamic_loop.simps p2m_top_index_def p2m_mid_index_def extend_brk_def Let_def p2m_top_init_def p2m_mid_init_def p2m_init_def  fill_from_apply store_apply mfn_list_at_def sizeof_ulong_def)
  done

lemma boot_reaches_s0:
  "(case xen_build_dynamic_phys_to_machine cfg0 0x100 2 s_boot of
      Inl e \<Rightarrow> Inl e | Inr s \<Rightarrow> xen_build_mfn_list_list cfg0 s) = Inr s0"
  apply (simp add: boot_dyn)
  apply (simp add: xen_build_mfn_list_list_def build_mfn_list_list_init_def s_boot_def extend_brk_def Let_def)
  apply (simp add: build_mfn_list_list_loop.simps p2m_top_index_def p2m_mid_index_def extend_brk_def Let_def p2m_top_mfn_init_def p2m_top_mfn_p_init_def p2m_mid_mfn_init_def  fill_from_apply store_apply)
  apply (simp add: s0_def)
  apply (intro ext)
  apply (simp add: mem0_def store_apply fill_from_apply)
  done


lemma shape0: "mfn_shape cfg0 s0"
  unfolding mfn_shape_def by (simp add: s0_def mem0_def less_2_cases)


subsection \<open>What a role assignment gives\<close>

lemma p2m_rolesD:
  assumes "p2m_roles c r s"
  shows "r (p2m_missing s) = R_missing"
    and "r (p2m_mid_missing s) = R_mid_missing"
    and "r (p2m_mid_missing_mfn s) = R_mid_missing_mfn"
    and "r (p2m_top s) = R_top"
    and "r (p2m_top_mfn s) = R_top_mfn"
    and "r (p2m_top_mfn_p s) = R_top_mfn_p"
    and "\<forall>t < P2M_TOP_PER_PAGE c.
        mem s (p2m_top s) t \<noteq> p2m_mid_missing s \<longrightarrow> r (mem s (p2m_top s) t) = R_mid t"
    and "\<forall>t < P2M_TOP_PER_PAGE c. \<forall>m < P2M_MID_PER_PAGE c.
        mem s (mem s (p2m_top s) t) m \<noteq> p2m_missing s \<longrightarrow>
        r (mem s (mem s (p2m_top s) t) m) = R_leaf t m"
    and "\<forall>t < P2M_TOP_PER_PAGE c.
        mem s (p2m_top_mfn_p s) t \<noteq> p2m_mid_missing_mfn s \<longrightarrow>
        r (mem s (p2m_top_mfn_p s) t) = R_mid_mfn t"
    and "\<forall>p \<in> set (free_pages s). r p = R_free \<and> p \<noteq> 0"
    and "distinct (free_pages s)"
    and "\<forall>i < P2M_MID_PER_PAGE c. mem s (p2m_mid_missing s) i = p2m_missing s"
    and "\<forall>i < P2M_PER_PAGE c. mem s (p2m_missing s) i = INVALID_P2M_ENTRY"
  using assms unfolding p2m_roles_def by blast+

lemma roles_globals:
  assumes "p2m_roles c r s"
  shows "r (p2m_missing s) = R_missing" "r (p2m_mid_missing s) = R_mid_missing"
    "r (p2m_mid_missing_mfn s) = R_mid_missing_mfn" "r (p2m_top s) = R_top"
    "r (p2m_top_mfn s) = R_top_mfn" "r (p2m_top_mfn_p s) = R_top_mfn_p"
  using p2m_rolesD(1-6) [OF assms] by blast+

lemma roles_mid_slot:
  assumes "p2m_roles c r s" "t < P2M_TOP_PER_PAGE c"
  shows "mem s (p2m_top s) t = p2m_mid_missing s \<or> r (mem s (p2m_top s) t) = R_mid t"
  using p2m_rolesD(7) [OF assms(1)] assms(2) by blast

lemma roles_leaf_slot:
  assumes "p2m_roles c r s" "t < P2M_TOP_PER_PAGE c" "m < P2M_MID_PER_PAGE c"
  shows "mem s (mem s (p2m_top s) t) m = p2m_missing s \<or>
         r (mem s (mem s (p2m_top s) t) m) = R_leaf t m"
  using p2m_rolesD(8) [OF assms(1)] assms(2,3) by blast

lemma roles_mid_mfn_slot:
  assumes "p2m_roles c r s" "t < P2M_TOP_PER_PAGE c"
  shows "mem s (p2m_top_mfn_p s) t = p2m_mid_missing_mfn s \<or>
         r (mem s (p2m_top_mfn_p s) t) = R_mid_mfn t"
  using p2m_rolesD(9) [OF assms(1)] assms(2) by blast

lemma roles_free:
  assumes "p2m_roles c r s" "p \<in> set (free_pages s)"
  shows "r p = R_free" "p \<noteq> 0"
  using p2m_rolesD(10) [OF assms(1)] assms(2) by blast+

lemma roles_missing_content:
  assumes "p2m_roles c r s"
  shows "i < P2M_MID_PER_PAGE c \<Longrightarrow> mem s (p2m_mid_missing s) i = p2m_missing s"
    and "i < P2M_PER_PAGE c \<Longrightarrow> mem s (p2m_missing s) i = INVALID_P2M_ENTRY"
  using p2m_rolesD(12,13) [OF assms] by blast+

lemma role_neq: "r a \<noteq> r b \<Longrightarrow> a \<noteq> b"
  by auto

lemma p2m_rolesI:
  assumes "r (p2m_missing s) = R_missing"
    and "r (p2m_mid_missing s) = R_mid_missing"
    and "r (p2m_mid_missing_mfn s) = R_mid_missing_mfn"
    and "r (p2m_top s) = R_top"
    and "r (p2m_top_mfn s) = R_top_mfn"
    and "r (p2m_top_mfn_p s) = R_top_mfn_p"
    and "\<And>t. t < P2M_TOP_PER_PAGE c \<Longrightarrow>
        mem s (p2m_top s) t \<noteq> p2m_mid_missing s \<Longrightarrow> r (mem s (p2m_top s) t) = R_mid t"
    and "\<And>t m. t < P2M_TOP_PER_PAGE c \<Longrightarrow> m < P2M_MID_PER_PAGE c \<Longrightarrow>
        mem s (mem s (p2m_top s) t) m \<noteq> p2m_missing s \<Longrightarrow>
        r (mem s (mem s (p2m_top s) t) m) = R_leaf t m"
    and "\<And>t. t < P2M_TOP_PER_PAGE c \<Longrightarrow>
        mem s (p2m_top_mfn_p s) t \<noteq> p2m_mid_missing_mfn s \<Longrightarrow>
        r (mem s (p2m_top_mfn_p s) t) = R_mid_mfn t"
    and "\<And>p. p \<in> set (free_pages s) \<Longrightarrow> r p = R_free \<and> p \<noteq> 0"
    and "distinct (free_pages s)"
    and "\<And>i. i < P2M_MID_PER_PAGE c \<Longrightarrow> mem s (p2m_mid_missing s) i = p2m_missing s"
    and "\<And>i. i < P2M_PER_PAGE c \<Longrightarrow> mem s (p2m_missing s) i = INVALID_P2M_ENTRY"
  shows "p2m_roles c r s"
  unfolding p2m_roles_def using assms by blast


subsection \<open>Taking a page from the pool and linking it into the tree\<close>

lemma fresh_page:
  assumes r: "p2m_roles c r s" and p: "r p = R_free"
  shows "p2m_missing s \<noteq> p" "p2m_mid_missing s \<noteq> p" "p2m_mid_missing_mfn s \<noteq> p"
    "p2m_top s \<noteq> p" "p2m_top_mfn s \<noteq> p" "p2m_top_mfn_p s \<noteq> p"
    "t < P2M_TOP_PER_PAGE c \<Longrightarrow> mem s (p2m_top s) t \<noteq> p"
    "t < P2M_TOP_PER_PAGE c \<Longrightarrow> m < P2M_MID_PER_PAGE c \<Longrightarrow> mem s (mem s (p2m_top s) t) m \<noteq> p"
    "t < P2M_TOP_PER_PAGE c \<Longrightarrow> mem s (p2m_top_mfn_p s) t \<noteq> p"
proof -
  note g = roles_globals [OF r]
  show "p2m_missing s \<noteq> p" "p2m_mid_missing s \<noteq> p" "p2m_mid_missing_mfn s \<noteq> p"
    "p2m_top s \<noteq> p" "p2m_top_mfn s \<noteq> p" "p2m_top_mfn_p s \<noteq> p"
    using g p by auto
  show "mem s (p2m_top s) t \<noteq> p" if "t < P2M_TOP_PER_PAGE c"
    using roles_mid_slot [OF r that] p g by auto
  show "mem s (mem s (p2m_top s) t) m \<noteq> p" if "t < P2M_TOP_PER_PAGE c" "m < P2M_MID_PER_PAGE c"
    using roles_leaf_slot [OF r that] p g by auto
  show "mem s (p2m_top_mfn_p s) t \<noteq> p" if "t < P2M_TOP_PER_PAGE c"
    using roles_mid_mfn_slot [OF r that] p g by auto
qed

lemma global_neq:
  assumes r: "p2m_roles c r s"
  shows "p2m_top s \<noteq> p2m_mid_missing s" "p2m_top s \<noteq> p2m_missing s"
    "p2m_top s \<noteq> p2m_top_mfn s" "p2m_top s \<noteq> p2m_top_mfn_p s"
    "p2m_top s \<noteq> p2m_mid_missing_mfn s"
    "p2m_mid_missing s \<noteq> p2m_missing s" "p2m_mid_missing s \<noteq> p2m_top_mfn s"
    "p2m_mid_missing s \<noteq> p2m_top_mfn_p s" "p2m_mid_missing s \<noteq> p2m_mid_missing_mfn s"
    "p2m_missing s \<noteq> p2m_top_mfn s" "p2m_missing s \<noteq> p2m_top_mfn_p s"
    "p2m_missing s \<noteq> p2m_mid_missing_mfn s"
    "p2m_top_mfn s \<noteq> p2m_top_mfn_p s" "p2m_top_mfn s \<noteq> p2m_mid_missing_mfn s"
    "p2m_top_mfn_p s \<noteq> p2m_mid_missing_mfn s"
  using roles_globals [OF r] by auto

text \<open>The role of each page of the tree, whether it is a placeholder or not.\<close>

lemma mid_role:
  assumes r: "p2m_roles c r s" and t: "t < P2M_TOP_PER_PAGE c"
  shows "r (mem s (p2m_top s) t) = R_mid_missing \<or> r (mem s (p2m_top s) t) = R_mid t"
  using roles_mid_slot [OF r t] roles_globals(2) [OF r] by auto

lemma leaf_role:
  assumes r: "p2m_roles c r s" and t: "t < P2M_TOP_PER_PAGE c" and m: "m < P2M_MID_PER_PAGE c"
  shows "r (mem s (mem s (p2m_top s) t) m) = R_missing \<or>
         r (mem s (mem s (p2m_top s) t) m) = R_leaf t m"
  using roles_leaf_slot [OF r t m] roles_globals(1) [OF r] by auto

lemma mid_mfn_role:
  assumes r: "p2m_roles c r s" and t: "t < P2M_TOP_PER_PAGE c"
  shows "r (mem s (p2m_top_mfn_p s) t) = R_mid_missing_mfn \<or>
         r (mem s (p2m_top_mfn_p s) t) = R_mid_mfn t"
  using roles_mid_mfn_slot [OF r t] roles_globals(3) [OF r] by auto

lemma roles_pop:
  assumes r: "p2m_roles c r s" and f: "free_pages s = p # ps"
  shows "p2m_roles c r (s\<lparr>free_pages := ps\<rparr>)" "r p = R_free" "p \<noteq> 0" "p \<notin> set ps"
proof -
  have fr: "p \<notin> set ps" "distinct ps" "\<And>q. q \<in> set ps \<Longrightarrow> r q = R_free \<and> q \<noteq> 0"
    "r p = R_free" "p \<noteq> 0"
    using p2m_rolesD(10,11) [OF r] f by auto
  show "r p = R_free" "p \<noteq> 0" "p \<notin> set ps" by (rule fr)+
  show "p2m_roles c r (s\<lparr>free_pages := ps\<rparr>)"
    by (rule p2m_rolesI)
       (use p2m_rolesD(1-9,12,13) [OF r] fr in \<open>simp_all\<close>)
qed


lemma mid_page_neq:
  assumes r: "p2m_roles c r s" and t: "t < P2M_TOP_PER_PAGE c"
  shows "mem s (p2m_top s) t \<noteq> p2m_top s" "mem s (p2m_top s) t \<noteq> p2m_top_mfn s"
    "mem s (p2m_top s) t \<noteq> p2m_top_mfn_p s" "mem s (p2m_top s) t \<noteq> p2m_missing s"
    "mem s (p2m_top s) t \<noteq> p2m_mid_missing_mfn s"
  using mid_role [OF r t] roles_globals [OF r] by auto

lemma claim_mid:
  assumes r: "p2m_roles c r s" and p: "r p = R_free" "p \<notin> set (free_pages s)"
    and t: "t < P2M_TOP_PER_PAGE c"
    and c: "\<And>j. j < P2M_MID_PER_PAGE c \<Longrightarrow> mem s p j = p2m_missing s"
  shows "p2m_roles c (r(p := R_mid t)) (s\<lparr>mem := store (mem s) (p2m_top s) t p\<rparr>)"
proof -
  note fp = fresh_page [OF r p(1)]
  note g = roles_globals [OF r]
  note gn = global_neq [OF r]
  note D = p2m_rolesD [OF r]
  note mn = mid_page_neq [OF r]
  show ?thesis
    by (rule p2m_rolesI)
       (use fp g gn D mn p c in \<open>auto simp: store_apply\<close>)
qed


lemma leaf_page_neq:
  assumes r: "p2m_roles c r s" and t: "t < P2M_TOP_PER_PAGE c" and m: "m < P2M_MID_PER_PAGE c"
  shows "mem s (mem s (p2m_top s) t) m \<noteq> p2m_top s"
    "mem s (mem s (p2m_top s) t) m \<noteq> p2m_top_mfn s"
    "mem s (mem s (p2m_top s) t) m \<noteq> p2m_top_mfn_p s"
    "mem s (mem s (p2m_top s) t) m \<noteq> p2m_mid_missing s"
    "mem s (mem s (p2m_top s) t) m \<noteq> p2m_mid_missing_mfn s"
    "t' < P2M_TOP_PER_PAGE c \<Longrightarrow> mem s (mem s (p2m_top s) t) m \<noteq> mem s (p2m_top s) t'"
    "t' < P2M_TOP_PER_PAGE c \<Longrightarrow> mem s (mem s (p2m_top s) t) m \<noteq> mem s (p2m_top_mfn_p s) t'"
proof -
  note a = leaf_role [OF r t m]
  note g = roles_globals [OF r]
  show "mem s (mem s (p2m_top s) t) m \<noteq> p2m_top s"
    "mem s (mem s (p2m_top s) t) m \<noteq> p2m_top_mfn s"
    "mem s (mem s (p2m_top s) t) m \<noteq> p2m_top_mfn_p s"
    "mem s (mem s (p2m_top s) t) m \<noteq> p2m_mid_missing s"
    "mem s (mem s (p2m_top s) t) m \<noteq> p2m_mid_missing_mfn s"
    using a g by auto
  show "mem s (mem s (p2m_top s) t) m \<noteq> mem s (p2m_top s) t'" if "t' < P2M_TOP_PER_PAGE c"
    using a mid_role [OF r that] by auto
  show "mem s (mem s (p2m_top s) t) m \<noteq> mem s (p2m_top_mfn_p s) t'" if "t' < P2M_TOP_PER_PAGE c"
    using a mid_mfn_role [OF r that] by auto
qed

lemma mid_mfn_page_neq:
  assumes r: "p2m_roles c r s" and t: "t < P2M_TOP_PER_PAGE c"
  shows "mem s (p2m_top_mfn_p s) t \<noteq> p2m_top s" "mem s (p2m_top_mfn_p s) t \<noteq> p2m_top_mfn s"
    "mem s (p2m_top_mfn_p s) t \<noteq> p2m_top_mfn_p s" "mem s (p2m_top_mfn_p s) t \<noteq> p2m_missing s"
    "mem s (p2m_top_mfn_p s) t \<noteq> p2m_mid_missing s"
    "t' < P2M_TOP_PER_PAGE c \<Longrightarrow> mem s (p2m_top_mfn_p s) t \<noteq> mem s (p2m_top s) t'"
proof -
  note a = mid_mfn_role [OF r t]
  note g = roles_globals [OF r]
  show "mem s (p2m_top_mfn_p s) t \<noteq> p2m_top s" "mem s (p2m_top_mfn_p s) t \<noteq> p2m_top_mfn s"
    "mem s (p2m_top_mfn_p s) t \<noteq> p2m_top_mfn_p s" "mem s (p2m_top_mfn_p s) t \<noteq> p2m_missing s"
    "mem s (p2m_top_mfn_p s) t \<noteq> p2m_mid_missing s"
    using a g by auto
  show "mem s (p2m_top_mfn_p s) t \<noteq> mem s (p2m_top s) t'" if "t' < P2M_TOP_PER_PAGE c"
    using a mid_role [OF r that] by auto
qed

lemma mid_slot_inj:
  assumes r: "p2m_roles c r s" and t: "t < P2M_TOP_PER_PAGE c" "t' < P2M_TOP_PER_PAGE c"
    and n: "mem s (p2m_top s) t \<noteq> p2m_mid_missing s"
    and e: "mem s (p2m_top s) t' = mem s (p2m_top s) t"
  shows "t' = t"
proof -
  have a: "r (mem s (p2m_top s) t) = R_mid t"
    using roles_mid_slot [OF r t(1)] n by blast
  have "mem s (p2m_top s) t' \<noteq> p2m_mid_missing s"
    using n e by simp
  then have "r (mem s (p2m_top s) t') = R_mid t'"
    using roles_mid_slot [OF r t(2)] by blast
  then have "r (mem s (p2m_top s) t) = R_mid t'"
    by (simp only: e)
  then have "R_mid t' = R_mid t"
    by (simp only: a)
  then show ?thesis by simp
qed


lemma claim_leaf:
  assumes r: "p2m_roles c r s" and p: "r p = R_free" "p \<notin> set (free_pages s)"
    and t: "t < P2M_TOP_PER_PAGE c" and m: "m < P2M_MID_PER_PAGE c"
    and n: "mem s (p2m_top s) t \<noteq> p2m_mid_missing s"
  shows "p2m_roles c (r(p := R_leaf t m))
           (s\<lparr>mem := store (mem s) (mem s (p2m_top s) t) m p\<rparr>)"
    (is "p2m_roles c ?r ?s")
proof -
  note fp = fresh_page [OF r p(1)]
  note g = roles_globals [OF r]
  note gn = global_neq [OF r]
  note D = p2m_rolesD [OF r]
  note mn = mid_page_neq [OF r t]
  let ?mid = "mem s (p2m_top s) t"
  let ?M = "store (mem s) ?mid m p"
  have sel: "p2m_missing ?s = p2m_missing s" "p2m_mid_missing ?s = p2m_mid_missing s"
    "p2m_mid_missing_mfn ?s = p2m_mid_missing_mfn s" "p2m_top ?s = p2m_top s"
    "p2m_top_mfn ?s = p2m_top_mfn s" "p2m_top_mfn_p ?s = p2m_top_mfn_p s"
    "free_pages ?s = free_pages s" "mem ?s = ?M"
    by simp_all
  have top: "?M (p2m_top s) t' = mem s (p2m_top s) t'" for t'
    using mn(1) by (simp add: store_apply)
  show ?thesis
  proof (rule p2m_rolesI; (unfold sel top)?)
    show "?r (p2m_missing s) = R_missing" "?r (p2m_mid_missing s) = R_mid_missing"
      "?r (p2m_mid_missing_mfn s) = R_mid_missing_mfn" "?r (p2m_top s) = R_top"
      "?r (p2m_top_mfn s) = R_top_mfn" "?r (p2m_top_mfn_p s) = R_top_mfn_p"
      using g fp by simp_all
  next
    fix t' assume t': "t' < P2M_TOP_PER_PAGE c"
      and ne: "mem s (p2m_top s) t' \<noteq> p2m_mid_missing s"
    show "?r (mem s (p2m_top s) t') = R_mid t'"
      using ne fp(7) [OF t'] D(7) t' by simp
  next
    fix t' m' assume t': "t' < P2M_TOP_PER_PAGE c" and m': "m' < P2M_MID_PER_PAGE c"
    assume ne: "?M (mem s (p2m_top s) t') m' \<noteq> p2m_missing s"
    show "?r (?M (mem s (p2m_top s) t') m') = R_leaf t' m'"
    proof (cases "mem s (p2m_top s) t' = ?mid \<and> m' = m")
      case True
      then have "t' = t"
        using mid_slot_inj [OF r t t' n] by blast
      with True show ?thesis by (simp add: store_apply)
    next
      case False
      then have a: "?M (mem s (p2m_top s) t') m' = mem s (mem s (p2m_top s) t') m'"
        by (auto simp: store_apply)
      show ?thesis
        using ne fp(8) [OF t' m'] D(8) t' m' unfolding a by simp
    qed
  next
    fix t' assume t': "t' < P2M_TOP_PER_PAGE c"
    assume ne: "?M (p2m_top_mfn_p s) t' \<noteq> p2m_mid_missing_mfn s"
    have a: "?M (p2m_top_mfn_p s) t' = mem s (p2m_top_mfn_p s) t'"
      using mn(3) by (simp add: store_apply)
    show "?r (?M (p2m_top_mfn_p s) t') = R_mid_mfn t'"
      using ne fp(9) [OF t'] D(9) t' unfolding a by simp
  next
    fix q assume "q \<in> set (free_pages s)"
    then show "?r q = R_free \<and> q \<noteq> 0" using D(10) p(2) by auto
  next
    show "distinct (free_pages s)" by (rule D)
  next
    fix i assume "i < P2M_MID_PER_PAGE c"
    then show "?M (p2m_mid_missing s) i = p2m_missing s"
      using n D(12) by (simp add: store_apply)
  next
    fix i assume "i < P2M_PER_PAGE c"
    then show "?M (p2m_missing s) i = INVALID_P2M_ENTRY"
      using mn(4) D(13) by (simp add: store_apply)
  qed
qed


lemma claim_mid_mfn:
  assumes r: "p2m_roles c r s" and p: "r p = R_free" "p \<notin> set (free_pages s)"
    and t: "t < P2M_TOP_PER_PAGE c"
  shows "p2m_roles c (r(p := R_mid_mfn t))
           (s\<lparr>mem := store (mem s) (p2m_top_mfn_p s) t p\<rparr>)"
    (is "p2m_roles c ?r ?s")
proof -
  note fp = fresh_page [OF r p(1)]
  note g = roles_globals [OF r]
  note gn = global_neq [OF r]
  note D = p2m_rolesD [OF r]
  let ?M = "store (mem s) (p2m_top_mfn_p s) t p"
  have sel: "p2m_missing ?s = p2m_missing s" "p2m_mid_missing ?s = p2m_mid_missing s"
    "p2m_mid_missing_mfn ?s = p2m_mid_missing_mfn s" "p2m_top ?s = p2m_top s"
    "p2m_top_mfn ?s = p2m_top_mfn s" "p2m_top_mfn_p ?s = p2m_top_mfn_p s"
    "free_pages ?s = free_pages s" "mem ?s = ?M"
    by simp_all
  have top: "?M (p2m_top s) t' = mem s (p2m_top s) t'" for t'
    using gn(4) by (simp add: store_apply)
  show ?thesis
  proof (rule p2m_rolesI; (unfold sel top)?)
    show "?r (p2m_missing s) = R_missing" "?r (p2m_mid_missing s) = R_mid_missing"
      "?r (p2m_mid_missing_mfn s) = R_mid_missing_mfn" "?r (p2m_top s) = R_top"
      "?r (p2m_top_mfn s) = R_top_mfn" "?r (p2m_top_mfn_p s) = R_top_mfn_p"
      using g fp by simp_all
  next
    fix t' assume t': "t' < P2M_TOP_PER_PAGE c"
      and ne: "mem s (p2m_top s) t' \<noteq> p2m_mid_missing s"
    show "?r (mem s (p2m_top s) t') = R_mid t'"
      using ne fp(7) [OF t'] D(7) t' by simp
  next
    fix t' m' assume t': "t' < P2M_TOP_PER_PAGE c" and m': "m' < P2M_MID_PER_PAGE c"
    assume ne: "?M (mem s (p2m_top s) t') m' \<noteq> p2m_missing s"
    have a: "?M (mem s (p2m_top s) t') m' = mem s (mem s (p2m_top s) t') m'"
      using mid_page_neq(3) [OF r t'] by (simp add: store_apply)
    show "?r (?M (mem s (p2m_top s) t') m') = R_leaf t' m'"
      using ne fp(8) [OF t' m'] D(8) t' m' unfolding a by simp
  next
    fix t' assume t': "t' < P2M_TOP_PER_PAGE c"
    assume ne: "?M (p2m_top_mfn_p s) t' \<noteq> p2m_mid_missing_mfn s"
    show "?r (?M (p2m_top_mfn_p s) t') = R_mid_mfn t'"
    proof (cases "t' = t")
      case True
      then show ?thesis by (simp add: store_apply)
    next
      case False
      then have a: "?M (p2m_top_mfn_p s) t' = mem s (p2m_top_mfn_p s) t'"
        by (simp add: store_apply)
      show ?thesis
        using ne fp(9) [OF t'] D(9) t' unfolding a by simp
    qed
  next
    fix q assume "q \<in> set (free_pages s)"
    then show "?r q = R_free \<and> q \<noteq> 0" using D(10) p(2) by auto
  next
    show "distinct (free_pages s)" by (rule D)
  next
    fix i assume "i < P2M_MID_PER_PAGE c"
    then show "?M (p2m_mid_missing s) i = p2m_missing s"
      using gn(8) D(12) by (simp add: store_apply)
  next
    fix i assume "i < P2M_PER_PAGE c"
    then show "?M (p2m_missing s) i = INVALID_P2M_ENTRY"
      using gn(11) D(13) by (simp add: store_apply)
  qed
qed

text \<open>What a lookup reads.\<close>

lemma mid_of_role:
  assumes r: "p2m_roles c r s" and p: "pfn < MAX_P2M_PFN c"
  shows "r (mid_of c s pfn) = R_mid_missing \<or>
         r (mid_of c s pfn) = R_mid (pfn div (P2M_MID_PER_PAGE c * P2M_PER_PAGE c))"
  unfolding mid_of_def by (rule mid_role [OF r top_index_less [OF p]])

lemma leaf_of_role:
  assumes r: "p2m_roles c r s" and p: "pfn < MAX_P2M_PFN c"
  shows "r (leaf_of c s pfn) = R_missing \<or>
         r (leaf_of c s pfn) =
           R_leaf (pfn div (P2M_MID_PER_PAGE c * P2M_PER_PAGE c)) (p2m_mid_index c pfn)"
  unfolding leaf_of_def mid_of_def
  by (rule leaf_role [OF r top_index_less [OF p] mid_index_less [OF p]])

lemma lookup_frame:
  assumes r: "p2m_roles c r s"
    and q: "r q \<noteq> R_top" "r q \<noteq> R_mid_missing" "r q \<noteq> R_missing"
           "\<And>t. r q \<noteq> R_mid t" "\<And>t m. r q \<noteq> R_leaf t m"
    and m': "\<And>a j. a \<noteq> q \<Longrightarrow> m' a j = mem s a j"
    and p: "pfn < MAX_P2M_PFN c"
  shows "mid_of c (s\<lparr>mem := m'\<rparr>) pfn = mid_of c s pfn"
    and "leaf_of c (s\<lparr>mem := m'\<rparr>) pfn = leaf_of c s pfn"
    and "get_phys_to_machine c (s\<lparr>mem := m'\<rparr>) pfn = get_phys_to_machine c s pfn"
proof -
  have top: "p2m_top s \<noteq> q" using roles_globals(4) [OF r] q(1) by auto
  have mid: "mid_of c s pfn \<noteq> q" using mid_of_role [OF r p] q(2,4) by auto
  have leaf: "leaf_of c s pfn \<noteq> q" using leaf_of_role [OF r p] q(3,5) by auto
  show a: "mid_of c (s\<lparr>mem := m'\<rparr>) pfn = mid_of c s pfn"
    using top by (simp add: mid_of_def m')
  show b: "leaf_of c (s\<lparr>mem := m'\<rparr>) pfn = leaf_of c s pfn"
    using mid by (simp add: leaf_of_def a m')
  show "get_phys_to_machine c (s\<lparr>mem := m'\<rparr>) pfn = get_phys_to_machine c s pfn"
    using leaf by (simp add: get_in_range [OF p] b m')
qed


lemma lookup_claim_mid:
  assumes r: "p2m_roles c r s" and fr: "r p = R_free"
    and t: "t < P2M_TOP_PER_PAGE c"
    and ms: "mem s (p2m_top s) t = p2m_mid_missing s"
    and ct: "\<And>j. j < P2M_MID_PER_PAGE c \<Longrightarrow> mem s p j = p2m_missing s"
    and p: "pfn < MAX_P2M_PFN c"
  shows "leaf_of c (s\<lparr>mem := store (mem s) (p2m_top s) t p\<rparr>) pfn = leaf_of c s pfn"
    and "get_phys_to_machine c (s\<lparr>mem := store (mem s) (p2m_top s) t p\<rparr>) pfn =
         get_phys_to_machine c s pfn"
proof -
  let ?s = "s\<lparr>mem := store (mem s) (p2m_top s) t p\<rparr>"
  let ?t = "pfn div (P2M_MID_PER_PAGE c * P2M_PER_PAGE c)"
  note fp = fresh_page [OF r fr]
  have tl: "?t < P2M_TOP_PER_PAGE c" by (rule top_index_less [OF p])
  have ml: "p2m_mid_index c pfn < P2M_MID_PER_PAGE c" by (rule mid_index_less [OF p])
  have mid: "mid_of c ?s pfn = (if ?t = t then p else mid_of c s pfn)"
    by (simp add: mid_of_def store_apply)
  show b: "leaf_of c ?s pfn = leaf_of c s pfn"
  proof (cases "?t = t")
    case True
    have "leaf_of c ?s pfn = mem s p (p2m_mid_index c pfn)"
      using True fp(4) by (simp add: leaf_of_def mid store_apply)
    also have "\<dots> = p2m_missing s" by (rule ct [OF ml])
    also have "\<dots> = leaf_of c s pfn"
      using True ms roles_missing_content(1) [OF r ml] by (simp add: leaf_of_def mid_of_def)
    finally show ?thesis .
  next
    case False
    then show ?thesis
      using mid_page_neq(1) [OF r tl] by (simp add: leaf_of_def mid store_apply mid_of_def)
  qed
  have "leaf_of c s pfn \<noteq> p2m_top s"
    unfolding leaf_of_def mid_of_def by (rule leaf_page_neq(1) [OF r tl ml])
  then show "get_phys_to_machine c ?s pfn = get_phys_to_machine c s pfn"
    by (simp add: get_in_range [OF p] b store_apply)
qed

lemma lookup_claim_leaf:
  assumes r: "p2m_roles c r s" and fr: "r p = R_free"
    and t: "t < P2M_TOP_PER_PAGE c" and m: "m < P2M_MID_PER_PAGE c"
    and n: "mem s (p2m_top s) t \<noteq> p2m_mid_missing s"
    and ms: "mem s (mem s (p2m_top s) t) m = p2m_missing s"
    and ct: "\<And>j. j < P2M_PER_PAGE c \<Longrightarrow> mem s p j = INVALID_P2M_ENTRY"
    and p: "pfn < MAX_P2M_PFN c"
  shows "leaf_of c (s\<lparr>mem := store (mem s) (mem s (p2m_top s) t) m p\<rparr>) pfn =
           (if pfn div (P2M_MID_PER_PAGE c * P2M_PER_PAGE c) = t \<and> p2m_mid_index c pfn = m
            then p else leaf_of c s pfn)"
    and "get_phys_to_machine c (s\<lparr>mem := store (mem s) (mem s (p2m_top s) t) m p\<rparr>) pfn =
         get_phys_to_machine c s pfn"
proof -
  let ?mid = "mem s (p2m_top s) t"
  let ?s = "s\<lparr>mem := store (mem s) ?mid m p\<rparr>"
  let ?t = "pfn div (P2M_MID_PER_PAGE c * P2M_PER_PAGE c)"
  note fp = fresh_page [OF r fr]
  have tl: "?t < P2M_TOP_PER_PAGE c" by (rule top_index_less [OF p])
  have ml: "p2m_mid_index c pfn < P2M_MID_PER_PAGE c" by (rule mid_index_less [OF p])
  have il: "p2m_index c pfn < P2M_PER_PAGE c" by (rule index_less [OF p])
  have mid: "mid_of c ?s pfn = mid_of c s pfn"
    using mid_page_neq(1) [OF r t] by (simp add: mid_of_def store_apply)
  have same: "?t = t" if "mid_of c s pfn = ?mid"
    using mid_slot_inj [OF r t tl n] that by (simp add: mid_of_def)
  have conv: "mid_of c s pfn = ?mid \<longleftrightarrow> ?t = t"
    using same by (auto simp: mid_of_def)
  have "leaf_of c ?s pfn = store (mem s) ?mid m p (mid_of c s pfn) (p2m_mid_index c pfn)"
    using mid by (simp add: leaf_of_def)
  also have "\<dots> = (if mid_of c s pfn = ?mid \<and> p2m_mid_index c pfn = m then p
                      else mem s (mid_of c s pfn) (p2m_mid_index c pfn))"
    by (simp only: store_apply)
  also have "\<dots> = (if ?t = t \<and> p2m_mid_index c pfn = m then p else leaf_of c s pfn)"
    by (simp only: conv leaf_of_def)
  finally show b: "leaf_of c ?s pfn =
           (if ?t = t \<and> p2m_mid_index c pfn = m then p else leaf_of c s pfn)" .
  show "get_phys_to_machine c ?s pfn = get_phys_to_machine c s pfn"
  proof (cases "?t = t \<and> p2m_mid_index c pfn = m")
    case True
    have "mem ?s p (p2m_index c pfn) = INVALID_P2M_ENTRY"
      using fp(7) [OF t] ct [OF il] by (simp add: store_apply)
    moreover have "leaf_of c s pfn = p2m_missing s"
      using True ms by (simp add: leaf_of_def mid_of_def)
    moreover have "leaf_of c ?s pfn = p"
      unfolding b using True by (rule if_P)
    ultimately show ?thesis
      using roles_missing_content(2) [OF r il]
      by (simp add: get_in_range [OF p])
  next
    case False
    have "leaf_of c s pfn \<noteq> ?mid"
      unfolding leaf_of_def mid_of_def by (rule leaf_page_neq(6) [OF r tl ml t])
    moreover have "leaf_of c ?s pfn = leaf_of c s pfn"
      unfolding b using False by (rule if_not_P)
    ultimately show ?thesis
      by (simp add: get_in_range [OF p] store_apply)
  qed
qed


lemma tree_kept_refl: "tree_kept c s s"
  by (simp add: tree_kept_def same_globals_def)

lemma tree_kept_trans: "tree_kept c s s1 \<Longrightarrow> tree_kept c s1 s2 \<Longrightarrow> tree_kept c s s2"
  by (simp add: tree_kept_def same_globals_def)

lemma tree_keptI:
  assumes "same_globals s s'"
    and "\<And>pfn. pfn < MAX_P2M_PFN c \<Longrightarrow>
           get_phys_to_machine c s' pfn = get_phys_to_machine c s pfn"
  shows "tree_kept c s s'"
  unfolding tree_kept_def
proof (intro conjI allI)
  show "same_globals s s'" by fact
  fix pfn
  show "get_phys_to_machine c s' pfn = get_phys_to_machine c s pfn"
  proof (cases "pfn < MAX_P2M_PFN c")
    case True
    then show ?thesis by (rule assms(2))
  next
    case False
    then show ?thesis by (simp add: get_out_of_range)
  qed
qed

lemma get_free_pages_upd [simp]:
  "get_phys_to_machine c (s\<lparr>free_pages := ps\<rparr>) pfn = get_phys_to_machine c s pfn"
  by (simp add: get_phys_to_machine_def Let_def split: sum.splits)

lemma tree_kept_pop: "tree_kept c s (s\<lparr>free_pages := ps\<rparr>)"
  by (simp add: tree_kept_def same_globals_def)

lemma tree_kept_frame:
  assumes r: "p2m_roles c r s"
    and q: "r q \<noteq> R_top" "r q \<noteq> R_mid_missing" "r q \<noteq> R_missing"
           "\<And>t. r q \<noteq> R_mid t" "\<And>t m. r q \<noteq> R_leaf t m"
    and m': "\<And>a j. a \<noteq> q \<Longrightarrow> m' a j = mem s a j"
  shows "tree_kept c s (s\<lparr>mem := m'\<rparr>)"
  by (rule tree_keptI)
     (simp_all add: same_globals_def lookup_frame(3) [OF r q m'])

lemma tree_kept_claim_mid:
  assumes r: "p2m_roles c r s" and fr: "r p = R_free"
    and t: "t < P2M_TOP_PER_PAGE c"
    and ms: "mem s (p2m_top s) t = p2m_mid_missing s"
    and ct: "\<And>j. j < P2M_MID_PER_PAGE c \<Longrightarrow> mem s p j = p2m_missing s"
  shows "tree_kept c s (s\<lparr>mem := store (mem s) (p2m_top s) t p\<rparr>)"
  by (rule tree_keptI)
     (simp_all add: same_globals_def lookup_claim_mid(2) [OF r fr t ms ct])

lemma tree_kept_claim_leaf:
  assumes r: "p2m_roles c r s" and fr: "r p = R_free"
    and t: "t < P2M_TOP_PER_PAGE c" and m: "m < P2M_MID_PER_PAGE c"
    and n: "mem s (p2m_top s) t \<noteq> p2m_mid_missing s"
    and ms: "mem s (mem s (p2m_top s) t) m = p2m_missing s"
    and ct: "\<And>j. j < P2M_PER_PAGE c \<Longrightarrow> mem s p j = INVALID_P2M_ENTRY"
  shows "tree_kept c s (s\<lparr>mem := store (mem s) (mem s (p2m_top s) t) m p\<rparr>)"
  by (rule tree_keptI)
     (simp_all add: same_globals_def lookup_claim_leaf(2) [OF r fr t m n ms ct])

subsection \<open>The three blocks of \<open>alloc_p2m\<close>\<close>

lemma mid_stage_present:
  "mem s (p2m_top s) t \<noteq> p2m_mid_missing s \<Longrightarrow>
   alloc_p2m_mid c s t = Some (mem s (p2m_top s) t, s)"
  by (simp add: alloc_p2m_mid_def)

lemma mid_stage_fail:
  "mem s (p2m_top s) t = p2m_mid_missing s \<Longrightarrow> free_pages s = [] \<Longrightarrow>
   alloc_p2m_mid c s t = None"
  by (simp add: alloc_p2m_mid_def alloc_p2m_page_def)

lemma mid_stage_alloc:
  assumes r: "p2m_roles c r s" and m: "mem s (p2m_top s) t = p2m_mid_missing s"
    and f: "free_pages s = p # ps"
  shows "alloc_p2m_mid c s t =
     Some (p, s\<lparr>free_pages := ps,
                mem := store (fill_from p (p2m_missing s) (P2M_MID_PER_PAGE c) 0 (mem s))
                         (p2m_top s) t p\<rparr>)"
proof -
  note pp = roles_pop [OF r f]
  note fp = fresh_page(4) [OF r pp(2)]
  show ?thesis
    using fp pp(3) m f
    by (simp add: alloc_p2m_mid_def alloc_p2m_page_def p2m_mid_init_def cmpxchg_def
        fill_from_apply Let_def)
qed

lemma mid_stage_explicit:
  assumes r: "p2m_roles c r s" and t: "t < P2M_TOP_PER_PAGE c"
    and m: "mem s (p2m_top s) t = p2m_mid_missing s"
    and f: "free_pages s = p # ps"
  defines "s1 \<equiv> s\<lparr>free_pages := ps,
                mem := store (fill_from p (p2m_missing s) (P2M_MID_PER_PAGE c) 0 (mem s))
                         (p2m_top s) t p\<rparr>"
  shows "p2m_roles c (r(p := R_mid t)) s1" "tree_kept c s s1"
    "mem s1 (p2m_top s1) t = p" "p \<noteq> p2m_mid_missing s1"
proof -
  let ?F = "fill_from p (p2m_missing s) (P2M_MID_PER_PAGE c) 0 (mem s)"
  let ?sA = "s\<lparr>free_pages := ps\<rparr>"
  let ?sB = "?sA\<lparr>mem := ?F\<rparr>"
  note pp = roles_pop [OF r f]
  have F: "?F a j = mem ?sA a j" if "a \<noteq> p" for a j
    using that by (simp add: fill_from_apply)
  have rB: "p2m_roles c r ?sB"
    by (rule roles_frame [OF pp(1), where p = p]) (simp_all add: pp(2) F)
  have ct: "mem ?sB p j = p2m_missing ?sB" if "j < P2M_MID_PER_PAGE c" for j
    using that by (simp add: fill_from_apply)
  have ms: "mem ?sB (p2m_top ?sB) t = p2m_mid_missing ?sB"
    using m fresh_page(4) [OF r pp(2)] by (simp add: fill_from_apply)
  have eq: "s1 = ?sB\<lparr>mem := store (mem ?sB) (p2m_top ?sB) t p\<rparr>"
    by (simp add: s1_def)
  have nf: "p \<notin> set (free_pages ?sB)" using pp(4) by simp
  show "p2m_roles c (r(p := R_mid t)) s1"
    unfolding eq by (rule claim_mid [OF rB pp(2) nf t ct])
  have k1: "tree_kept c s ?sA" by (rule tree_kept_pop)
  have k2: "tree_kept c ?sA ?sB"
    by (rule tree_kept_frame [OF pp(1), where q = p]) (simp_all add: pp(2) F)
  have k3: "tree_kept c ?sB s1"
    unfolding eq by (rule tree_kept_claim_mid [OF rB pp(2) t ms ct])
  show "tree_kept c s s1"
    by (rule tree_kept_trans [OF tree_kept_trans [OF k1 k2] k3])
  show "mem s1 (p2m_top s1) t = p" by (simp add: s1_def store_apply)
  show "p \<noteq> p2m_mid_missing s1"
    using fresh_page(2) [OF r pp(2)] by (simp add: s1_def)
qed

lemma alloc_mid_ok:
  assumes r: "p2m_roles c r s" and t: "t < P2M_TOP_PER_PAGE c"
    and a: "alloc_p2m_mid c s t = Some (mid, s1)"
  shows "\<exists>r1. p2m_roles c r1 s1" "tree_kept c s s1"
    "mem s1 (p2m_top s1) t = mid" "mid \<noteq> p2m_mid_missing s1"
proof -
  have "(\<exists>r1. p2m_roles c r1 s1) \<and> tree_kept c s s1 \<and>
        mem s1 (p2m_top s1) t = mid \<and> mid \<noteq> p2m_mid_missing s1"
  proof (cases "mem s (p2m_top s) t = p2m_mid_missing s")
    case False
    with a have "mid = mem s (p2m_top s) t" "s1 = s"
      by (auto simp: mid_stage_present)
    with False r show ?thesis by (auto simp: tree_kept_refl)
  next
    case True
    show ?thesis
    proof (cases "free_pages s")
      case Nil
      with True a show ?thesis by (simp add: mid_stage_fail)
    next
      case (Cons p ps)
      from a have e: "mid = p"
        "s1 = s\<lparr>free_pages := ps,
                mem := store (fill_from p (p2m_missing s) (P2M_MID_PER_PAGE c) 0 (mem s))
                         (p2m_top s) t p\<rparr>"
        by (auto simp: mid_stage_alloc [OF r True Cons])
      show ?thesis
        unfolding e using mid_stage_explicit [OF r t True Cons] by blast
    qed
  qed
  then show "\<exists>r1. p2m_roles c r1 s1" "tree_kept c s s1"
    "mem s1 (p2m_top s1) t = mid" "mid \<noteq> p2m_mid_missing s1"
    by blast+
qed


lemma mirror_mid_stage:
  assumes r: "p2m_roles c r s" and t: "t < P2M_TOP_PER_PAGE c"
    and m: "mem s (p2m_top s) t = p2m_mid_missing s"
    and f: "free_pages s = p # ps"
    and mi: "mfn_mirror c s"
  shows "mfn_mirror c (s\<lparr>free_pages := ps,
                mem := store (fill_from p (p2m_missing s) (P2M_MID_PER_PAGE c) 0 (mem s))
                         (p2m_top s) t p\<rparr>)"
proof -
  let ?M = "store (fill_from p (p2m_missing s) (P2M_MID_PER_PAGE c) 0 (mem s)) (p2m_top s) t p"
  note pp = roles_pop [OF r f]
  note fp = fresh_page [OF r pp(2)]
  note gn = global_neq [OF r]
  have M: "?M a j = (if a = p2m_top s \<and> j = t then p
                    else if a = p \<and> j < P2M_MID_PER_PAGE c then p2m_missing s
                    else mem s a j)" for a j
    by (simp add: store_apply fill_from_apply)
  have a: "mem s (p2m_mid_missing_mfn s) i = virt_to_mfn c (p2m_missing s)"
    if "i < P2M_MID_PER_PAGE c" for i
    using mi that by (simp add: mfn_mirror_def)
  have b: "mem s (p2m_top_mfn s) t' = virt_to_mfn c (mem s (p2m_top_mfn_p s) t')"
    if "t' < P2M_TOP_PER_PAGE c" for t'
    using mi that by (simp add: mfn_mirror_def)
  have cc: "mem s (mem s (p2m_top_mfn_p s) t') m' =
            virt_to_mfn c (mem s (mem s (p2m_top s) t') m')"
    if "t' < P2M_TOP_PER_PAGE c" "m' < P2M_MID_PER_PAGE c" for t' m'
    using mi that by (simp add: mfn_mirror_def)
  have a': "?M (p2m_mid_missing_mfn s) i = virt_to_mfn c (p2m_missing s)"
    if "i < P2M_MID_PER_PAGE c" for i
    using that a gn(5) fp(3) by (simp add: M)
  have tp: "?M (p2m_top_mfn_p s) t' = mem s (p2m_top_mfn_p s) t'" for t'
    using gn(4) fp(6) by (simp add: M)
  have b': "?M (p2m_top_mfn s) t' = virt_to_mfn c (?M (p2m_top_mfn_p s) t')"
    if "t' < P2M_TOP_PER_PAGE c" for t'
    unfolding tp using that b gn(3) fp(5) by (simp add: M)
  have c': "?M (?M (p2m_top_mfn_p s) t') m' = virt_to_mfn c (?M (?M (p2m_top s) t') m')"
    if t': "t' < P2M_TOP_PER_PAGE c" and m': "m' < P2M_MID_PER_PAGE c" for t' m'
  proof -
    have l: "?M (?M (p2m_top_mfn_p s) t') m' = mem s (mem s (p2m_top_mfn_p s) t') m'"
      unfolding tp using mid_mfn_page_neq(1) [OF r t'] fp(9) [OF t'] by (simp add: M)
    show ?thesis
    proof (cases "t' = t")
      case True
      have "?M (?M (p2m_top s) t') m' = p2m_missing s"
        using True m' fp(4) by (simp add: M)
      moreover have "mem s (mem s (p2m_top s) t') m' = p2m_missing s"
        using True m p2m_rolesD(12) [OF r] m' by simp
      ultimately show ?thesis using l cc [OF t' m'] by simp
    next
      case False
      have "?M (?M (p2m_top s) t') m' = mem s (mem s (p2m_top s) t') m'"
        using False mid_page_neq(1) [OF r t'] fp(7) [OF t'] fp(4) by (simp add: M)
      then show ?thesis using l cc [OF t' m'] by simp
    qed
  qed
  show ?thesis
    unfolding mfn_mirror_def using a' b' c' by simp
qed


lemma alloc_mid_mirror:
  assumes r: "p2m_roles c r s" and t: "t < P2M_TOP_PER_PAGE c"
    and a: "alloc_p2m_mid c s t = Some (mid, s1)"
    and mi: "mfn_mirror c s"
  shows "mfn_mirror c s1"
proof (cases "mem s (p2m_top s) t = p2m_mid_missing s")
  case False
  with a have "s1 = s" by (auto simp: mid_stage_present)
  with mi show ?thesis by simp
next
  case True
  show ?thesis
  proof (cases "free_pages s")
    case Nil
    with True a show ?thesis by (simp add: mid_stage_fail)
  next
    case (Cons p ps)
    from a have e: "s1 = s\<lparr>free_pages := ps,
                mem := store (fill_from p (p2m_missing s) (P2M_MID_PER_PAGE c) 0 (mem s))
                         (p2m_top s) t p\<rparr>"
      by (auto simp: mid_stage_alloc [OF r True Cons])
    show ?thesis unfolding e by (rule mirror_mid_stage [OF r t True Cons mi])
  qed
qed

lemma mid_mfn_stage_present:
  "mid_mfn \<noteq> p2m_mid_missing_mfn s \<Longrightarrow>
   alloc_p2m_mid_mfn c s t mid_mfn = Some (mid_mfn, s)"
  by (simp add: alloc_p2m_mid_mfn_def)

lemma mid_mfn_stage_fail:
  "free_pages s = [] \<Longrightarrow> alloc_p2m_mid_mfn c s t (p2m_mid_missing_mfn s) = None"
  by (simp add: alloc_p2m_mid_mfn_def alloc_p2m_page_def)

lemma mid_mfn_stage_alloc:
  assumes r: "p2m_roles c r s"
    and f: "free_pages s = p # ps"
    and b: "virt_to_mfn c (p2m_mid_missing_mfn s) = mem s (p2m_top_mfn s) t"
  shows "alloc_p2m_mid_mfn c s t (p2m_mid_missing_mfn s) =
     Some (p, s\<lparr>free_pages := ps,
                mem := store (store (fill_from p (virt_to_mfn c (p2m_missing s))
                                       (P2M_MID_PER_PAGE c) 0 (mem s))
                                (p2m_top_mfn s) t (virt_to_mfn c p))
                         (p2m_top_mfn_p s) t p\<rparr>)"
proof -
  note pp = roles_pop [OF r f]
  note fp = fresh_page(5) [OF r pp(2)]
  show ?thesis
    using fp pp(3) b f
    by (simp add: alloc_p2m_mid_mfn_def alloc_p2m_page_def p2m_mid_mfn_init_def cmpxchg_def
        fill_from_apply Let_def)
qed

lemma mid_mfn_stage_explicit:
  assumes r: "p2m_roles c r s" and t: "t < P2M_TOP_PER_PAGE c"
    and f: "free_pages s = p # ps"
  defines "s2 \<equiv> s\<lparr>free_pages := ps,
                mem := store (store (fill_from p (virt_to_mfn c (p2m_missing s))
                                       (P2M_MID_PER_PAGE c) 0 (mem s))
                                (p2m_top_mfn s) t (virt_to_mfn c p))
                         (p2m_top_mfn_p s) t p\<rparr>"
  shows "p2m_roles c (r(p := R_mid_mfn t)) s2" "tree_kept c s s2"
    "mem s2 (p2m_top_mfn_p s2) t = p" "p \<noteq> p2m_mid_missing_mfn s2"
    "mem s2 (p2m_top s2) t' = mem s (p2m_top s) t'"
proof -
  let ?F = "fill_from p (virt_to_mfn c (p2m_missing s)) (P2M_MID_PER_PAGE c) 0 (mem s)"
  let ?G = "store ?F (p2m_top_mfn s) t (virt_to_mfn c p)"
  let ?sA = "s\<lparr>free_pages := ps\<rparr>"
  let ?sB = "?sA\<lparr>mem := ?F\<rparr>"
  let ?sC = "?sB\<lparr>mem := ?G\<rparr>"
  note pp = roles_pop [OF r f]
  note fp = fresh_page [OF r pp(2)]
  note gn = global_neq [OF r]
  note g = roles_globals [OF r]
  have F: "?F a j = mem ?sA a j" if "a \<noteq> p" for a j
    using that by (simp add: fill_from_apply)
  have G: "?G a j = mem ?sB a j" if "a \<noteq> p2m_top_mfn s" for a j
    using that by (simp add: store_apply)
  have rB: "p2m_roles c r ?sB"
    by (rule roles_frame [OF pp(1), where p = p]) (simp_all add: pp(2) F)
  have rC: "p2m_roles c r ?sC"
    by (rule roles_frame [OF rB, where p = "p2m_top_mfn s"]) (simp_all add: g G)
  have eq: "s2 = ?sC\<lparr>mem := store (mem ?sC) (p2m_top_mfn_p ?sC) t p\<rparr>"
    by (simp add: s2_def)
  have nf: "p \<notin> set (free_pages ?sC)" using pp(4) by simp
  show "p2m_roles c (r(p := R_mid_mfn t)) s2"
    unfolding eq by (rule claim_mid_mfn [OF rC pp(2) nf t])
  have k1: "tree_kept c s ?sA" by (rule tree_kept_pop)
  have k2: "tree_kept c ?sA ?sB"
    by (rule tree_kept_frame [OF pp(1), where q = p]) (simp_all add: pp(2) F)
  have k3: "tree_kept c ?sB ?sC"
    by (rule tree_kept_frame [OF rB, where q = "p2m_top_mfn s"]) (simp_all add: g G)
  have k4: "tree_kept c ?sC s2"
    unfolding eq
    by (rule tree_kept_frame [OF rC, where q = "p2m_top_mfn_p s"]) (simp_all add: g store_apply)
  show "tree_kept c s s2"
    by (rule tree_kept_trans [OF tree_kept_trans [OF tree_kept_trans [OF k1 k2] k3] k4])
  show "mem s2 (p2m_top_mfn_p s2) t = p" by (simp add: s2_def store_apply)
  show "p \<noteq> p2m_mid_missing_mfn s2"
    using fp(3) by (simp add: s2_def)
  show "mem s2 (p2m_top s2) t' = mem s (p2m_top s) t'"
    using fp(4) gn(3,4) by (simp add: s2_def store_apply fill_from_apply)
qed


lemma mfn_mirrorD:
  assumes "mfn_mirror c s"
  shows "\<And>i. i < P2M_MID_PER_PAGE c \<Longrightarrow>
           mem s (p2m_mid_missing_mfn s) i = virt_to_mfn c (p2m_missing s)"
    and "\<And>t. t < P2M_TOP_PER_PAGE c \<Longrightarrow>
           mem s (p2m_top_mfn s) t = virt_to_mfn c (mem s (p2m_top_mfn_p s) t)"
    and "\<And>t m. t < P2M_TOP_PER_PAGE c \<Longrightarrow> m < P2M_MID_PER_PAGE c \<Longrightarrow>
           mem s (mem s (p2m_top_mfn_p s) t) m = virt_to_mfn c (mem s (mem s (p2m_top s) t) m)"
  using assms unfolding mfn_mirror_def by blast+

lemma mirror_mid_mfn_stage:
  assumes r: "p2m_roles c r s" and t: "t < P2M_TOP_PER_PAGE c"
    and m: "mem s (p2m_top_mfn_p s) t = p2m_mid_missing_mfn s"
    and f: "free_pages s = p # ps"
    and mi: "mfn_mirror c s"
  shows "mfn_mirror c (s\<lparr>free_pages := ps,
                mem := store (store (fill_from p (virt_to_mfn c (p2m_missing s))
                                       (P2M_MID_PER_PAGE c) 0 (mem s))
                                (p2m_top_mfn s) t (virt_to_mfn c p))
                         (p2m_top_mfn_p s) t p\<rparr>)"
proof -
  let ?M = "store (store (fill_from p (virt_to_mfn c (p2m_missing s))
                                       (P2M_MID_PER_PAGE c) 0 (mem s))
                                (p2m_top_mfn s) t (virt_to_mfn c p))
                         (p2m_top_mfn_p s) t p"
  note pp = roles_pop [OF r f]
  note fp = fresh_page [OF r pp(2)]
  note gn = global_neq [OF r]
  note D = mfn_mirrorD [OF mi]
  have M: "?M a j = (if a = p2m_top_mfn_p s \<and> j = t then p
                    else if a = p2m_top_mfn s \<and> j = t then virt_to_mfn c p
                    else if a = p \<and> j < P2M_MID_PER_PAGE c then virt_to_mfn c (p2m_missing s)
                    else mem s a j)" for a j
    by (simp add: store_apply fill_from_apply)
  have a': "?M (p2m_mid_missing_mfn s) i = virt_to_mfn c (p2m_missing s)"
    if "i < P2M_MID_PER_PAGE c" for i
    using that D(1) gn(14,15) fp(3) by (simp add: M)
  have tp: "?M (p2m_top_mfn_p s) t' = (if t' = t then p else mem s (p2m_top_mfn_p s) t')" for t'
    using gn(13) fp(6) by (simp add: M)
  have tm: "?M (p2m_top_mfn s) t' =
              (if t' = t then virt_to_mfn c p else mem s (p2m_top_mfn s) t')" for t'
    using gn(13) fp(5) by (simp add: M)
  have b': "?M (p2m_top_mfn s) t' = virt_to_mfn c (?M (p2m_top_mfn_p s) t')"
    if "t' < P2M_TOP_PER_PAGE c" for t'
    unfolding tp tm using that D(2) by simp
  have tt: "?M (?M (p2m_top s) t') m' = mem s (mem s (p2m_top s) t') m'"
    if t': "t' < P2M_TOP_PER_PAGE c" and m': "m' < P2M_MID_PER_PAGE c" for t' m'
    using gn(3,4) fp(4) fp(7) [OF t'] mid_page_neq(2,3) [OF r t'] by (simp add: M)
  have c': "?M (?M (p2m_top_mfn_p s) t') m' = virt_to_mfn c (?M (?M (p2m_top s) t') m')"
    if t': "t' < P2M_TOP_PER_PAGE c" and m': "m' < P2M_MID_PER_PAGE c" for t' m'
  proof (cases "t' = t")
    case True
    have "?M (?M (p2m_top_mfn_p s) t') m' = virt_to_mfn c (p2m_missing s)"
      unfolding tp using True m' fp(5,6) by (simp add: M)
    moreover have "virt_to_mfn c (mem s (mem s (p2m_top s) t') m') = virt_to_mfn c (p2m_missing s)"
      using D(3) [OF t' m'] D(1) [OF m'] True m by simp
    ultimately show ?thesis unfolding tt [OF t' m'] by simp
  next
    case False
    have "?M (?M (p2m_top_mfn_p s) t') m' = mem s (mem s (p2m_top_mfn_p s) t') m'"
      unfolding tp using False fp(9) [OF t'] mid_mfn_page_neq(2,3) [OF r t'] by (simp add: M)
    then show ?thesis unfolding tt [OF t' m'] using D(3) [OF t' m'] by simp
  qed
  show ?thesis
    unfolding mfn_mirror_def using a' b' c' by simp
qed

lemma alloc_mid_mfn_ok:
  assumes r: "p2m_roles c r s" and t: "t < P2M_TOP_PER_PAGE c"
    and b: "virt_to_mfn c (mem s (p2m_top_mfn_p s) t) = mem s (p2m_top_mfn s) t"
    and a: "alloc_p2m_mid_mfn c s t (mem s (p2m_top_mfn_p s) t) = Some (mm, s2)"
  shows "\<exists>r2. p2m_roles c r2 s2" "tree_kept c s s2"
    "mem s2 (p2m_top_mfn_p s2) t = mm" "mm \<noteq> p2m_mid_missing_mfn s2"
    "\<And>t'. mem s2 (p2m_top s2) t' = mem s (p2m_top s) t'"
    "mfn_mirror c s \<Longrightarrow> mfn_mirror c s2"
proof -
  have "(\<exists>r2. p2m_roles c r2 s2) \<and> tree_kept c s s2 \<and>
        mem s2 (p2m_top_mfn_p s2) t = mm \<and> mm \<noteq> p2m_mid_missing_mfn s2 \<and>
        (\<forall>t'. mem s2 (p2m_top s2) t' = mem s (p2m_top s) t') \<and>
        (mfn_mirror c s \<longrightarrow> mfn_mirror c s2)"
  proof (cases "mem s (p2m_top_mfn_p s) t = p2m_mid_missing_mfn s")
    case False
    with a have "mm = mem s (p2m_top_mfn_p s) t" "s2 = s"
      by (auto simp: mid_mfn_stage_present)
    with False r show ?thesis by (auto simp: tree_kept_refl)
  next
    case True
    show ?thesis
    proof (cases "free_pages s")
      case Nil
      with True a show ?thesis by (simp add: mid_mfn_stage_fail)
    next
      case (Cons p ps)
      from b True have b': "virt_to_mfn c (p2m_mid_missing_mfn s) = mem s (p2m_top_mfn s) t"
        by simp
      from a True have e: "mm = p"
        "s2 = s\<lparr>free_pages := ps,
                mem := store (store (fill_from p (virt_to_mfn c (p2m_missing s))
                                       (P2M_MID_PER_PAGE c) 0 (mem s))
                                (p2m_top_mfn s) t (virt_to_mfn c p))
                         (p2m_top_mfn_p s) t p\<rparr>"
        by (auto simp: mid_mfn_stage_alloc [OF r Cons b'])
      show ?thesis
        unfolding e
        using mid_mfn_stage_explicit [OF r t Cons] mirror_mid_mfn_stage [OF r t True Cons]
        by blast
    qed
  qed
  then show "\<exists>r2. p2m_roles c r2 s2" "tree_kept c s s2"
    "mem s2 (p2m_top_mfn_p s2) t = mm" "mm \<noteq> p2m_mid_missing_mfn s2"
    "\<And>t'. mem s2 (p2m_top s2) t' = mem s (p2m_top s) t'"
    "mfn_mirror c s \<Longrightarrow> mfn_mirror c s2"
    by blast+
qed


lemma leaf_stage_present:
  "mem s (mem s (p2m_top s) t) m \<noteq> p2m_missing s \<Longrightarrow>
   alloc_p2m_leaf c s t m mid mm = Some s"
  by (simp add: alloc_p2m_leaf_def)

lemma leaf_stage_fail:
  "mem s (mem s (p2m_top s) t) m = p2m_missing s \<Longrightarrow> free_pages s = [] \<Longrightarrow>
   alloc_p2m_leaf c s t m mid mm = None"
  by (simp add: alloc_p2m_leaf_def alloc_p2m_page_def)

lemma leaf_stage_alloc:
  assumes r: "p2m_roles c r s" and t: "t < P2M_TOP_PER_PAGE c"
    and ms: "mem s (mem s (p2m_top s) t) m = p2m_missing s"
    and f: "free_pages s = p # ps"
  shows "alloc_p2m_leaf c s t m (mem s (p2m_top s) t) mm =
     Some (s\<lparr>free_pages := ps,
              mem := store (store (fill_from p INVALID_P2M_ENTRY (P2M_MID_PER_PAGE c) 0 (mem s))
                              (mem s (p2m_top s) t) m p)
                       mm m (virt_to_mfn c p)\<rparr>)"
proof -
  note pp = roles_pop [OF r f]
  note fp = fresh_page(7) [OF r pp(2) t]
  show ?thesis
    using fp pp(3) ms f
    by (simp add: alloc_p2m_leaf_def alloc_p2m_page_def p2m_init_def cmpxchg_def
        fill_from_apply Let_def)
qed

lemma leaf_stage_explicit:
  assumes r: "p2m_roles c r s" and t: "t < P2M_TOP_PER_PAGE c" and m: "m < P2M_MID_PER_PAGE c"
    and n: "mem s (p2m_top s) t \<noteq> p2m_mid_missing s"
    and ms: "mem s (mem s (p2m_top s) t) m = p2m_missing s"
    and nm: "mem s (p2m_top_mfn_p s) t \<noteq> p2m_mid_missing_mfn s"
    and f: "free_pages s = p # ps"
  defines "s3 \<equiv> s\<lparr>free_pages := ps,
              mem := store (store (fill_from p INVALID_P2M_ENTRY (P2M_MID_PER_PAGE c) 0 (mem s))
                              (mem s (p2m_top s) t) m p)
                       (mem s (p2m_top_mfn_p s) t) m (virt_to_mfn c p)\<rparr>"
  shows "p2m_roles c (r(p := R_leaf t m)) s3" "tree_kept c s s3"
    "mem s3 (mem s3 (p2m_top s3) t) m = p" "p \<noteq> p2m_missing s3"
proof -
  let ?mid = "mem s (p2m_top s) t"
  let ?mm = "mem s (p2m_top_mfn_p s) t"
  let ?F = "fill_from p INVALID_P2M_ENTRY (P2M_MID_PER_PAGE c) 0 (mem s)"
  let ?sA = "s\<lparr>free_pages := ps\<rparr>"
  let ?sB = "?sA\<lparr>mem := ?F\<rparr>"
  let ?sC = "?sB\<lparr>mem := store ?F ?mid m p\<rparr>"
  note pp = roles_pop [OF r f]
  note fp = fresh_page [OF r pp(2)]
  note gn = global_neq [OF r]
  note g = roles_globals [OF r]
  have rmm: "r ?mm = R_mid_mfn t" using roles_mid_mfn_slot [OF r t] nm by blast
  have mmp: "?mm \<noteq> p" by (rule fp(9) [OF t])
  have mmn: "?mm \<noteq> ?mid" by (rule mid_mfn_page_neq(6) [OF r t t])
  have F: "?F a j = mem ?sA a j" if "a \<noteq> p" for a j
    using that by (simp add: fill_from_apply)
  have rB: "p2m_roles c r ?sB"
    by (rule roles_frame [OF pp(1), where p = p]) (simp_all add: pp(2) F)
  have midB: "mem ?sB (p2m_top ?sB) t = ?mid"
    using fp(4) by (simp add: fill_from_apply)
  have eqC: "?sC = ?sB\<lparr>mem := store (mem ?sB) (mem ?sB (p2m_top ?sB) t) m p\<rparr>"
    unfolding midB by simp
  have nB: "mem ?sB (p2m_top ?sB) t \<noteq> p2m_mid_missing ?sB"
    unfolding midB using n by simp
  have msB: "mem ?sB (mem ?sB (p2m_top ?sB) t) m = p2m_missing ?sB"
    unfolding midB using ms fp(7) [OF t] by (simp add: fill_from_apply)
  have ct: "mem ?sB p j = INVALID_P2M_ENTRY" if "j < P2M_PER_PAGE c" for j
    using that by (simp add: fill_from_apply per_page_eq)
  have nf: "p \<notin> set (free_pages ?sB)" using pp(4) by simp
  have rC: "p2m_roles c (r(p := R_leaf t m)) ?sC"
    unfolding eqC by (rule claim_leaf [OF rB pp(2) nf t m nB])
  have eq: "s3 = ?sC\<lparr>mem := store (mem ?sC) ?mm m (virt_to_mfn c p)\<rparr>"
    by (simp add: s3_def)
  have rmm': "(r(p := R_leaf t m)) ?mm = R_mid_mfn t" using rmm mmp by simp
  show "p2m_roles c (r(p := R_leaf t m)) s3"
    unfolding eq
    by (rule roles_frame [OF rC, where p = ?mm]) (simp_all only: rmm' store_apply, simp_all)
  have k1: "tree_kept c s ?sA" by (rule tree_kept_pop)
  have k2: "tree_kept c ?sA ?sB"
    by (rule tree_kept_frame [OF pp(1), where q = p]) (simp_all add: pp(2) F)
  have k3: "tree_kept c ?sB ?sC"
    unfolding eqC by (rule tree_kept_claim_leaf [OF rB pp(2) t m nB msB ct])
  have k4: "tree_kept c ?sC s3"
    unfolding eq
    by (rule tree_kept_frame [OF rC, where q = ?mm]) (simp_all only: rmm' store_apply, simp_all)
  show "tree_kept c s s3"
    by (rule tree_kept_trans [OF tree_kept_trans [OF tree_kept_trans [OF k1 k2] k3] k4])
  have top3: "mem s3 (p2m_top s3) t = ?mid"
    using fp(4) mid_page_neq(1) [OF r t] mid_mfn_page_neq(1) [OF r t]
    by (simp add: s3_def store_apply fill_from_apply)
  show "mem s3 (mem s3 (p2m_top s3) t) m = p"
    unfolding top3 using mmn by (simp add: s3_def store_apply)
  show "p \<noteq> p2m_missing s3"
    using fp(1) by (simp add: s3_def)
qed


lemma mid_mfn_slot_inj:
  assumes r: "p2m_roles c r s" and t: "t < P2M_TOP_PER_PAGE c" "t' < P2M_TOP_PER_PAGE c"
    and n: "mem s (p2m_top_mfn_p s) t \<noteq> p2m_mid_missing_mfn s"
    and e: "mem s (p2m_top_mfn_p s) t' = mem s (p2m_top_mfn_p s) t"
  shows "t' = t"
proof -
  have a: "r (mem s (p2m_top_mfn_p s) t) = R_mid_mfn t"
    using roles_mid_mfn_slot [OF r t(1)] n by blast
  have "mem s (p2m_top_mfn_p s) t' \<noteq> p2m_mid_missing_mfn s"
    using n e by simp
  then have "r (mem s (p2m_top_mfn_p s) t') = R_mid_mfn t'"
    using roles_mid_mfn_slot [OF r t(2)] by blast
  then have "r (mem s (p2m_top_mfn_p s) t) = R_mid_mfn t'"
    by (simp only: e)
  then have "R_mid_mfn t' = R_mid_mfn t"
    by (simp only: a)
  then show ?thesis by simp
qed

lemma mirror_leaf_stage:
  assumes r: "p2m_roles c r s" and t: "t < P2M_TOP_PER_PAGE c" and m: "m < P2M_MID_PER_PAGE c"
    and n: "mem s (p2m_top s) t \<noteq> p2m_mid_missing s"
    and nm: "mem s (p2m_top_mfn_p s) t \<noteq> p2m_mid_missing_mfn s"
    and f: "free_pages s = p # ps"
    and mi: "mfn_mirror c s"
  shows "mfn_mirror c (s\<lparr>free_pages := ps,
              mem := store (store (fill_from p INVALID_P2M_ENTRY (P2M_MID_PER_PAGE c) 0 (mem s))
                              (mem s (p2m_top s) t) m p)
                       (mem s (p2m_top_mfn_p s) t) m (virt_to_mfn c p)\<rparr>)"
proof -
  let ?mid = "mem s (p2m_top s) t"
  let ?mm = "mem s (p2m_top_mfn_p s) t"
  let ?M = "store (store (fill_from p INVALID_P2M_ENTRY (P2M_MID_PER_PAGE c) 0 (mem s))
                              ?mid m p) ?mm m (virt_to_mfn c p)"
  note pp = roles_pop [OF r f]
  note fp = fresh_page [OF r pp(2)]
  note gn = global_neq [OF r]
  note D = mfn_mirrorD [OF mi]
  note mn = mid_page_neq [OF r t]
  note mmn = mid_mfn_page_neq [OF r t]
  have M: "?M a j = (if a = ?mm \<and> j = m then virt_to_mfn c p
                    else if a = ?mid \<and> j = m then p
                    else if a = p \<and> j < P2M_MID_PER_PAGE c then INVALID_P2M_ENTRY
                    else mem s a j)" for a j
    by (simp add: store_apply fill_from_apply)
  have keep: "?M a j = mem s a j" if "a \<noteq> ?mm" "a \<noteq> ?mid" "a \<noteq> p" for a j
    using that by (simp add: M)
  have a': "?M (p2m_mid_missing_mfn s) i = virt_to_mfn c (p2m_missing s)"
    if "i < P2M_MID_PER_PAGE c" for i
  proof -
    have "?M (p2m_mid_missing_mfn s) i = mem s (p2m_mid_missing_mfn s) i"
      using nm mn(5) fp(3) by (intro keep) auto
    then show ?thesis using D(1) [OF that] by simp
  qed
  have tp: "?M (p2m_top_mfn_p s) t' = mem s (p2m_top_mfn_p s) t'" for t'
    using mmn(3) mn(3) fp(6) by (intro keep) auto
  have tm: "?M (p2m_top_mfn s) t' = mem s (p2m_top_mfn s) t'" for t'
    using mmn(2) mn(2) fp(5) by (intro keep) auto
  have tt: "?M (p2m_top s) t' = mem s (p2m_top s) t'" for t'
    using mmn(1) mn(1) fp(4) by (intro keep) auto
  have b': "?M (p2m_top_mfn s) t' = virt_to_mfn c (?M (p2m_top_mfn_p s) t')"
    if "t' < P2M_TOP_PER_PAGE c" for t'
    unfolding tp tm using that D(2) by simp
  have c': "?M (?M (p2m_top_mfn_p s) t') m' = virt_to_mfn c (?M (?M (p2m_top s) t') m')"
    if t': "t' < P2M_TOP_PER_PAGE c" and m': "m' < P2M_MID_PER_PAGE c" for t' m'
  proof (cases "t' = t")
    case True
    have 1: "?M ?mm m' = (if m' = m then virt_to_mfn c p else mem s ?mm m')"
      using mmn(6) [OF t] fp(9) [OF t] by (simp add: M)
    have 2: "?M ?mid m' = (if m' = m then p else mem s ?mid m')"
      using mmn(6) [OF t] fp(7) [OF t] by (simp add: M)
    show ?thesis
      unfolding tp tt True 1 2 using D(3) [OF t m'] by simp
  next
    case False
    have x: "mem s (p2m_top_mfn_p s) t' \<noteq> ?mm"
      using mid_mfn_slot_inj [OF r t t' nm] False by blast
    have y: "mem s (p2m_top s) t' \<noteq> ?mid"
      using mid_slot_inj [OF r t t' n] False by blast
    have 1: "?M (mem s (p2m_top_mfn_p s) t') m' = mem s (mem s (p2m_top_mfn_p s) t') m'"
      using x mid_mfn_page_neq(6) [OF r t' t] fp(9) [OF t'] by (intro keep) auto
    have 2: "?M (mem s (p2m_top s) t') m' = mem s (mem s (p2m_top s) t') m'"
      using y mmn(6) [OF t'] fp(7) [OF t'] by (intro keep) auto
    show ?thesis
      unfolding tp tt 1 2 by (rule D(3) [OF t' m'])
  qed
  show ?thesis
    unfolding mfn_mirror_def using a' b' c' by simp
qed

lemma alloc_leaf_ok:
  assumes r: "p2m_roles c r s" and t: "t < P2M_TOP_PER_PAGE c" and m: "m < P2M_MID_PER_PAGE c"
    and n: "mem s (p2m_top s) t \<noteq> p2m_mid_missing s"
    and nm: "mem s (p2m_top_mfn_p s) t \<noteq> p2m_mid_missing_mfn s"
    and a: "alloc_p2m_leaf c s t m (mem s (p2m_top s) t) (mem s (p2m_top_mfn_p s) t) = Some s3"
  shows "\<exists>r3. p2m_roles c r3 s3" "tree_kept c s s3"
    "mem s3 (mem s3 (p2m_top s3) t) m \<noteq> p2m_missing s3"
    "mfn_mirror c s \<Longrightarrow> mfn_mirror c s3"
proof -
  have "(\<exists>r3. p2m_roles c r3 s3) \<and> tree_kept c s s3 \<and>
        mem s3 (mem s3 (p2m_top s3) t) m \<noteq> p2m_missing s3 \<and>
        (mfn_mirror c s \<longrightarrow> mfn_mirror c s3)"
  proof (cases "mem s (mem s (p2m_top s) t) m = p2m_missing s")
    case False
    with a have "s3 = s" by (auto simp: leaf_stage_present)
    with False r show ?thesis by (auto simp: tree_kept_refl)
  next
    case True
    show ?thesis
    proof (cases "free_pages s")
      case Nil
      with True a show ?thesis by (simp add: leaf_stage_fail)
    next
      case (Cons p ps)
      from a have e:
        "s3 = s\<lparr>free_pages := ps,
              mem := store (store (fill_from p INVALID_P2M_ENTRY (P2M_MID_PER_PAGE c) 0 (mem s))
                              (mem s (p2m_top s) t) m p)
                       (mem s (p2m_top_mfn_p s) t) m (virt_to_mfn c p)\<rparr>"
        by (auto simp: leaf_stage_alloc [OF r t True Cons])
      note x = leaf_stage_explicit [OF r t m n True nm Cons]
      have "mem s3 (mem s3 (p2m_top s3) t) m \<noteq> p2m_missing s3"
        unfolding e using x(3,4) by simp
      then show ?thesis
        using x(1,2) mirror_leaf_stage [OF r t m n nm Cons] unfolding e by blast
    qed
  qed
  then show "\<exists>r3. p2m_roles c r3 s3" "tree_kept c s s3"
    "mem s3 (mem s3 (p2m_top s3) t) m \<noteq> p2m_missing s3"
    "mfn_mirror c s \<Longrightarrow> mfn_mirror c s3"
    by blast+
qed


lemma tree_kept_globals:
  assumes "tree_kept c s s'"
  shows "p2m_missing s' = p2m_missing s" "p2m_mid_missing s' = p2m_mid_missing s"
    "p2m_mid_missing_mfn s' = p2m_mid_missing_mfn s" "p2m_top s' = p2m_top s"
    "p2m_top_mfn s' = p2m_top_mfn s" "p2m_top_mfn_p s' = p2m_top_mfn_p s"
    "auto_translated_physmap s' = auto_translated_physmap s"
    "xen_max_p2m_pfn s' = xen_max_p2m_pfn s"
  using assms by (simp_all add: tree_kept_def same_globals_def)

lemma tree_kept_get:
  "tree_kept c s s' \<Longrightarrow> get_phys_to_machine c s' pfn = get_phys_to_machine c s pfn"
  by (simp add: tree_kept_def)

lemma alloc_p2m_ok:
  assumes r: "p2m_roles c r s" and p: "pfn < MAX_P2M_PFN c"
    and a: "alloc_p2m c s pfn = Inr (b, s')"
  shows "\<exists>r'. p2m_roles c r' s'" "tree_kept c s s'"
    "b \<Longrightarrow> leaf_of c s' pfn \<noteq> p2m_missing s'"
    "mfn_mirror c s \<Longrightarrow> mfn_mirror c s'"
proof -
  let ?t = "pfn div (P2M_MID_PER_PAGE c * P2M_PER_PAGE c)"
  let ?m = "p2m_mid_index c pfn"
  have t: "?t < P2M_TOP_PER_PAGE c" by (rule top_index_less [OF p])
  have m: "?m < P2M_MID_PER_PAGE c" by (rule mid_index_less [OF p])
  have ti: "p2m_top_index c pfn = Inr ?t" by (rule top_index_Inr [OF p])
  have "(\<exists>r'. p2m_roles c r' s') \<and> tree_kept c s s' \<and>
        (b \<longrightarrow> leaf_of c s' pfn \<noteq> p2m_missing s') \<and>
        (mfn_mirror c s \<longrightarrow> mfn_mirror c s')"
  proof (cases "alloc_p2m_mid c s ?t")
    case None
    with a ti have "b = False" "s' = s" by (auto simp: alloc_p2m_def)
    with r show ?thesis by (auto simp: tree_kept_refl)
  next
    case (Some x)
    obtain mid s1 where x: "x = (mid, s1)" by (cases x)
    note a1 = Some [unfolded x]
    note s1 = alloc_mid_ok [OF r t a1]
    obtain r1 where r1: "p2m_roles c r1 s1" using s1(1) by blast
    have mi1: "mfn_mirror c s \<Longrightarrow> mfn_mirror c s1"
      by (rule alloc_mid_mirror [OF r t a1])
    let ?mm = "mem s1 (p2m_top_mfn_p s1) ?t"
    have b1: "virt_to_mfn c ?mm = mem s1 (p2m_top_mfn s1) ?t"
      using a ti a1 by (auto simp: alloc_p2m_def Let_def split: if_splits)
    have a': "(case alloc_p2m_mid_mfn c s1 ?t ?mm of
                 None \<Rightarrow> Inr (False, s1)
               | Some (mid_mfn, s2) \<Rightarrow>
                   (case alloc_p2m_leaf c s2 ?t ?m mid mid_mfn of
                      None \<Rightarrow> Inr (False, s2)
                    | Some s3 \<Rightarrow> Inr (True, s3))) = (Inr (b, s') :: error + (bool \<times> p2m_state))"
      using a ti a1 b1 by (simp add: alloc_p2m_def Let_def)
    show ?thesis
    proof (cases "alloc_p2m_mid_mfn c s1 ?t ?mm")
      case None
      with a' have "b = False" "s' = s1" by auto
      with s1 mi1 show ?thesis by auto
    next
      case (Some y)
      obtain mm s2 where y: "y = (mm, s2)" by (cases y)
      note a2 = Some [unfolded y]
      note s2 = alloc_mid_mfn_ok [OF r1 t b1 a2]
      obtain r2 where r2: "p2m_roles c r2 s2" using s2(1) by blast
      have k2: "tree_kept c s s2" by (rule tree_kept_trans [OF s1(2) s2(2)])
      have mid2: "mem s2 (p2m_top s2) ?t = mid"
        using s2(5) s1(3) by simp
      have n2: "mem s2 (p2m_top s2) ?t \<noteq> p2m_mid_missing s2"
        unfolding mid2 using s1(4) tree_kept_globals(2) [OF s2(2)] by simp
      have nm2: "mem s2 (p2m_top_mfn_p s2) ?t \<noteq> p2m_mid_missing_mfn s2"
        using s2(3,4) by simp
      have a'': "(case alloc_p2m_leaf c s2 ?t ?m (mem s2 (p2m_top s2) ?t)
                        (mem s2 (p2m_top_mfn_p s2) ?t) of
                      None \<Rightarrow> Inr (False, s2)
                    | Some s3 \<Rightarrow> Inr (True, s3)) = (Inr (b, s') :: error + (bool \<times> p2m_state))"
        using a' a2 mid2 s2(3) by simp
      show ?thesis
      proof (cases "alloc_p2m_leaf c s2 ?t ?m (mem s2 (p2m_top s2) ?t)
                        (mem s2 (p2m_top_mfn_p s2) ?t)")
        case None
        with a'' have "b = False" "s' = s2" by auto
        with r2 k2 mi1 s2(6) show ?thesis by auto
      next
        case (Some s3)
        with a'' have e: "b = True" "s' = s3" by auto
        note s3 = alloc_leaf_ok [OF r2 t m n2 nm2 Some]
        have "tree_kept c s s3" by (rule tree_kept_trans [OF k2 s3(2)])
        moreover have "leaf_of c s3 pfn \<noteq> p2m_missing s3"
          using s3(3) by (simp add: leaf_of_def mid_of_def)
        ultimately show ?thesis
          unfolding e using s3(1,4) s2(6) mi1 by blast
      qed
    qed
  qed
  then show "\<exists>r'. p2m_roles c r' s'" "tree_kept c s s'"
    "b \<Longrightarrow> leaf_of c s' pfn \<noteq> p2m_missing s'"
    "mfn_mirror c s \<Longrightarrow> mfn_mirror c s'"
    by blast+
qed



lemma alloc_mid_pages:
  assumes r: "p2m_roles c r s" and t: "t < P2M_TOP_PER_PAGE c"
    and a: "alloc_p2m_mid c s t = Some (mid, s1)"
  shows "\<And>t'. t' \<noteq> t \<Longrightarrow> mem s1 (p2m_top s1) t' = mem s (p2m_top s) t'"
    and "\<And>t'. mem s1 (p2m_top_mfn_p s1) t' = mem s (p2m_top_mfn_p s) t'"
proof -
  have "(\<forall>t'. t' \<noteq> t \<longrightarrow> mem s1 (p2m_top s1) t' = mem s (p2m_top s) t') \<and>
        (\<forall>t'. mem s1 (p2m_top_mfn_p s1) t' = mem s (p2m_top_mfn_p s) t')"
  proof (cases "mem s (p2m_top s) t = p2m_mid_missing s")
    case False
    with a have "s1 = s" by (auto simp: mid_stage_present)
    then show ?thesis by simp
  next
    case True
    show ?thesis
    proof (cases "free_pages s")
      case Nil
      with True a show ?thesis by (simp add: mid_stage_fail)
    next
      case (Cons p ps)
      from a have e: "s1 = s\<lparr>free_pages := ps,
                mem := store (fill_from p (p2m_missing s) (P2M_MID_PER_PAGE c) 0 (mem s))
                         (p2m_top s) t p\<rparr>"
        by (auto simp: mid_stage_alloc [OF r True Cons])
      note pp = roles_pop [OF r Cons]
      note fp = fresh_page [OF r pp(2)]
      note gn = global_neq [OF r]
      show ?thesis
        unfolding e using fp(4,6) gn(4) by (simp add: store_apply fill_from_apply)
    qed
  qed
  then show "\<And>t'. t' \<noteq> t \<Longrightarrow> mem s1 (p2m_top s1) t' = mem s (p2m_top s) t'"
    and "\<And>t'. mem s1 (p2m_top_mfn_p s1) t' = mem s (p2m_top_mfn_p s) t'"
    by blast+
qed

lemma alloc_mid_mfn_pages:
  assumes r: "p2m_roles c r s" and t: "t < P2M_TOP_PER_PAGE c"
    and b: "virt_to_mfn c (mem s (p2m_top_mfn_p s) t) = mem s (p2m_top_mfn s) t"
    and a: "alloc_p2m_mid_mfn c s t (mem s (p2m_top_mfn_p s) t) = Some (mm, s2)"
  shows "\<And>t'. t' \<noteq> t \<Longrightarrow> mem s2 (p2m_top_mfn_p s2) t' = mem s (p2m_top_mfn_p s) t'"
proof -
  have "\<forall>t'. t' \<noteq> t \<longrightarrow> mem s2 (p2m_top_mfn_p s2) t' = mem s (p2m_top_mfn_p s) t'"
  proof (cases "mem s (p2m_top_mfn_p s) t = p2m_mid_missing_mfn s")
    case False
    with a have "s2 = s" by (auto simp: mid_mfn_stage_present)
    then show ?thesis by simp
  next
    case True
    show ?thesis
    proof (cases "free_pages s")
      case Nil
      with True a show ?thesis by (simp add: mid_mfn_stage_fail)
    next
      case (Cons p ps)
      from b True have b': "virt_to_mfn c (p2m_mid_missing_mfn s) = mem s (p2m_top_mfn s) t"
        by simp
      from a True have e:
        "s2 = s\<lparr>free_pages := ps,
                mem := store (store (fill_from p (virt_to_mfn c (p2m_missing s))
                                       (P2M_MID_PER_PAGE c) 0 (mem s))
                                (p2m_top_mfn s) t (virt_to_mfn c p))
                         (p2m_top_mfn_p s) t p\<rparr>"
        by (auto simp: mid_mfn_stage_alloc [OF r Cons b'])
      note pp = roles_pop [OF r Cons]
      note fp = fresh_page [OF r pp(2)]
      note gn = global_neq [OF r]
      show ?thesis
        unfolding e using fp(6) gn(13) by (simp add: store_apply fill_from_apply)
    qed
  qed
  then show "\<And>t'. t' \<noteq> t \<Longrightarrow> mem s2 (p2m_top_mfn_p s2) t' = mem s (p2m_top_mfn_p s) t'"
    by blast
qed

lemma alloc_leaf_pages:
  assumes r: "p2m_roles c r s" and t: "t < P2M_TOP_PER_PAGE c" and m: "m < P2M_MID_PER_PAGE c"
    and a: "alloc_p2m_leaf c s t m (mem s (p2m_top s) t) (mem s (p2m_top_mfn_p s) t) = Some s3"
  shows "\<And>t'. mem s3 (p2m_top s3) t' = mem s (p2m_top s) t'"
    and "\<And>t'. mem s3 (p2m_top_mfn_p s3) t' = mem s (p2m_top_mfn_p s) t'"
proof -
  have "(\<forall>t'. mem s3 (p2m_top s3) t' = mem s (p2m_top s) t') \<and>
        (\<forall>t'. mem s3 (p2m_top_mfn_p s3) t' = mem s (p2m_top_mfn_p s) t')"
  proof (cases "mem s (mem s (p2m_top s) t) m = p2m_missing s")
    case False
    with a have "s3 = s" by (auto simp: leaf_stage_present)
    then show ?thesis by simp
  next
    case True
    show ?thesis
    proof (cases "free_pages s")
      case Nil
      with True a show ?thesis by (simp add: leaf_stage_fail)
    next
      case (Cons p ps)
      from a have e:
        "s3 = s\<lparr>free_pages := ps,
              mem := store (store (fill_from p INVALID_P2M_ENTRY (P2M_MID_PER_PAGE c) 0 (mem s))
                              (mem s (p2m_top s) t) m p)
                       (mem s (p2m_top_mfn_p s) t) m (virt_to_mfn c p)\<rparr>"
        by (auto simp: leaf_stage_alloc [OF r t True Cons])
      note pp = roles_pop [OF r Cons]
      note fp = fresh_page [OF r pp(2)]
      note mn = mid_page_neq [OF r t]
      note mmn = mid_mfn_page_neq [OF r t]
      show ?thesis
        unfolding e using fp(4,6) mn(1,3) mmn(1,3) by (simp add: store_apply fill_from_apply)
    qed
  qed
  then show "\<And>t'. mem s3 (p2m_top s3) t' = mem s (p2m_top s) t'"
    and "\<And>t'. mem s3 (p2m_top_mfn_p s3) t' = mem s (p2m_top_mfn_p s) t'"
    by blast+
qed

text \<open>
  What \<open>alloc_p2m\<close> does to the two top pages: the entries of the other top indices
  stay; the call either changes nothing or leaves a mid page at its own top index; and
  when it returns true the mid mfn page is there as well.
\<close>

lemma alloc_p2m_pages:
  assumes r: "p2m_roles c r s" and p: "pfn < MAX_P2M_PFN c"
    and a: "alloc_p2m c s pfn = Inr (b, s')"
  shows "\<And>t'. t' \<noteq> pfn div (P2M_MID_PER_PAGE c * P2M_PER_PAGE c) \<Longrightarrow>
           mem s' (p2m_top s') t' = mem s (p2m_top s) t' \<and>
           mem s' (p2m_top_mfn_p s') t' = mem s (p2m_top_mfn_p s) t'"
    and "s' = s \<or> mem s' (p2m_top s') (pfn div (P2M_MID_PER_PAGE c * P2M_PER_PAGE c)) \<noteq>
           p2m_mid_missing s'"
    and "b \<Longrightarrow> mem s' (p2m_top_mfn_p s') (pfn div (P2M_MID_PER_PAGE c * P2M_PER_PAGE c)) \<noteq>
           p2m_mid_missing_mfn s'"
    and "mem s (p2m_top_mfn_p s) (pfn div (P2M_MID_PER_PAGE c * P2M_PER_PAGE c)) \<noteq>
           p2m_mid_missing_mfn s \<Longrightarrow>
         mem s' (p2m_top_mfn_p s') (pfn div (P2M_MID_PER_PAGE c * P2M_PER_PAGE c)) \<noteq>
           p2m_mid_missing_mfn s'"
proof -
  let ?t = "pfn div (P2M_MID_PER_PAGE c * P2M_PER_PAGE c)"
  let ?m = "p2m_mid_index c pfn"
  have t: "?t < P2M_TOP_PER_PAGE c" by (rule top_index_less [OF p])
  have m: "?m < P2M_MID_PER_PAGE c" by (rule mid_index_less [OF p])
  have ti: "p2m_top_index c pfn = Inr ?t" by (rule top_index_Inr [OF p])
  have "(\<forall>t'. t' \<noteq> ?t \<longrightarrow>
           mem s' (p2m_top s') t' = mem s (p2m_top s) t' \<and>
           mem s' (p2m_top_mfn_p s') t' = mem s (p2m_top_mfn_p s) t') \<and>
        (s' = s \<or> mem s' (p2m_top s') ?t \<noteq> p2m_mid_missing s') \<and>
        (b \<longrightarrow> mem s' (p2m_top_mfn_p s') ?t \<noteq> p2m_mid_missing_mfn s') \<and>
        (mem s (p2m_top_mfn_p s) ?t \<noteq> p2m_mid_missing_mfn s \<longrightarrow>
           mem s' (p2m_top_mfn_p s') ?t \<noteq> p2m_mid_missing_mfn s')"
  proof (cases "alloc_p2m_mid c s ?t")
    case None
    with a ti have "b = False" "s' = s" by (auto simp: alloc_p2m_def)
    then show ?thesis by simp
  next
    case (Some x)
    obtain mid s1 where x: "x = (mid, s1)" by (cases x)
    note a1 = Some [unfolded x]
    note s1 = alloc_mid_ok [OF r t a1]
    note p1 = alloc_mid_pages [OF r t a1]
    note g1 = tree_kept_globals [OF s1(2)]
    obtain r1 where r1: "p2m_roles c r1 s1" using s1(1) by blast
    let ?mm = "mem s1 (p2m_top_mfn_p s1) ?t"
    have b1: "virt_to_mfn c ?mm = mem s1 (p2m_top_mfn s1) ?t"
      using a ti a1 by (auto simp: alloc_p2m_def Let_def split: if_splits)
    have a': "(case alloc_p2m_mid_mfn c s1 ?t ?mm of
                 None \<Rightarrow> Inr (False, s1)
               | Some (mid_mfn, s2) \<Rightarrow>
                   (case alloc_p2m_leaf c s2 ?t ?m mid mid_mfn of
                      None \<Rightarrow> Inr (False, s2)
                    | Some s3 \<Rightarrow> Inr (True, s3))) = (Inr (b, s') :: error + (bool \<times> p2m_state))"
      using a ti a1 b1 by (simp add: alloc_p2m_def Let_def)
    have n1: "mem s1 (p2m_top s1) ?t \<noteq> p2m_mid_missing s1" using s1(3,4) by simp
    show ?thesis
    proof (cases "alloc_p2m_mid_mfn c s1 ?t ?mm")
      case None
      with a' have e: "b = False" "s' = s1" by auto
      show ?thesis unfolding e using p1 n1 g1(3) by simp
    next
      case (Some y)
      obtain mm s2 where y: "y = (mm, s2)" by (cases y)
      note a2 = Some [unfolded y]
      note s2 = alloc_mid_mfn_ok [OF r1 t b1 a2]
      note p2 = alloc_mid_mfn_pages [OF r1 t b1 a2]
      note g2 = tree_kept_globals [OF s2(2)]
      obtain r2 where r2: "p2m_roles c r2 s2" using s2(1) by blast
      have mid2: "mem s2 (p2m_top s2) ?t = mid" using s2(5) s1(3) by simp
      have n2: "mem s2 (p2m_top s2) ?t \<noteq> p2m_mid_missing s2"
        unfolding mid2 using s1(4) g2(2) by simp
      have nm2: "mem s2 (p2m_top_mfn_p s2) ?t \<noteq> p2m_mid_missing_mfn s2"
        using s2(3,4) by simp
      have o2: "\<forall>t'. t' \<noteq> ?t \<longrightarrow>
           mem s2 (p2m_top s2) t' = mem s (p2m_top s) t' \<and>
           mem s2 (p2m_top_mfn_p s2) t' = mem s (p2m_top_mfn_p s) t'"
        using p1 p2 s2(5) by simp
      have a'': "(case alloc_p2m_leaf c s2 ?t ?m (mem s2 (p2m_top s2) ?t)
                        (mem s2 (p2m_top_mfn_p s2) ?t) of
                      None \<Rightarrow> Inr (False, s2)
                    | Some s3 \<Rightarrow> Inr (True, s3)) = (Inr (b, s') :: error + (bool \<times> p2m_state))"
        using a' a2 mid2 s2(3) by simp
      show ?thesis
      proof (cases "alloc_p2m_leaf c s2 ?t ?m (mem s2 (p2m_top s2) ?t)
                        (mem s2 (p2m_top_mfn_p s2) ?t)")
        case None
        with a'' have e: "b = False" "s' = s2" by auto
        show ?thesis unfolding e using o2 n2 nm2 by simp
      next
        case (Some s3)
        with a'' have e: "b = True" "s' = s3" by auto
        note s3 = alloc_leaf_ok [OF r2 t m n2 nm2 Some]
        note p3 = alloc_leaf_pages [OF r2 t m Some]
        note g3 = tree_kept_globals [OF s3(2)]
        show ?thesis unfolding e using o2 n2 nm2 p3 g3(2,3) by simp
      qed
    qed
  qed
  then show "\<And>t'. t' \<noteq> ?t \<Longrightarrow>
           mem s' (p2m_top s') t' = mem s (p2m_top s) t' \<and>
           mem s' (p2m_top_mfn_p s') t' = mem s (p2m_top_mfn_p s) t'"
    and "s' = s \<or> mem s' (p2m_top s') ?t \<noteq> p2m_mid_missing s'"
    and "b \<Longrightarrow> mem s' (p2m_top_mfn_p s') ?t \<noteq> p2m_mid_missing_mfn s'"
    and "mem s (p2m_top_mfn_p s) ?t \<noteq> p2m_mid_missing_mfn s \<Longrightarrow>
         mem s' (p2m_top_mfn_p s') ?t \<noteq> p2m_mid_missing_mfn s'"
    by blast+
qed

subsection \<open>\<open>set_phys_to_machine\<close>\<close>

lemma try_set_ok:
  assumes r: "p2m_roles c r s" and a: "try_set_phys_to_machine c s pfn mfn = Inr (b, s')"
  shows "p2m_roles c r s'" "same_globals s s'" "\<not> b \<Longrightarrow> s' = s"
    "b \<Longrightarrow> get_phys_to_machine c s' pfn = Inr mfn"
    "pfn' \<noteq> pfn \<Longrightarrow> get_phys_to_machine c s' pfn' = get_phys_to_machine c s pfn'"
    "\<not> b \<Longrightarrow> pfn < MAX_P2M_PFN c"
proof -
  have "p2m_roles c r s' \<and> same_globals s s' \<and> (\<not> b \<longrightarrow> s' = s) \<and>
        (b \<longrightarrow> get_phys_to_machine c s' pfn = Inr mfn) \<and>
        (pfn' \<noteq> pfn \<longrightarrow> get_phys_to_machine c s' pfn' = get_phys_to_machine c s pfn') \<and>
        (\<not> b \<longrightarrow> pfn < MAX_P2M_PFN c)"
  proof (cases "pfn < MAX_P2M_PFN c")
    case False
    then have "MAX_P2M_PFN c \<le> pfn" by simp
    with a have "mfn = INVALID_P2M_ENTRY" "b" "s' = s"
      by (auto simp: try_set_out_of_range split: if_splits)
    with r \<open>MAX_P2M_PFN c \<le> pfn\<close> show ?thesis
      by (simp add: same_globals_def get_out_of_range)
  next
    case True
    show ?thesis
    proof (cases "leaf_of c s pfn = p2m_missing s")
      case l: True
      with a True have e: "b = (mfn = INVALID_P2M_ENTRY)" "s' = s"
        by (auto simp: try_set_in_range)
      show ?thesis
        using r e True roles_missing_invalid [OF r True l] by (auto simp: same_globals_def)
    next
      case l: False
      with a True have e: "b"
        "s' = s\<lparr>mem := store (mem s) (leaf_of c s pfn) (p2m_index c pfn) mfn\<rparr>"
        by (auto simp: try_set_in_range)
      have 1: "p2m_roles c r s'" unfolding e by (rule roles_store_leaf [OF r True l])
      have 2: "get_phys_to_machine c s' pfn = Inr mfn"
        unfolding e using get_store_leaf [OF r True True l] by simp
      have 3: "get_phys_to_machine c s' pfn' = get_phys_to_machine c s pfn'" if "pfn' \<noteq> pfn"
      proof (cases "pfn' < MAX_P2M_PFN c")
        case p': True
        show ?thesis unfolding e using get_store_leaf [OF r True p' l] that by simp
      next
        case False
        then show ?thesis by (simp add: get_out_of_range)
      qed
      show ?thesis using 1 2 3 e True by (simp add: same_globals_def)
    qed
  qed
  then show "p2m_roles c r s'" "same_globals s s'" "\<not> b \<Longrightarrow> s' = s"
    "b \<Longrightarrow> get_phys_to_machine c s' pfn = Inr mfn"
    "pfn' \<noteq> pfn \<Longrightarrow> get_phys_to_machine c s' pfn' = get_phys_to_machine c s pfn'"
    "\<not> b \<Longrightarrow> pfn < MAX_P2M_PFN c"
    by blast+
qed

lemma same_globals_trans: "same_globals s s1 \<Longrightarrow> same_globals s1 s2 \<Longrightarrow> same_globals s s2"
  by (simp add: same_globals_def)

lemma tree_kept_same_globals: "tree_kept c s s' \<Longrightarrow> same_globals s s'"
  by (simp add: tree_kept_def)

lemma set_auto_translated:
  assumes "auto_translated_physmap s" and "set_phys_to_machine c s pfn mfn = Inr (b, s')"
  shows "b" "s' = s"
  using assms by (auto simp: set_phys_to_machine_def split: if_splits)

lemma set_unfold:
  "\<not> auto_translated_physmap s \<Longrightarrow>
   set_phys_to_machine c s pfn mfn =
     (case try_set_phys_to_machine c s pfn mfn of
          Inl e \<Rightarrow> Inl e
        | Inr (True, s1) \<Rightarrow> Inr (True, s1)
        | Inr (False, s1) \<Rightarrow>
            (case alloc_p2m c s1 pfn of
               Inl e \<Rightarrow> Inl e
             | Inr (False, s2) \<Rightarrow> Inr (False, s2)
             | Inr (True, s2) \<Rightarrow>
                 (case try_set_phys_to_machine c s2 pfn mfn of
                    Inl e \<Rightarrow> Inl e
                  | Inr (False, s3) \<Rightarrow> Inr (False, s3)
                  | Inr (True, s3) \<Rightarrow> Inr (True, s3))))"
  by (simp add: set_phys_to_machine_def)

lemma set_ok:
  assumes r: "p2m_roles c r s" and na: "\<not> auto_translated_physmap s"
    and a: "set_phys_to_machine c s pfn mfn = Inr (b, s')"
  shows "\<exists>r'. p2m_roles c r' s'" "same_globals s s'"
    "b \<Longrightarrow> get_phys_to_machine c s' pfn = Inr mfn"
    "pfn' \<noteq> pfn \<Longrightarrow> get_phys_to_machine c s' pfn' = get_phys_to_machine c s pfn'"
    "\<not> b \<Longrightarrow> tree_kept c s s'"
proof -
  note a' = a [unfolded set_unfold [OF na]]
  have "(\<exists>r'. p2m_roles c r' s') \<and> same_globals s s' \<and>
        (b \<longrightarrow> get_phys_to_machine c s' pfn = Inr mfn) \<and>
        (pfn' \<noteq> pfn \<longrightarrow> get_phys_to_machine c s' pfn' = get_phys_to_machine c s pfn') \<and>
        (\<not> b \<longrightarrow> tree_kept c s s')"
  proof (cases "try_set_phys_to_machine c s pfn mfn")
    case (Inl e)
    with a' show ?thesis by simp
  next
    case (Inr x)
    obtain b1 s1 where x: "x = (b1, s1)" by (cases x)
    note t1 = Inr [unfolded x]
    note o1 = try_set_ok [OF r t1]
    show ?thesis
    proof (cases b1)
      case True
      with a' t1 have e: "b" "s' = s1" by auto
      show ?thesis unfolding e using o1(1,2,4,5) True e by blast
    next
      case False
      then have s1: "s1 = s" and p: "pfn < MAX_P2M_PFN c" using o1(3,6) by auto
      show ?thesis
      proof (cases "alloc_p2m c s pfn")
        case (Inl e)
        with a' t1 False s1 show ?thesis by simp
      next
        case (Inr y)
        obtain b2 s2 where y: "y = (b2, s2)" by (cases y)
        note t2 = Inr [unfolded y]
        note o2 = alloc_p2m_ok [OF r p t2]
        obtain r2 where r2: "p2m_roles c r2 s2" using o2(1) by blast
        show ?thesis
        proof (cases b2)
          case b2: False
          with a' t1 False s1 t2 have e: "\<not> b" "s' = s2" by auto
          show ?thesis
            using e o2(1,2) tree_kept_same_globals [OF o2(2)] tree_kept_get [OF o2(2)]
            by auto
        next
          case b2: True
          show ?thesis
          proof (cases "try_set_phys_to_machine c s2 pfn mfn")
            case (Inl e)
            with a' t1 False s1 t2 b2 show ?thesis by simp
          next
            case (Inr z)
            obtain b3 s3 where z: "z = (b3, s3)" by (cases z)
            note t3 = Inr [unfolded z]
            note o3 = try_set_ok [OF r2 t3]
            from a' t1 False s1 t2 b2 t3 have e: "b = b3" "s' = s3"
              by (cases b3; simp)+
            have g: "same_globals s s3"
              by (rule same_globals_trans [OF tree_kept_same_globals [OF o2(2)] o3(2)])
            have 4: "get_phys_to_machine c s3 pfn' = get_phys_to_machine c s pfn'"
              if "pfn' \<noteq> pfn"
              using o3(5) [OF that] tree_kept_get [OF o2(2)] by simp
            have 5: "tree_kept c s s3" if "\<not> b3"
              using o3(3) [OF that] o2(2) by simp
            show ?thesis
              unfolding e using o3(1,4) g 4 5 by blast
          qed
        qed
      qed
    qed
  qed
  then show "\<exists>r'. p2m_roles c r' s'" "same_globals s s'"
    "b \<Longrightarrow> get_phys_to_machine c s' pfn = Inr mfn"
    "pfn' \<noteq> pfn \<Longrightarrow> get_phys_to_machine c s' pfn' = get_phys_to_machine c s pfn'"
    "\<not> b \<Longrightarrow> tree_kept c s s'"
    by blast+
qed

subsection \<open>Sequences of calls\<close>

lemma roles_flag [simp]:
  "p2m_roles c r (s\<lparr>auto_translated_physmap := f\<rparr>) = p2m_roles c r s"
  by (simp add: p2m_roles_def)

lemma set_allocated:
  assumes "\<not> auto_translated_physmap s" "pfn < MAX_P2M_PFN c" "leaf_of c s pfn \<noteq> p2m_missing s"
  shows "set_phys_to_machine c s pfn mfn =
           Inr (True, s\<lparr>mem := store (mem s) (leaf_of c s pfn) (p2m_index c pfn) mfn\<rparr>)"
  using assms by (simp add: set_unfold try_set_in_range)

lemma set_step:
  assumes w: "p2m_wf c s" and a: "set_phys_to_machine c s pfn mfn = Inr (b, s')"
  shows "p2m_wf c s'" "same_globals s s'"
    "pfn' \<noteq> pfn \<or> \<not> b \<Longrightarrow> get_phys_to_machine c s' pfn' = get_phys_to_machine c s pfn'"
proof -
  from w obtain r where r: "p2m_roles c r s" unfolding p2m_wf_def by blast
  have "p2m_wf c s' \<and> same_globals s s' \<and>
        (pfn' \<noteq> pfn \<or> \<not> b \<longrightarrow> get_phys_to_machine c s' pfn' = get_phys_to_machine c s pfn')"
  proof (cases "auto_translated_physmap s")
    case True
    from set_auto_translated(2) [OF True a] w show ?thesis
      by (simp add: same_globals_def)
  next
    case False
    note o = set_ok [OF r False a]
    have "get_phys_to_machine c s' pfn' = get_phys_to_machine c s pfn'" if "\<not> b"
      by (rule tree_kept_get [OF o(5) [OF that]])
    then show ?thesis
      using o(1,2,4) unfolding p2m_wf_def by blast
  qed
  then show "p2m_wf c s'" "same_globals s s'"
    "pfn' \<noteq> pfn \<or> \<not> b \<Longrightarrow> get_phys_to_machine c s' pfn' = get_phys_to_machine c s pfn'"
    by blast+
qed

lemma kept_inv:
  assumes "kept c pfn s s'" and "p2m_wf c s"
  shows "p2m_wf c s' \<and> same_globals s s' \<and>
         get_phys_to_machine c s' pfn = get_phys_to_machine c s pfn"
  using assms
proof (induction rule: kept.induct)
  case (kept_refl s)
  then show ?case by (simp add: same_globals_def)
next
  case (kept_step s s1 pfn' mfn' b s2)
  then have w1: "p2m_wf c s1" and g1: "same_globals s s1"
    and e1: "get_phys_to_machine c s1 pfn = get_phys_to_machine c s pfn"
    by blast+
  note o = set_step [OF w1 kept_step.hyps(2)]
  have "get_phys_to_machine c s2 pfn = get_phys_to_machine c s1 pfn"
    using o(3) [of pfn] kept_step.hyps(3) by blast
  then show ?case
    using o(1) same_globals_trans [OF g1 o(2)] e1 by simp
qed

lemma s0_set_2:
  "set_phys_to_machine cfg0 s0 2 5 =
     Inr (True, s0\<lparr>free_pages := [0x510, 0x520],
       mem := store (store (store (fill_from 0x500 INVALID_P2M_ENTRY 2 0 mem0)
                              0x40 1 0x500) 0x80 1 (0x500 + 4096)) 0x500 0 5\<rparr>)"
proof -
  have na: "\<not> auto_translated_physmap s0" by (simp add: s0_def)
  have f: "free_pages s0 = 0x500 # [0x510, 0x520]" by (simp add: s0_def)
  have t: "(0::nat) < P2M_TOP_PER_PAGE cfg0" by simp
  have l: "mem s0 (mem s0 (p2m_top s0) 0) 1 = p2m_missing s0"
    by (simp add: s0_def mem0_def)
  have 1: "try_set_phys_to_machine cfg0 s0 2 5 = Inr (False, s0)"
    by (simp add: try_set_in_range leaf_of_def mid_of_def p2m_mid_index_def s0_def mem0_def
        INVALID_P2M_ENTRY_def)
  have 2: "alloc_p2m_mid cfg0 s0 0 = Some (0x40, s0)"
    by (simp add: alloc_p2m_mid_def s0_def mem0_def)
  have 3: "alloc_p2m_mid_mfn cfg0 s0 0 (mem s0 (p2m_top_mfn_p s0) 0) = Some (0x80, s0)"
    by (simp add: alloc_p2m_mid_mfn_def s0_def mem0_def)
  have 4: "alloc_p2m_leaf cfg0 s0 0 1 0x40 0x80 =
     Some (s0\<lparr>free_pages := [0x510, 0x520],
       mem := store (store (fill_from 0x500 INVALID_P2M_ENTRY 2 0 mem0)
                              0x40 1 0x500) 0x80 1 (0x500 + 4096)\<rparr>)"
    using leaf_stage_alloc [OF roles0 t l f, of "0x80"]
    by (simp add: s0_def mem0_def)
  have 5: "alloc_p2m cfg0 s0 2 =
     Inr (True, s0\<lparr>free_pages := [0x510, 0x520],
       mem := store (store (fill_from 0x500 INVALID_P2M_ENTRY 2 0 mem0)
                              0x40 1 0x500) 0x80 1 (0x500 + 4096)\<rparr>)"
    using 2 3 4
    by (simp add: alloc_p2m_def p2m_top_index_def p2m_mid_index_def Let_def)
       (simp add: s0_def mem0_def)
  have 6: "try_set_phys_to_machine cfg0 (s0\<lparr>free_pages := [0x510, 0x520],
       mem := store (store (fill_from 0x500 INVALID_P2M_ENTRY 2 0 mem0)
                              0x40 1 0x500) 0x80 1 (0x500 + 4096)\<rparr>) 2 5 =
     Inr (True, s0\<lparr>free_pages := [0x510, 0x520],
       mem := store (store (store (fill_from 0x500 INVALID_P2M_ENTRY 2 0 mem0)
                              0x40 1 0x500) 0x80 1 (0x500 + 4096)) 0x500 0 5\<rparr>)"
    by (simp add: try_set_phys_to_machine_def p2m_top_index_def p2m_mid_index_def
        p2m_index_def Let_def store_apply fill_from_apply)
       (simp add: s0_def mem0_def INVALID_P2M_ENTRY_def)
  show ?thesis
    using 6 by (simp add: set_unfold [OF na] 1 5)
qed


lemma p2m_step_ok:
  assumes w: "p2m_wf c s" and a: "p2m_step c s x = Inr s'"
  shows "p2m_wf c s'" "same_globals s s'"
    "pfn \<notin> set_targets [x] \<Longrightarrow> get_phys_to_machine c s' pfn = get_phys_to_machine c s pfn"
proof -
  from w obtain r where r: "p2m_roles c r s" unfolding p2m_wf_def by blast
  have "p2m_wf c s' \<and> same_globals s s' \<and>
        (pfn \<notin> set_targets [x] \<longrightarrow>
           get_phys_to_machine c s' pfn = get_phys_to_machine c s pfn)"
  proof (cases x)
    case (Op_get q)
    with a have "s' = s" by (auto split: sum.splits)
    with w show ?thesis by (simp add: same_globals_def)
  next
    case (Op_try_set q mfn)
    with a obtain b where t: "try_set_phys_to_machine c s q mfn = Inr (b, s')"
      by (auto split: sum.splits)
    note o = try_set_ok [OF r t]
    show ?thesis
      using o(1,2) o(5) [of pfn] Op_try_set unfolding p2m_wf_def by auto
  next
    case (Op_set q mfn)
    with a obtain b where t: "set_phys_to_machine c s q mfn = Inr (b, s')"
      by (auto split: sum.splits)
    note o = set_step [OF w t]
    show ?thesis
      using o(1,2) o(3) [of pfn] Op_set by auto
  next
    case (Op_alloc q)
    with a obtain b where t: "alloc_p2m c s q = Inr (b, s')"
      by (auto split: sum.splits)
    have q: "q < MAX_P2M_PFN c"
    proof (rule ccontr)
      assume "\<not> q < MAX_P2M_PFN c"
      then have "alloc_p2m c s q = Inl BUG"
        by (simp add: alloc_p2m_def p2m_top_index_def)
      with t show False by simp
    qed
    note o = alloc_p2m_ok [OF r q t]
    show ?thesis
      using o(1) tree_kept_same_globals [OF o(2)] tree_kept_get [OF o(2)]
      unfolding p2m_wf_def by auto
  qed
  then show "p2m_wf c s'" "same_globals s s'"
    "pfn \<notin> set_targets [x] \<Longrightarrow> get_phys_to_machine c s' pfn = get_phys_to_machine c s pfn"
    by blast+
qed

lemma set_targets_Cons: "set_targets (x # xs) = set_targets [x] \<union> set_targets xs"
  by (cases x) simp_all

lemma p2m_run_ok:
  assumes "p2m_wf c s" and "p2m_run c s ops = Inr s'"
  shows "p2m_wf c s' \<and> same_globals s s' \<and>
         (\<forall>pfn. pfn \<notin> set_targets ops \<longrightarrow>
            get_phys_to_machine c s' pfn = get_phys_to_machine c s pfn)"
  using assms
proof (induction ops arbitrary: s)
  case Nil
  then show ?case by (simp add: same_globals_def)
next
  case (Cons x xs)
  from Cons.prems(2) obtain s1 where 1: "p2m_step c s x = Inr s1"
    and 2: "p2m_run c s1 xs = Inr s'"
    by (auto split: sum.splits)
  note o = p2m_step_ok [OF Cons.prems(1) 1]
  note ih = Cons.IH [OF o(1) 2]
  have "get_phys_to_machine c s' pfn = get_phys_to_machine c s pfn"
    if "pfn \<notin> set_targets (x # xs)" for pfn
  proof -
    from that have a: "pfn \<notin> set_targets [x]" and b: "pfn \<notin> set_targets xs"
      unfolding set_targets_Cons [of x xs] by auto
    show ?thesis using ih b o(3) [OF a] by simp
  qed
  then show ?case
    using ih same_globals_trans [OF o(2)] by blast
qed

lemma wf_placeholders:
  assumes "p2m_wf c s"
  shows "\<And>i. i < P2M_PER_PAGE c \<Longrightarrow> mem s (p2m_missing s) i = INVALID_P2M_ENTRY"
    and "\<And>i. i < P2M_MID_PER_PAGE c \<Longrightarrow> mem s (p2m_mid_missing s) i = p2m_missing s"
proof -
  from assms obtain r where r: "p2m_roles c r s" unfolding p2m_wf_def by blast
  show "\<And>i. i < P2M_PER_PAGE c \<Longrightarrow> mem s (p2m_missing s) i = INVALID_P2M_ENTRY"
    using p2m_rolesD(13) [OF r] by blast
  show "\<And>i. i < P2M_MID_PER_PAGE c \<Longrightarrow> mem s (p2m_mid_missing s) i = p2m_missing s"
    using p2m_rolesD(12) [OF r] by blast
qed

lemma s0_run:
  "p2m_run cfg0 s0 [Op_get 0, Op_set 2 5, Op_try_set 4 INVALID_P2M_ENTRY] =
     Inr (s0\<lparr>free_pages := [0x510, 0x520],
       mem := store (store (store (fill_from 0x500 INVALID_P2M_ENTRY 2 0 mem0)
                              0x40 1 0x500) 0x80 1 (0x500 + 4096)) 0x500 0 5\<rparr>)"
proof -
  have 1: "p2m_step cfg0 s0 (Op_get 0) = Inr s0"
    by (simp add: get_in_range)
  have 2: "p2m_step cfg0 s0 (Op_set 2 5) =
     Inr (s0\<lparr>free_pages := [0x510, 0x520],
       mem := store (store (store (fill_from 0x500 INVALID_P2M_ENTRY 2 0 mem0)
                              0x40 1 0x500) 0x80 1 (0x500 + 4096)) 0x500 0 5\<rparr>)"
    by (simp add: s0_set_2)
  have 3: "p2m_step cfg0 (s0\<lparr>free_pages := [0x510, 0x520],
       mem := store (store (store (fill_from 0x500 INVALID_P2M_ENTRY 2 0 mem0)
                              0x40 1 0x500) 0x80 1 (0x500 + 4096)) 0x500 0 5\<rparr>)
         (Op_try_set 4 INVALID_P2M_ENTRY) =
     Inr (s0\<lparr>free_pages := [0x510, 0x520],
       mem := store (store (store (fill_from 0x500 INVALID_P2M_ENTRY 2 0 mem0)
                              0x40 1 0x500) 0x80 1 (0x500 + 4096)) 0x500 0 5\<rparr>)"
    by (simp add: try_set_in_range leaf_of_def mid_of_def p2m_mid_index_def
        store_apply fill_from_apply)
       (simp add: s0_def mem0_def)
  show ?thesis
    using 1 2 3 by simp
qed




lemma shape_pages:
  assumes "\<And>t. t < P2M_TOP_PER_PAGE c \<Longrightarrow> mem s' (p2m_top s') t = mem s (p2m_top s) t"
    and "\<And>t. t < P2M_TOP_PER_PAGE c \<Longrightarrow>
           mem s' (p2m_top_mfn_p s') t = mem s (p2m_top_mfn_p s) t"
    and "p2m_mid_missing s' = p2m_mid_missing s"
    and "p2m_mid_missing_mfn s' = p2m_mid_missing_mfn s"
    and "mfn_shape c s"
  shows "mfn_shape c s'"
  using assms unfolding mfn_shape_def by simp

lemma try_set_pages:
  assumes r: "p2m_roles c r s" and a: "try_set_phys_to_machine c s pfn mfn = Inr (b, s')"
  shows "mem s' (p2m_top s') t' = mem s (p2m_top s) t'"
    and "mem s' (p2m_top_mfn_p s') t' = mem s (p2m_top_mfn_p s) t'"
proof -
  have "mem s' (p2m_top s') t' = mem s (p2m_top s) t' \<and>
        mem s' (p2m_top_mfn_p s') t' = mem s (p2m_top_mfn_p s) t'"
  proof (cases "pfn < MAX_P2M_PFN c")
    case False
    with a have "s' = s" by (auto simp: try_set_out_of_range split: if_splits)
    then show ?thesis by simp
  next
    case True
    show ?thesis
    proof (cases "leaf_of c s pfn = p2m_missing s")
      case l: True
      with a True have "s' = s" by (auto simp: try_set_in_range)
      then show ?thesis by simp
    next
      case l: False
      with a True have e:
        "s' = s\<lparr>mem := store (mem s) (leaf_of c s pfn) (p2m_index c pfn) mfn\<rparr>"
        by (auto simp: try_set_in_range)
      note n = leaf_page_neq [OF r top_index_less [OF True] mid_index_less [OF True]]
      show ?thesis
        unfolding e using n(1,3) by (simp add: store_apply leaf_of_def mid_of_def)
    qed
  qed
  then show "mem s' (p2m_top s') t' = mem s (p2m_top s) t'"
    and "mem s' (p2m_top_mfn_p s') t' = mem s (p2m_top_mfn_p s) t'"
    by blast+
qed

lemma try_set_shape:
  assumes r: "p2m_roles c r s" and a: "try_set_phys_to_machine c s pfn mfn = Inr (b, s')"
    and sh: "mfn_shape c s"
  shows "mfn_shape c s'"
proof -
  note o = try_set_ok [OF r a]
  from o(2) have g: "p2m_mid_missing s' = p2m_mid_missing s"
    "p2m_mid_missing_mfn s' = p2m_mid_missing_mfn s"
    by (simp_all add: same_globals_def)
  show ?thesis
    by (rule shape_pages [OF try_set_pages [OF r a] g sh])
qed

lemma alloc_p2m_shape:
  assumes r: "p2m_roles c r s" and p: "pfn < MAX_P2M_PFN c"
    and a: "alloc_p2m c s pfn = Inr (True, s')" and sh: "mfn_shape c s"
  shows "mfn_shape c s'"
proof -
  let ?t = "pfn div (P2M_MID_PER_PAGE c * P2M_PER_PAGE c)"
  note o = alloc_p2m_ok [OF r p a]
  note g = tree_kept_globals [OF o(2)]
  note pg = alloc_p2m_pages [OF r p a]
  have "(mem s' (p2m_top s') t = p2m_mid_missing s') =
        (mem s' (p2m_top_mfn_p s') t = p2m_mid_missing_mfn s')"
    if t: "t < P2M_TOP_PER_PAGE c" for t
  proof (cases "t = ?t")
    case True
    have 1: "mem s' (p2m_top_mfn_p s') ?t \<noteq> p2m_mid_missing_mfn s'" using pg(3) by simp
    have "mem s' (p2m_top s') ?t \<noteq> p2m_mid_missing s'"
    proof (cases "s' = s")
      case e: True
      from 1 sh top_index_less [OF p] show ?thesis unfolding e mfn_shape_def by blast
    next
      case False
      then show ?thesis using pg(2) by blast
    qed
    with 1 True show ?thesis by simp
  next
    case False
    from sh t have "(mem s (p2m_top s) t = p2m_mid_missing s) =
        (mem s (p2m_top_mfn_p s) t = p2m_mid_missing_mfn s)"
      unfolding mfn_shape_def by blast
    then show ?thesis using pg(1) [OF False] g(2,3) by simp
  qed
  then show ?thesis unfolding mfn_shape_def by blast
qed

lemma set_shape:
  assumes w: "p2m_wf c s" and a: "set_phys_to_machine c s pfn mfn = Inr (True, s')"
    and sh: "mfn_shape c s"
  shows "mfn_shape c s'"
proof (cases "auto_translated_physmap s")
  case True
  from set_auto_translated(2) [OF True a] sh show ?thesis by simp
next
  case na: False
  from w obtain r where r: "p2m_roles c r s" unfolding p2m_wf_def by blast
  note a' = a [unfolded set_unfold [OF na]]
  show ?thesis
  proof (cases "try_set_phys_to_machine c s pfn mfn")
    case (Inl e)
    with a' show ?thesis by simp
  next
    case (Inr x)
    obtain b1 s1 where x: "x = (b1, s1)" by (cases x)
    note t1 = Inr [unfolded x]
    note o1 = try_set_ok [OF r t1]
    show ?thesis
    proof (cases b1)
      case True
      with a' t1 have "s' = s1" by auto
      then show ?thesis using try_set_shape [OF r t1 sh] by simp
    next
      case False
      then have s1: "s1 = s" and p: "pfn < MAX_P2M_PFN c" using o1(3,6) by auto
      show ?thesis
      proof (cases "alloc_p2m c s pfn")
        case (Inl e)
        with a' t1 False s1 show ?thesis by simp
      next
        case (Inr y)
        obtain b2 s2 where y: "y = (b2, s2)" by (cases y)
        note t2 = Inr [unfolded y]
        show ?thesis
        proof (cases b2)
          case b2: False
          with a' t1 False s1 t2 show ?thesis by auto
        next
          case b2: True
          have t2': "alloc_p2m c s pfn = Inr (True, s2)" using t2 b2 by simp
          note o2 = alloc_p2m_ok [OF r p t2']
          obtain r2 where r2: "p2m_roles c r2 s2" using o2(1) by blast
          have sh2: "mfn_shape c s2" by (rule alloc_p2m_shape [OF r p t2' sh])
          show ?thesis
          proof (cases "try_set_phys_to_machine c s2 pfn mfn")
            case (Inl e)
            with a' t1 False s1 t2 b2 show ?thesis by simp
          next
            case (Inr z)
            obtain b3 s3 where z: "z = (b3, s3)" by (cases z)
            note t3 = Inr [unfolded z]
            from a' t1 False s1 t2 b2 t3 have e: "s' = s3"
              by (cases b3; simp)
            show ?thesis unfolding e by (rule try_set_shape [OF r2 t3 sh2])
          qed
        qed
      qed
    qed
  qed
qed

lemma set_seq_ok:
  assumes "p2m_wf c s" and "mfn_shape c s" and "set_seq c s xs = Inr (True, s')"
  shows "p2m_wf c s' \<and> mfn_shape c s' \<and> same_globals s s'"
  using assms
proof (induction xs arbitrary: s)
  case Nil
  then show ?case by (simp add: same_globals_def)
next
  case (Cons x xs)
  obtain pfn mfn where x: "x = (pfn, mfn)" by (cases x)
  from Cons.prems(3) obtain s1 where 1: "set_phys_to_machine c s pfn mfn = Inr (True, s1)"
    and 2: "set_seq c s1 xs = Inr (True, s')"
    unfolding x by (auto split: sum.splits prod.splits)
  note o = set_step [OF Cons.prems(1) 1]
  note sh = set_shape [OF Cons.prems(1) 1 Cons.prems(2)]
  from Cons.IH [OF o(1) sh 2] same_globals_trans [OF o(2)]
  show ?case by blast
qed


lemma roles_other_mfns [simp]:
  "p2m_roles (c\<lparr>virt_to_mfn := f\<rparr>) r s = p2m_roles c r s"
  by (simp add: p2m_roles_def P2M_PER_PAGE_def P2M_MID_PER_PAGE_def P2M_TOP_PER_PAGE_def)

lemma roles_max_pfn [simp]:
  "p2m_roles c r (s\<lparr>xen_max_p2m_pfn := n\<rparr>) = p2m_roles c r s"
  by (simp add: p2m_roles_def)

subsection \<open>\<open>xen_build_mfn_list_list\<close>\<close>

lemma step_missing:
  assumes r: "p2m_roles c r s" and t: "t < P2M_TOP_PER_PAGE c"
    and ms: "mem s (p2m_top s) t = p2m_mid_missing s"
  defines "s1 \<equiv> s\<lparr>mem := store (mem s) (p2m_top_mfn s) t
                            (virt_to_mfn c (p2m_mid_missing_mfn s))\<rparr>"
  shows "p2m_roles c r s1" "tree_kept c s s1" "mfn_shape c s \<Longrightarrow> mfn_shape c s1"
    "\<And>q. q div (P2M_MID_PER_PAGE c * P2M_PER_PAGE c) = t \<Longrightarrow> mirror_at c s1 q"
    "\<And>q. q < MAX_P2M_PFN c \<Longrightarrow> q div (P2M_MID_PER_PAGE c * P2M_PER_PAGE c) \<noteq> t \<Longrightarrow>
          mirror_at c s q \<Longrightarrow> mirror_at c s1 q"
proof -
  note g = roles_globals [OF r]
  note gn = global_neq [OF r]
  have keep: "mem s1 a j = mem s a j" if "a \<noteq> p2m_top_mfn s" for a j
    using that by (simp add: s1_def store_apply)
  have tm: "mem s1 (p2m_top_mfn s) t' =
              (if t' = t then virt_to_mfn c (p2m_mid_missing_mfn s) else mem s (p2m_top_mfn s) t')"
    for t'
    by (simp add: s1_def store_apply)
  have tp: "mem s1 (p2m_top s) t' = mem s (p2m_top s) t'" for t'
    using gn(3) by (intro keep) auto
  have tq: "mem s1 (p2m_top_mfn_p s) t' = mem s (p2m_top_mfn_p s) t'" for t'
    using gn(13) by (intro keep) auto
  have gl: "p2m_top s1 = p2m_top s" "p2m_top_mfn s1 = p2m_top_mfn s"
    "p2m_top_mfn_p s1 = p2m_top_mfn_p s" "p2m_mid_missing s1 = p2m_mid_missing s"
    "p2m_mid_missing_mfn s1 = p2m_mid_missing_mfn s"
    by (simp_all add: s1_def)
  show "p2m_roles c r s1"
    unfolding s1_def
    by (rule roles_frame [OF r, where p = "p2m_top_mfn s"]) (simp_all add: g store_apply)
  show "tree_kept c s s1"
    unfolding s1_def
    by (rule tree_kept_frame [OF r, where q = "p2m_top_mfn s"]) (simp_all add: g store_apply)
  show "mfn_shape c s1" if "mfn_shape c s"
    using that unfolding mfn_shape_def gl tp tq .
  show "mirror_at c s1 q" if "q div (P2M_MID_PER_PAGE c * P2M_PER_PAGE c) = t" for q
    unfolding mirror_at_def Let_def gl tp tq tm that using ms by simp
  show "mirror_at c s1 q"
    if q: "q < MAX_P2M_PFN c" and n: "q div (P2M_MID_PER_PAGE c * P2M_PER_PAGE c) \<noteq> t"
      and a: "mirror_at c s q" for q
  proof -
    let ?t = "q div (P2M_MID_PER_PAGE c * P2M_PER_PAGE c)"
    have t': "?t < P2M_TOP_PER_PAGE c" by (rule top_index_less [OF q])
    have 1: "mem s1 (mem s (p2m_top_mfn_p s) ?t) j = mem s (mem s (p2m_top_mfn_p s) ?t) j" for j
      using mid_mfn_page_neq(2) [OF r t'] by (intro keep) auto
    have 2: "mem s1 (mem s (p2m_top s) ?t) j = mem s (mem s (p2m_top s) ?t) j" for j
      using mid_page_neq(2) [OF r t'] by (intro keep) auto
    show ?thesis
      using a n unfolding mirror_at_def Let_def gl tp tq tm 1 2 by simp
  qed
qed

lemma step_alloc:
  assumes r: "p2m_roles c r s" and t: "t < P2M_TOP_PER_PAGE c" and m: "m < P2M_MID_PER_PAGE c"
    and n: "mem s (p2m_top s) t \<noteq> p2m_mid_missing s"
    and nm: "mem s (p2m_top_mfn_p s) t \<noteq> p2m_mid_missing_mfn s"
  defines "s1 \<equiv> s\<lparr>mem := store (store (mem s) (p2m_top_mfn s) t
                                    (virt_to_mfn c (mem s (p2m_top_mfn_p s) t)))
                            (mem s (p2m_top_mfn_p s) t) m
                            (virt_to_mfn c (mem s (mem s (p2m_top s) t) m))\<rparr>"
  shows "p2m_roles c r s1" "tree_kept c s s1" "mfn_shape c s \<Longrightarrow> mfn_shape c s1"
    "\<And>q. q div (P2M_MID_PER_PAGE c * P2M_PER_PAGE c) = t \<Longrightarrow> p2m_mid_index c q = m \<Longrightarrow>
          mirror_at c s1 q"
    "\<And>q. q < MAX_P2M_PFN c \<Longrightarrow>
          \<not> (q div (P2M_MID_PER_PAGE c * P2M_PER_PAGE c) = t \<and> p2m_mid_index c q = m) \<Longrightarrow>
          mirror_at c s q \<Longrightarrow> mirror_at c s1 q"
proof -
  let ?mm = "mem s (p2m_top_mfn_p s) t"
  let ?mid = "mem s (p2m_top s) t"
  note g = roles_globals [OF r]
  note gn = global_neq [OF r]
  note mn = mid_page_neq [OF r t]
  note mmn = mid_mfn_page_neq [OF r t]
  have rmm: "r ?mm = R_mid_mfn t" using roles_mid_mfn_slot [OF r t] nm by blast
  have keep: "mem s1 a j = mem s a j" if "a \<noteq> p2m_top_mfn s" "a \<noteq> ?mm" for a j
    using that by (simp add: s1_def store_apply)
  have tm: "mem s1 (p2m_top_mfn s) t' =
              (if t' = t then virt_to_mfn c ?mm else mem s (p2m_top_mfn s) t')" for t'
    using mmn(2) by (simp add: s1_def store_apply)
  have mme: "mem s1 ?mm m' =
              (if m' = m then virt_to_mfn c (mem s ?mid m) else mem s ?mm m')" for m'
    using mmn(2) by (simp add: s1_def store_apply)
  have tp: "mem s1 (p2m_top s) t' = mem s (p2m_top s) t'" for t'
    using gn(3) mmn(1) by (intro keep) auto
  have tq: "mem s1 (p2m_top_mfn_p s) t' = mem s (p2m_top_mfn_p s) t'" for t'
    using gn(13) mmn(3) by (intro keep) auto
  have md: "mem s1 (mem s (p2m_top s) t') j = mem s (mem s (p2m_top s) t') j"
    if "t' < P2M_TOP_PER_PAGE c" for t' j
    using mid_page_neq(2) [OF r that] mid_mfn_page_neq(6) [OF r t that] by (intro keep) auto
  have gl: "p2m_top s1 = p2m_top s" "p2m_top_mfn s1 = p2m_top_mfn s"
    "p2m_top_mfn_p s1 = p2m_top_mfn_p s" "p2m_mid_missing s1 = p2m_mid_missing s"
    "p2m_mid_missing_mfn s1 = p2m_mid_missing_mfn s"
    by (simp_all add: s1_def)
  let ?sA = "s\<lparr>mem := store (mem s) (p2m_top_mfn s) t (virt_to_mfn c ?mm)\<rparr>"
  have rA: "p2m_roles c r ?sA"
    by (rule roles_frame [OF r, where p = "p2m_top_mfn s"]) (simp_all add: g store_apply)
  have eq: "s1 = ?sA\<lparr>mem := store (mem ?sA) ?mm m (virt_to_mfn c (mem s ?mid m))\<rparr>"
    by (simp add: s1_def)
  show "p2m_roles c r s1"
    unfolding eq
    by (rule roles_frame [OF rA, where p = ?mm]) (simp_all add: rmm store_apply)
  have k1: "tree_kept c s ?sA"
    by (rule tree_kept_frame [OF r, where q = "p2m_top_mfn s"]) (simp_all add: g store_apply)
  have k2: "tree_kept c ?sA s1"
    unfolding eq
    by (rule tree_kept_frame [OF rA, where q = ?mm]) (simp_all add: rmm store_apply)
  show "tree_kept c s s1" by (rule tree_kept_trans [OF k1 k2])
  show "mfn_shape c s1" if "mfn_shape c s"
    using that unfolding mfn_shape_def gl tp tq .
  show "mirror_at c s1 q"
    if "q div (P2M_MID_PER_PAGE c * P2M_PER_PAGE c) = t" "p2m_mid_index c q = m" for q
    unfolding mirror_at_def Let_def gl tp tq tm that mme md [OF t] using n by simp
  show "mirror_at c s1 q"
    if q: "q < MAX_P2M_PFN c"
      and ne: "\<not> (q div (P2M_MID_PER_PAGE c * P2M_PER_PAGE c) = t \<and> p2m_mid_index c q = m)"
      and a: "mirror_at c s q" for q
  proof -
    let ?t = "q div (P2M_MID_PER_PAGE c * P2M_PER_PAGE c)"
    let ?m = "p2m_mid_index c q"
    have t': "?t < P2M_TOP_PER_PAGE c" by (rule top_index_less [OF q])
    show ?thesis
    proof (cases "?t = t")
      case True
      with ne have m': "?m \<noteq> m" by simp
      show ?thesis
        using a m' n unfolding mirror_at_def Let_def gl tp tq tm True mme md [OF t] by simp
    next
      case False
      show ?thesis
      proof (cases "mem s (p2m_top s) ?t = p2m_mid_missing s")
        case mt: True
        show ?thesis
          using a False mt unfolding mirror_at_def Let_def gl tp tq tm by simp
      next
        case mt: False
        have x: "mem s (p2m_top_mfn_p s) ?t \<noteq> ?mm"
          using mid_mfn_slot_inj [OF r t t' nm] False by blast
        have 1: "mem s1 (mem s (p2m_top_mfn_p s) ?t) j = mem s (mem s (p2m_top_mfn_p s) ?t) j"
          for j
          using mid_mfn_page_neq(2) [OF r t'] x by (intro keep) auto
        show ?thesis
          using a False mt unfolding mirror_at_def Let_def gl tp tq tm 1 md [OF t'] by simp
      qed
    qed
  qed
qed


lemma top_index_div:
  "x div (P2M_MID_PER_PAGE c * P2M_PER_PAGE c) = x div P2M_PER_PAGE c div P2M_MID_PER_PAGE c"
  by (subst mult.commute) (rule div_mult2_eq)

lemma block_same:
  assumes "P2M_PER_PAGE c dvd pfn" "pfn \<le> q" "q < pfn + P2M_PER_PAGE c"
  shows "q div (P2M_MID_PER_PAGE c * P2M_PER_PAGE c) =
           pfn div (P2M_MID_PER_PAGE c * P2M_PER_PAGE c)"
    and "p2m_mid_index c q = p2m_mid_index c pfn"
proof -
  from assms(1) obtain k where k: "pfn = P2M_PER_PAGE c * k" by (elim dvdE)
  have pos: "0 < P2M_PER_PAGE c" using assms(2,3) by simp
  have "q div P2M_PER_PAGE c = k"
  proof -
    have "k * P2M_PER_PAGE c \<le> q" using assms(2) k by (simp add: mult.commute)
    moreover have "q < Suc k * P2M_PER_PAGE c" using assms(3) k by (simp add: mult.commute)
    ultimately show ?thesis using pos
      by (metis div_nat_eqI mult.commute)
  qed
  moreover have "pfn div P2M_PER_PAGE c = k" using k pos by simp
  ultimately have e: "q div P2M_PER_PAGE c = pfn div P2M_PER_PAGE c" by simp
  show "q div (P2M_MID_PER_PAGE c * P2M_PER_PAGE c) =
           pfn div (P2M_MID_PER_PAGE c * P2M_PER_PAGE c)"
    unfolding top_index_div e ..
  show "p2m_mid_index c q = p2m_mid_index c pfn"
    unfolding p2m_mid_index_def e ..
qed

lemma block_start:
  assumes d: "P2M_PER_PAGE c dvd pfn" and z: "p2m_mid_index c pfn = 0"
    and pos: "0 < P2M_PER_PAGE c"
  shows "pfn = pfn div (P2M_MID_PER_PAGE c * P2M_PER_PAGE c) *
                 (P2M_MID_PER_PAGE c * P2M_PER_PAGE c)"
proof -
  have "P2M_MID_PER_PAGE c dvd pfn div P2M_PER_PAGE c"
    using z by (simp add: p2m_mid_index_def mod_eq_0_iff_dvd)
  then have "pfn div P2M_PER_PAGE c div P2M_MID_PER_PAGE c * P2M_MID_PER_PAGE c =
             pfn div P2M_PER_PAGE c"
    by simp
  moreover have "pfn div P2M_PER_PAGE c * P2M_PER_PAGE c = pfn"
    using d by simp
  ultimately show ?thesis
    unfolding top_index_div by (metis mult.assoc)
qed

lemma mid_block_same:
  assumes d: "P2M_PER_PAGE c dvd pfn" and z: "p2m_mid_index c pfn = 0"
    and q: "pfn \<le> q" "q < pfn + P2M_MID_PER_PAGE c * P2M_PER_PAGE c"
  shows "q div (P2M_MID_PER_PAGE c * P2M_PER_PAGE c) =
           pfn div (P2M_MID_PER_PAGE c * P2M_PER_PAGE c)"
proof -
  let ?N = "P2M_MID_PER_PAGE c * P2M_PER_PAGE c"
  have posN: "0 < ?N" using q by (cases "?N = 0") simp_all
  then have pos: "0 < P2M_PER_PAGE c" by simp
  note e = block_start [OF d z pos]
  have "pfn div ?N * ?N \<le> q" using q(1) e by simp
  moreover have "q < Suc (pfn div ?N) * ?N" using q(2) e by simp
  ultimately show ?thesis
    by (metis div_nat_eqI mult.commute)
qed

lemma before_block:
  assumes d: "P2M_PER_PAGE c dvd pfn" and q: "q < pfn"
  shows "\<not> (q div (P2M_MID_PER_PAGE c * P2M_PER_PAGE c) =
             pfn div (P2M_MID_PER_PAGE c * P2M_PER_PAGE c) \<and>
           p2m_mid_index c q = p2m_mid_index c pfn)"
proof
  assume a: "q div (P2M_MID_PER_PAGE c * P2M_PER_PAGE c) =
             pfn div (P2M_MID_PER_PAGE c * P2M_PER_PAGE c) \<and>
           p2m_mid_index c q = p2m_mid_index c pfn"
  have "q div P2M_PER_PAGE c =
        q div P2M_PER_PAGE c div P2M_MID_PER_PAGE c * P2M_MID_PER_PAGE c +
        q div P2M_PER_PAGE c mod P2M_MID_PER_PAGE c"
    by simp
  also have "\<dots> = pfn div P2M_PER_PAGE c div P2M_MID_PER_PAGE c * P2M_MID_PER_PAGE c +
        pfn div P2M_PER_PAGE c mod P2M_MID_PER_PAGE c"
    using a unfolding top_index_div p2m_mid_index_def by simp
  also have "\<dots> = pfn div P2M_PER_PAGE c" by simp
  finally have e: "q div P2M_PER_PAGE c = pfn div P2M_PER_PAGE c" .
  have "q div P2M_PER_PAGE c * P2M_PER_PAGE c \<le> q" by simp
  then have "pfn div P2M_PER_PAGE c * P2M_PER_PAGE c \<le> q" unfolding e .
  then have "pfn \<le> q" using d by simp
  with q show False by simp
qed

lemma before_mid_block:
  assumes d: "P2M_PER_PAGE c dvd pfn" and z: "p2m_mid_index c pfn = 0" and q: "q < pfn"
  shows "q div (P2M_MID_PER_PAGE c * P2M_PER_PAGE c) \<noteq>
           pfn div (P2M_MID_PER_PAGE c * P2M_PER_PAGE c)"
proof
  let ?N = "P2M_MID_PER_PAGE c * P2M_PER_PAGE c"
  assume a: "q div ?N = pfn div ?N"
  have pos: "0 < P2M_PER_PAGE c"
  proof (cases "P2M_PER_PAGE c = 0")
    case True
    with d q show ?thesis by simp
  qed simp
  note e = block_start [OF d z pos]
  have "q div ?N * ?N \<le> q" by simp
  then have "pfn \<le> q" unfolding a using e by simp
  with q show False by simp
qed

lemma next_block:
  assumes d: "P2M_PER_PAGE c dvd pfn" and pos: "0 < P2M_PER_PAGE c"
  shows "p2m_mid_index c (pfn + P2M_PER_PAGE c) = 0 \<or>
         (pfn + P2M_PER_PAGE c) div (P2M_MID_PER_PAGE c * P2M_PER_PAGE c) =
           pfn div (P2M_MID_PER_PAGE c * P2M_PER_PAGE c)"
proof -
  have e: "(pfn + P2M_PER_PAGE c) div P2M_PER_PAGE c = Suc (pfn div P2M_PER_PAGE c)"
    using div_add_self2 [of "P2M_PER_PAGE c" pfn] pos by simp
  show ?thesis
    unfolding top_index_div p2m_mid_index_def e
    by (simp add: div_Suc)
qed

lemma next_mid_block:
  assumes d: "P2M_PER_PAGE c dvd pfn" and z: "p2m_mid_index c pfn = 0"
    and pos: "0 < P2M_PER_PAGE c"
  shows "pfn + (P2M_MID_PER_PAGE c - 1) * P2M_PER_PAGE c + P2M_PER_PAGE c =
           pfn + P2M_MID_PER_PAGE c * P2M_PER_PAGE c"
    and "p2m_mid_index c (pfn + P2M_MID_PER_PAGE c * P2M_PER_PAGE c) = 0"
    and "P2M_PER_PAGE c dvd pfn + P2M_MID_PER_PAGE c * P2M_PER_PAGE c"
proof -
  have mp: "0 < P2M_MID_PER_PAGE c" using pos by (simp add: per_page_eq)
  show "pfn + (P2M_MID_PER_PAGE c - 1) * P2M_PER_PAGE c + P2M_PER_PAGE c =
           pfn + P2M_MID_PER_PAGE c * P2M_PER_PAGE c"
    using mp by (cases "P2M_MID_PER_PAGE c") simp_all
  have "(pfn + P2M_MID_PER_PAGE c * P2M_PER_PAGE c) div P2M_PER_PAGE c =
          pfn div P2M_PER_PAGE c + P2M_MID_PER_PAGE c"
    using pos by simp
  then show "p2m_mid_index c (pfn + P2M_MID_PER_PAGE c * P2M_PER_PAGE c) = 0"
    using z by (simp add: p2m_mid_index_def)
  show "P2M_PER_PAGE c dvd pfn + P2M_MID_PER_PAGE c * P2M_PER_PAGE c"
    using d by simp
qed


lemma loop_done:
  "\<not> pfn < xen_max_p2m_pfn s \<Longrightarrow> build_mfn_list_list_loop c pfn s = Inr s"
  by (subst build_mfn_list_list_loop.simps) simp

lemma loop_missing:
  assumes "pfn < xen_max_p2m_pfn s" "pfn < MAX_P2M_PFN c"
    and "mem s (p2m_top s) (pfn div (P2M_MID_PER_PAGE c * P2M_PER_PAGE c)) = p2m_mid_missing s"
    and "p2m_mid_index c pfn = 0"
    and "mem s (p2m_top_mfn_p s) (pfn div (P2M_MID_PER_PAGE c * P2M_PER_PAGE c)) =
           p2m_mid_missing_mfn s"
  shows "build_mfn_list_list_loop c pfn s =
           build_mfn_list_list_loop c
             (pfn + (P2M_MID_PER_PAGE c - 1) * P2M_PER_PAGE c + P2M_PER_PAGE c)
             (s\<lparr>mem := store (mem s) (p2m_top_mfn s)
                         (pfn div (P2M_MID_PER_PAGE c * P2M_PER_PAGE c))
                         (virt_to_mfn c (p2m_mid_missing_mfn s))\<rparr>)"
  using assms
  by (subst build_mfn_list_list_loop.simps) (simp add: top_index_Inr Let_def)

lemma loop_alloc:
  assumes "pfn < xen_max_p2m_pfn s" "pfn < MAX_P2M_PFN c"
    and "mem s (p2m_top s) (pfn div (P2M_MID_PER_PAGE c * P2M_PER_PAGE c)) \<noteq> p2m_mid_missing s"
    and "mem s (p2m_top_mfn_p s) (pfn div (P2M_MID_PER_PAGE c * P2M_PER_PAGE c)) \<noteq>
           p2m_mid_missing_mfn s"
    and "mem s (p2m_top s) (pfn div (P2M_MID_PER_PAGE c * P2M_PER_PAGE c)) \<noteq> p2m_top_mfn s"
  shows "build_mfn_list_list_loop c pfn s =
           build_mfn_list_list_loop c (pfn + P2M_PER_PAGE c)
             (s\<lparr>mem := store (store (mem s) (p2m_top_mfn s)
                   (pfn div (P2M_MID_PER_PAGE c * P2M_PER_PAGE c))
                   (virt_to_mfn c (mem s (p2m_top_mfn_p s)
                      (pfn div (P2M_MID_PER_PAGE c * P2M_PER_PAGE c)))))
                 (mem s (p2m_top_mfn_p s) (pfn div (P2M_MID_PER_PAGE c * P2M_PER_PAGE c)))
                 (p2m_mid_index c pfn)
                 (virt_to_mfn c (mem s (mem s (p2m_top s)
                      (pfn div (P2M_MID_PER_PAGE c * P2M_PER_PAGE c))) (p2m_mid_index c pfn)))\<rparr>)"
  using assms
  by (subst build_mfn_list_list_loop.simps) (simp add: top_index_Inr Let_def store_apply)

lemma loop_ok:
  assumes "p2m_roles c r s" and "mfn_shape c s" and "xen_max_p2m_pfn s \<le> MAX_P2M_PFN c"
    and "P2M_PER_PAGE c dvd pfn"
    and "mem s (p2m_top s) (pfn div (P2M_MID_PER_PAGE c * P2M_PER_PAGE c)) = p2m_mid_missing s
           \<longrightarrow> p2m_mid_index c pfn = 0"
  shows "\<exists>s'. build_mfn_list_list_loop c pfn s = Inr s' \<and> p2m_roles c r s' \<and>
           tree_kept c s s' \<and> mfn_shape c s' \<and>
           (\<forall>q. pfn \<le> q \<and> q < xen_max_p2m_pfn s \<longrightarrow> mirror_at c s' q) \<and>
           (\<forall>q < pfn. q < MAX_P2M_PFN c \<longrightarrow> mirror_at c s q \<longrightarrow> mirror_at c s' q)"
  using assms
proof (induction "xen_max_p2m_pfn s - pfn" arbitrary: pfn s rule: less_induct)
  case less
  note r = less.prems(1) and sh = less.prems(2) and mx = less.prems(3)
    and d = less.prems(4) and bs = less.prems(5)
  let ?t = "pfn div (P2M_MID_PER_PAGE c * P2M_PER_PAGE c)"
  let ?m = "p2m_mid_index c pfn"
  show ?case
  proof (cases "pfn < xen_max_p2m_pfn s")
    case False
    then have "\<forall>q. pfn \<le> q \<and> q < xen_max_p2m_pfn s \<longrightarrow> mirror_at c s q"
      by auto
    with False show ?thesis
      using r sh by (simp add: loop_done tree_kept_refl)
  next
    case True
    then have p: "pfn < MAX_P2M_PFN c" using mx by simp
    have pos: "0 < P2M_PER_PAGE c" by (rule per_page_pos [OF p])
    have t: "?t < P2M_TOP_PER_PAGE c" by (rule top_index_less [OF p])
    have m: "?m < P2M_MID_PER_PAGE c" by (rule mid_index_less [OF p])
    have she: "(mem s (p2m_top s) ?t = p2m_mid_missing s) =
               (mem s (p2m_top_mfn_p s) ?t = p2m_mid_missing_mfn s)"
      using sh t unfolding mfn_shape_def by blast
    show ?thesis
    proof (cases "mem s (p2m_top s) ?t = p2m_mid_missing s")
      case ms: True
      then have z: "?m = 0" using bs by simp
      have mm: "mem s (p2m_top_mfn_p s) ?t = p2m_mid_missing_mfn s" using she ms by simp
      let ?s1 = "s\<lparr>mem := store (mem s) (p2m_top_mfn s) ?t
                            (virt_to_mfn c (p2m_mid_missing_mfn s))\<rparr>"
      let ?p = "pfn + P2M_MID_PER_PAGE c * P2M_PER_PAGE c"
      note st = step_missing [OF r t ms]
      note nb = next_mid_block [OF d z pos]
      have e: "build_mfn_list_list_loop c pfn s = build_mfn_list_list_loop c ?p ?s1"
        using loop_missing [OF True p ms z mm] unfolding nb(1) .
      have mx1: "xen_max_p2m_pfn ?s1 = xen_max_p2m_pfn s" by simp
      have npos: "0 < P2M_MID_PER_PAGE c * P2M_PER_PAGE c"
        using pos by (simp add: per_page_eq)
      have lt0: "xen_max_p2m_pfn s - (pfn + n) < xen_max_p2m_pfn s - pfn" if "0 < n" for n
        using True that by arith
      have lt: "xen_max_p2m_pfn ?s1 - ?p < xen_max_p2m_pfn s - pfn"
        unfolding mx1 by (rule lt0 [OF npos])
      have mx1': "xen_max_p2m_pfn ?s1 \<le> MAX_P2M_PFN c" using mx by simp
      have bs1: "mem ?s1 (p2m_top ?s1) (?p div (P2M_MID_PER_PAGE c * P2M_PER_PAGE c)) =
                   p2m_mid_missing ?s1 \<longrightarrow> p2m_mid_index c ?p = 0"
        using nb(2) by simp
      from less.hyps [OF lt st(1) st(3) [OF sh] mx1' nb(3) bs1]
      obtain s' where s': "build_mfn_list_list_loop c ?p ?s1 = Inr s'" "p2m_roles c r s'"
        "tree_kept c ?s1 s'" "mfn_shape c s'"
        "\<And>q. ?p \<le> q \<Longrightarrow> q < xen_max_p2m_pfn s \<Longrightarrow> mirror_at c s' q"
        "\<And>q. q < ?p \<Longrightarrow> q < MAX_P2M_PFN c \<Longrightarrow> mirror_at c ?s1 q \<Longrightarrow> mirror_at c s' q"
        unfolding mx1 by blast
      have a: "mirror_at c s' q" if q: "pfn \<le> q" "q < xen_max_p2m_pfn s" for q
      proof (cases "q < ?p")
        case qp: True
        have "q div (P2M_MID_PER_PAGE c * P2M_PER_PAGE c) = ?t"
          by (rule mid_block_same [OF d z q(1) qp])
        then have "mirror_at c ?s1 q" by (rule st(4))
        moreover have "q < MAX_P2M_PFN c" using q(2) mx by simp
        ultimately show ?thesis using s'(6) [OF qp] by blast
      next
        case False
        then show ?thesis using s'(5) q(2) by simp
      qed
      have b: "mirror_at c s' q" if q: "q < pfn" "q < MAX_P2M_PFN c" "mirror_at c s q" for q
      proof -
        have "q div (P2M_MID_PER_PAGE c * P2M_PER_PAGE c) \<noteq> ?t"
          by (rule before_mid_block [OF d z q(1)])
        then have "mirror_at c ?s1 q" using st(5) [OF q(2) _ q(3)] by blast
        moreover have "q < ?p" using q(1) by simp
        ultimately show ?thesis using s'(6) q(2) by blast
      qed
      show ?thesis
        unfolding e using s'(1,2,4) tree_kept_trans [OF st(2) s'(3)] a b by blast
    next
      case ms: False
      have mm: "mem s (p2m_top_mfn_p s) ?t \<noteq> p2m_mid_missing_mfn s" using she ms by simp
      let ?s1 = "s\<lparr>mem := store (store (mem s) (p2m_top_mfn s) ?t
                                    (virt_to_mfn c (mem s (p2m_top_mfn_p s) ?t)))
                            (mem s (p2m_top_mfn_p s) ?t) ?m
                            (virt_to_mfn c (mem s (mem s (p2m_top s) ?t) ?m))\<rparr>"
      let ?p = "pfn + P2M_PER_PAGE c"
      note st = step_alloc [OF r t m ms mm]
      have e: "build_mfn_list_list_loop c pfn s = build_mfn_list_list_loop c ?p ?s1"
        by (rule loop_alloc [OF True p ms mm mid_page_neq(2) [OF r t]])
      have mx1: "xen_max_p2m_pfn ?s1 = xen_max_p2m_pfn s" by simp
      have lt: "xen_max_p2m_pfn ?s1 - ?p < xen_max_p2m_pfn s - pfn"
        using True pos by simp
      have mx1': "xen_max_p2m_pfn ?s1 \<le> MAX_P2M_PFN c" using mx by simp
      have d1: "P2M_PER_PAGE c dvd ?p" using d by simp
      have top1: "mem ?s1 (p2m_top ?s1) ?t = mem s (p2m_top s) ?t"
        using global_neq(3) [OF r] mid_mfn_page_neq(1) [OF r t] by (simp add: store_apply)
      have bs1: "mem ?s1 (p2m_top ?s1) (?p div (P2M_MID_PER_PAGE c * P2M_PER_PAGE c)) =
                   p2m_mid_missing ?s1 \<longrightarrow> p2m_mid_index c ?p = 0"
      proof (cases "p2m_mid_index c ?p = 0")
        case True
        then show ?thesis by simp
      next
        case False
        with next_block [OF d pos]
        have "?p div (P2M_MID_PER_PAGE c * P2M_PER_PAGE c) = ?t" by simp
        then show ?thesis using top1 ms by simp
      qed
      from less.hyps [OF lt st(1) st(3) [OF sh] mx1' d1 bs1]
      obtain s' where s': "build_mfn_list_list_loop c ?p ?s1 = Inr s'" "p2m_roles c r s'"
        "tree_kept c ?s1 s'" "mfn_shape c s'"
        "\<And>q. ?p \<le> q \<Longrightarrow> q < xen_max_p2m_pfn s \<Longrightarrow> mirror_at c s' q"
        "\<And>q. q < ?p \<Longrightarrow> q < MAX_P2M_PFN c \<Longrightarrow> mirror_at c ?s1 q \<Longrightarrow> mirror_at c s' q"
        unfolding mx1 by blast
      have a: "mirror_at c s' q" if q: "pfn \<le> q" "q < xen_max_p2m_pfn s" for q
      proof (cases "q < ?p")
        case qp: True
        note bl = block_same [OF d q(1) qp]
        have "mirror_at c ?s1 q" by (rule st(4) [OF bl])
        moreover have "q < MAX_P2M_PFN c" using q(2) mx by simp
        ultimately show ?thesis using s'(6) [OF qp] by blast
      next
        case False
        then show ?thesis using s'(5) q(2) by simp
      qed
      have b: "mirror_at c s' q" if q: "q < pfn" "q < MAX_P2M_PFN c" "mirror_at c s q" for q
      proof -
        have "mirror_at c ?s1 q"
          by (rule st(5) [OF q(2) before_block [OF d q(1)] q(3)])
        moreover have "q < ?p" using q(1) by simp
        ultimately show ?thesis using s'(6) q(2) by blast
      qed
      show ?thesis
        unfolding e using s'(1,2,4) tree_kept_trans [OF st(2) s'(3)] a b by blast
    qed
  qed
qed

lemma init_again:
  assumes r: "p2m_roles c r s" and n: "p2m_top_mfn s \<noteq> 0"
  defines "s1 \<equiv> s\<lparr>mem := fill_from (p2m_mid_missing_mfn s) (virt_to_mfn c (p2m_missing s))
                              (P2M_MID_PER_PAGE c) 0 (mem s)\<rparr>"
  shows "build_mfn_list_list_init c s = Inr s1" "p2m_roles c r s1" "tree_kept c s s1"
    "mfn_shape c s \<Longrightarrow> mfn_shape c s1"
proof -
  note g = roles_globals [OF r]
  note gn = global_neq [OF r]
  show "build_mfn_list_list_init c s = Inr s1"
    using n by (simp add: build_mfn_list_list_init_def p2m_mid_mfn_init_def s1_def)
  show "p2m_roles c r s1"
    unfolding s1_def
    by (rule roles_frame [OF r, where p = "p2m_mid_missing_mfn s"])
       (simp_all add: g fill_from_apply)
  show "tree_kept c s s1"
    unfolding s1_def
    by (rule tree_kept_frame [OF r, where q = "p2m_mid_missing_mfn s"])
       (simp_all add: g fill_from_apply)
  show "mfn_shape c s1" if "mfn_shape c s"
    using that gn(5,15) unfolding mfn_shape_def s1_def by (simp add: fill_from_apply)
qed

subsection \<open>Building the tree at boot\<close>

lemma tree_rolesD:
  assumes "tree_roles c r s"
  shows "r (p2m_missing s) = R_missing"
    and "r (p2m_mid_missing s) = R_mid_missing"
    and "r (p2m_top s) = R_top"
    and "\<And>t. t < P2M_TOP_PER_PAGE c \<Longrightarrow>
        mem s (p2m_top s) t = p2m_mid_missing s \<or> r (mem s (p2m_top s) t) = R_mid t"
    and "\<And>t m. t < P2M_TOP_PER_PAGE c \<Longrightarrow> m < P2M_MID_PER_PAGE c \<Longrightarrow>
        mem s (mem s (p2m_top s) t) m = p2m_missing s \<or>
        r (mem s (mem s (p2m_top s) t) m) = R_leaf t m"
    and "\<And>i. i < P2M_MID_PER_PAGE c \<Longrightarrow> mem s (p2m_mid_missing s) i = p2m_missing s"
    and "\<And>i. i < P2M_PER_PAGE c \<Longrightarrow> mem s (p2m_missing s) i = INVALID_P2M_ENTRY"
  using assms unfolding tree_roles_def by blast+

lemma tree_rolesI:
  assumes "r (p2m_missing s) = R_missing"
    and "r (p2m_mid_missing s) = R_mid_missing"
    and "r (p2m_top s) = R_top"
    and "\<And>t. t < P2M_TOP_PER_PAGE c \<Longrightarrow>
        mem s (p2m_top s) t \<noteq> p2m_mid_missing s \<Longrightarrow> r (mem s (p2m_top s) t) = R_mid t"
    and "\<And>t m. t < P2M_TOP_PER_PAGE c \<Longrightarrow> m < P2M_MID_PER_PAGE c \<Longrightarrow>
        mem s (mem s (p2m_top s) t) m \<noteq> p2m_missing s \<Longrightarrow>
        r (mem s (mem s (p2m_top s) t) m) = R_leaf t m"
    and "\<And>i. i < P2M_MID_PER_PAGE c \<Longrightarrow> mem s (p2m_mid_missing s) i = p2m_missing s"
    and "\<And>i. i < P2M_PER_PAGE c \<Longrightarrow> mem s (p2m_missing s) i = INVALID_P2M_ENTRY"
  shows "tree_roles c r s"
  unfolding tree_roles_def using assms by blast

lemma roles_tree: "p2m_roles c r s \<Longrightarrow> tree_roles c r s"
  unfolding p2m_roles_def tree_roles_def by blast

lemma off_treeD:
  assumes "off_tree c s q"
  shows "q \<noteq> p2m_top s" "q \<noteq> p2m_mid_missing s" "q \<noteq> p2m_missing s"
    and "\<And>t. t < P2M_TOP_PER_PAGE c \<Longrightarrow> q \<noteq> mem s (p2m_top s) t"
    and "\<And>t m. t < P2M_TOP_PER_PAGE c \<Longrightarrow> m < P2M_MID_PER_PAGE c \<Longrightarrow>
           q \<noteq> mem s (mem s (p2m_top s) t) m"
  using assms unfolding off_tree_def by blast+

text \<open>The role of the mid page and of the leaf of a slot.\<close>

lemma tree_mid_role:
  assumes r: "tree_roles c r s" and t: "t < P2M_TOP_PER_PAGE c"
  shows "r (mem s (p2m_top s) t) = R_mid_missing \<or> r (mem s (p2m_top s) t) = R_mid t"
  using tree_rolesD(4) [OF r t] tree_rolesD(2) [OF r] by auto

lemma tree_leaf_role:
  assumes r: "tree_roles c r s" and t: "t < P2M_TOP_PER_PAGE c" and m: "m < P2M_MID_PER_PAGE c"
  shows "r (mem s (mem s (p2m_top s) t) m) = R_missing \<or>
         r (mem s (mem s (p2m_top s) t) m) = R_leaf t m"
  using tree_rolesD(5) [OF r t m] tree_rolesD(1) [OF r] by auto

lemma off_tree_free:
  assumes r: "tree_roles c r s" and q: "r q = R_free"
  shows "off_tree c s q"
  unfolding off_tree_def
proof (intro conjI allI impI)
  show "q \<noteq> p2m_top s" "q \<noteq> p2m_mid_missing s" "q \<noteq> p2m_missing s"
    using tree_rolesD(1-3) [OF r] q by auto
  fix t assume t: "t < P2M_TOP_PER_PAGE c"
  show "q \<noteq> mem s (p2m_top s) t" using tree_mid_role [OF r t] q by auto
  fix m assume m: "m < P2M_MID_PER_PAGE c"
  show "q \<noteq> mem s (mem s (p2m_top s) t) m" using tree_leaf_role [OF r t m] q by auto
qed

lemma off_tree_leaf:
  assumes r: "tree_roles c r s" and q: "r q = R_leaf t m"
    and ms: "mem s (mem s (p2m_top s) t) m = p2m_missing s"
  shows "off_tree c s q"
  unfolding off_tree_def
proof (intro conjI allI impI)
  show "q \<noteq> p2m_top s" "q \<noteq> p2m_mid_missing s" "q \<noteq> p2m_missing s"
    using tree_rolesD(1-3) [OF r] q by auto
  fix t' assume t: "t' < P2M_TOP_PER_PAGE c"
  show "q \<noteq> mem s (p2m_top s) t'" using tree_mid_role [OF r t] q by auto
  fix m' assume m: "m' < P2M_MID_PER_PAGE c"
  show "q \<noteq> mem s (mem s (p2m_top s) t') m'"
  proof
    assume e: "q = mem s (mem s (p2m_top s) t') m'"
    from tree_rolesD(5) [OF r t m]
    show False
    proof
      assume "mem s (mem s (p2m_top s) t') m' = p2m_missing s"
      with e q tree_rolesD(1) [OF r] show False by simp
    next
      assume a: "r (mem s (mem s (p2m_top s) t') m') = R_leaf t' m'"
      with e q have "t' = t" "m' = m" by simp_all
      with e ms q tree_rolesD(1) [OF r] show False by simp
    qed
  qed
qed

text \<open>A write into a page that is no page of the tree.\<close>

lemma off_tree_frame:
  assumes q: "off_tree c s q" and m': "\<forall>a j. a \<noteq> q \<longrightarrow> m' a j = mem s a j"
  shows "\<And>t. m' (p2m_top s) t = mem s (p2m_top s) t"
    and "\<And>t j. t < P2M_TOP_PER_PAGE c \<Longrightarrow>
           m' (mem s (p2m_top s) t) j = mem s (mem s (p2m_top s) t) j"
    and "\<And>t m j. t < P2M_TOP_PER_PAGE c \<Longrightarrow> m < P2M_MID_PER_PAGE c \<Longrightarrow>
           m' (mem s (mem s (p2m_top s) t) m) j = mem s (mem s (mem s (p2m_top s) t) m) j"
    and "\<And>j. m' (p2m_mid_missing s) j = mem s (p2m_mid_missing s) j"
    and "\<And>j. m' (p2m_missing s) j = mem s (p2m_missing s) j"
proof -
  note d = off_treeD [OF q]
  have m': "m' a j = mem s a j" if "a \<noteq> q" for a j
    using m' that by blast
  show "\<And>t. m' (p2m_top s) t = mem s (p2m_top s) t"
    using d(1) by (intro m') auto
  show "\<And>t j. t < P2M_TOP_PER_PAGE c \<Longrightarrow>
           m' (mem s (p2m_top s) t) j = mem s (mem s (p2m_top s) t) j"
    using d(4) by (intro m') auto
  show "\<And>t m j. t < P2M_TOP_PER_PAGE c \<Longrightarrow> m < P2M_MID_PER_PAGE c \<Longrightarrow>
           m' (mem s (mem s (p2m_top s) t) m) j = mem s (mem s (mem s (p2m_top s) t) m) j"
    using d(5) by (intro m') auto
  show "\<And>j. m' (p2m_mid_missing s) j = mem s (p2m_mid_missing s) j"
    using d(2) by (intro m') auto
  show "\<And>j. m' (p2m_missing s) j = mem s (p2m_missing s) j"
    using d(3) by (intro m') auto
qed

lemma tree_frame:
  assumes r: "tree_roles c r s" and q: "off_tree c s q"
    and m': "\<forall>a j. a \<noteq> q \<longrightarrow> m' a j = mem s a j"
  shows "tree_roles c r (s\<lparr>mem := m'\<rparr>)"
proof -
  note f = off_tree_frame [OF q m']
  note D = tree_rolesD [OF r]
  show ?thesis
  proof (rule tree_rolesI)
    show "r (p2m_missing (s\<lparr>mem := m'\<rparr>)) = R_missing"
      "r (p2m_mid_missing (s\<lparr>mem := m'\<rparr>)) = R_mid_missing"
      "r (p2m_top (s\<lparr>mem := m'\<rparr>)) = R_top"
      using D(1-3) by simp_all
  next
    fix t assume t: "t < P2M_TOP_PER_PAGE c"
    assume "mem (s\<lparr>mem := m'\<rparr>) (p2m_top (s\<lparr>mem := m'\<rparr>)) t \<noteq> p2m_mid_missing (s\<lparr>mem := m'\<rparr>)"
    then show "r (mem (s\<lparr>mem := m'\<rparr>) (p2m_top (s\<lparr>mem := m'\<rparr>)) t) = R_mid t"
      using D(4) [OF t] by (simp add: f(1))
  next
    fix t m assume t: "t < P2M_TOP_PER_PAGE c" and m: "m < P2M_MID_PER_PAGE c"
    assume "mem (s\<lparr>mem := m'\<rparr>) (mem (s\<lparr>mem := m'\<rparr>) (p2m_top (s\<lparr>mem := m'\<rparr>)) t) m \<noteq>
            p2m_missing (s\<lparr>mem := m'\<rparr>)"
    then show "r (mem (s\<lparr>mem := m'\<rparr>) (mem (s\<lparr>mem := m'\<rparr>) (p2m_top (s\<lparr>mem := m'\<rparr>)) t) m) =
            R_leaf t m"
      using D(5) [OF t m] by (simp add: f(1) f(2) [OF t])
  next
    fix i assume "i < P2M_MID_PER_PAGE c"
    then show "mem (s\<lparr>mem := m'\<rparr>) (p2m_mid_missing (s\<lparr>mem := m'\<rparr>)) i =
               p2m_missing (s\<lparr>mem := m'\<rparr>)"
      using D(6) by (simp add: f(4))
  next
    fix i assume "i < P2M_PER_PAGE c"
    then show "mem (s\<lparr>mem := m'\<rparr>) (p2m_missing (s\<lparr>mem := m'\<rparr>)) i = INVALID_P2M_ENTRY"
      using D(7) by (simp add: f(5))
  qed
qed

lemma lookup_off_tree:
  assumes q: "off_tree c s q" and m': "\<forall>a j. a \<noteq> q \<longrightarrow> m' a j = mem s a j"
    and p: "pfn < MAX_P2M_PFN c"
  shows "leaf_of c (s\<lparr>mem := m'\<rparr>) pfn = leaf_of c s pfn"
    and "get_phys_to_machine c (s\<lparr>mem := m'\<rparr>) pfn = get_phys_to_machine c s pfn"
proof -
  note f = off_tree_frame [OF q m']
  have t: "pfn div (P2M_MID_PER_PAGE c * P2M_PER_PAGE c) < P2M_TOP_PER_PAGE c"
    by (rule top_index_less [OF p])
  have m: "p2m_mid_index c pfn < P2M_MID_PER_PAGE c" by (rule mid_index_less [OF p])
  show l: "leaf_of c (s\<lparr>mem := m'\<rparr>) pfn = leaf_of c s pfn"
    by (simp add: leaf_of_def mid_of_def f(1) f(2) [OF t])
  show "get_phys_to_machine c (s\<lparr>mem := m'\<rparr>) pfn = get_phys_to_machine c s pfn"
    unfolding get_in_range [OF p] l
    using f(3) [OF t m] by (simp add: leaf_of_def mid_of_def)
qed

lemma off_tree_kept:
  assumes q: "off_tree c s q" and m': "\<forall>a j. a \<noteq> q \<longrightarrow> m' a j = mem s a j"
  shows "off_tree c (s\<lparr>mem := m'\<rparr>) q' = off_tree c s q'"
proof -
  note f = off_tree_frame [OF q m']
  show ?thesis
    unfolding off_tree_def by (simp add: f(1) f(2) cong: all_cong1)
qed


lemma tree_mid_inj:
  assumes r: "tree_roles c r s" and t: "t < P2M_TOP_PER_PAGE c" "t' < P2M_TOP_PER_PAGE c"
    and n: "mem s (p2m_top s) t \<noteq> p2m_mid_missing s"
    and e: "mem s (p2m_top s) t' = mem s (p2m_top s) t"
  shows "t' = t"
proof -
  have a: "r (mem s (p2m_top s) t) = R_mid t"
    using tree_rolesD(4) [OF r t(1)] n by blast
  have "mem s (p2m_top s) t' \<noteq> p2m_mid_missing s"
    using n e by simp
  then have "r (mem s (p2m_top s) t') = R_mid t'"
    using tree_rolesD(4) [OF r t(2)] by blast
  then have "r (mem s (p2m_top s) t) = R_mid t'"
    by (simp only: e)
  then have "R_mid t' = R_mid t"
    by (simp only: a)
  then show ?thesis by simp
qed

lemma tree_claim_mid:
  assumes r: "tree_roles c r s" and fr: "r p = R_free" and t: "t < P2M_TOP_PER_PAGE c"
    and ms: "mem s (p2m_top s) t = p2m_mid_missing s"
    and ct: "\<forall>j < P2M_MID_PER_PAGE c. mem s p j = p2m_missing s"
  defines "s' \<equiv> s\<lparr>mem := store (mem s) (p2m_top s) t p\<rparr>"
  shows "tree_roles c (r(p := R_mid t)) s'"
    and "\<And>q. q < MAX_P2M_PFN c \<Longrightarrow> leaf_of c s' q = leaf_of c s q"
    and "\<And>q. q < MAX_P2M_PFN c \<Longrightarrow> get_phys_to_machine c s' q = get_phys_to_machine c s q"
    and "mem s' (p2m_top s') t \<noteq> p2m_mid_missing s'"
proof -
  note D = tree_rolesD [OF r]
  note o = off_treeD [OF off_tree_free [OF r fr]]
  have top: "mem s' (p2m_top s) t' = (if t' = t then p else mem s (p2m_top s) t')" for t'
    by (simp add: s'_def store_apply)
  have keep: "mem s' a j = mem s a j" if "a \<noteq> p2m_top s" for a j
    using that by (simp add: s'_def store_apply)
  have gl: "p2m_top s' = p2m_top s" "p2m_missing s' = p2m_missing s"
    "p2m_mid_missing s' = p2m_mid_missing s"
    by (simp_all add: s'_def)
  have midtop: "mem s (p2m_top s) t' \<noteq> p2m_top s" if "t' < P2M_TOP_PER_PAGE c" for t'
    using tree_mid_role [OF r that] D(3) by auto
  have leaftop: "mem s (mem s (p2m_top s) t') m \<noteq> p2m_top s"
    if "t' < P2M_TOP_PER_PAGE c" "m < P2M_MID_PER_PAGE c" for t' m
    using tree_leaf_role [OF r that] D(3) by auto
  have gtop: "p2m_mid_missing s \<noteq> p2m_top s" "p2m_missing s \<noteq> p2m_top s"
    using D(1-3) by auto
  have slot: "mem s' (mem s' (p2m_top s) t') m = mem s (mem s (p2m_top s) t') m"
    if t': "t' < P2M_TOP_PER_PAGE c" and m: "m < P2M_MID_PER_PAGE c" for t' m
  proof (cases "t' = t")
    case True
    have "mem s' (mem s' (p2m_top s) t') m = mem s p m"
      unfolding top using True o(1) by (simp add: keep)
    also have "\<dots> = p2m_missing s" using ct m by blast
    also have "\<dots> = mem s (mem s (p2m_top s) t') m"
      using True ms D(6) [OF m] by simp
    finally show ?thesis .
  next
    case False
    then show ?thesis unfolding top using midtop [OF t'] by (simp add: keep)
  qed
  show "tree_roles c (r(p := R_mid t)) s'"
  proof (rule tree_rolesI; (unfold gl)?)
    show "(r(p := R_mid t)) (p2m_missing s) = R_missing"
      "(r(p := R_mid t)) (p2m_mid_missing s) = R_mid_missing"
      "(r(p := R_mid t)) (p2m_top s) = R_top"
      using D(1-3) o(1-3) by simp_all
  next
    fix t' assume t': "t' < P2M_TOP_PER_PAGE c"
      and ne: "mem s' (p2m_top s) t' \<noteq> p2m_mid_missing s"
    show "(r(p := R_mid t)) (mem s' (p2m_top s) t') = R_mid t'"
      using ne D(4) [OF t'] o(4) [OF t'] unfolding top by auto
  next
    fix t' m assume t': "t' < P2M_TOP_PER_PAGE c" and m: "m < P2M_MID_PER_PAGE c"
      and ne: "mem s' (mem s' (p2m_top s) t') m \<noteq> p2m_missing s"
    show "(r(p := R_mid t)) (mem s' (mem s' (p2m_top s) t') m) = R_leaf t' m"
      using ne D(5) [OF t' m] o(5) [OF t' m] unfolding slot [OF t' m] by auto
  next
    fix i assume "i < P2M_MID_PER_PAGE c"
    then show "mem s' (p2m_mid_missing s) i = p2m_missing s"
      using D(6) gtop by (simp add: keep)
  next
    fix i assume "i < P2M_PER_PAGE c"
    then show "mem s' (p2m_missing s) i = INVALID_P2M_ENTRY"
      using D(7) gtop by (simp add: keep)
  qed
  show l: "leaf_of c s' q = leaf_of c s q" if q: "q < MAX_P2M_PFN c" for q
    unfolding leaf_of_def mid_of_def gl
    by (rule slot [OF top_index_less [OF q] mid_index_less [OF q]])
  show "get_phys_to_machine c s' q = get_phys_to_machine c s q" if q: "q < MAX_P2M_PFN c" for q
  proof -
    have "leaf_of c s q \<noteq> p2m_top s"
      unfolding leaf_of_def mid_of_def
      by (rule leaftop [OF top_index_less [OF q] mid_index_less [OF q]])
    then show ?thesis
      unfolding get_in_range [OF q] l [OF q] by (simp add: keep)
  qed
  show "mem s' (p2m_top s') t \<noteq> p2m_mid_missing s'"
    unfolding gl top using o(2) by simp
qed

lemma tree_graft:
  assumes r: "tree_roles c r s" and rl: "r L = R_leaf t m"
    and t: "t < P2M_TOP_PER_PAGE c" and m: "m < P2M_MID_PER_PAGE c"
    and n: "mem s (p2m_top s) t \<noteq> p2m_mid_missing s"
    and ms: "mem s (mem s (p2m_top s) t) m = p2m_missing s"
  defines "s' \<equiv> s\<lparr>mem := store (mem s) (mem s (p2m_top s) t) m L\<rparr>"
  shows "tree_roles c r s'"
    and "\<And>q. q < MAX_P2M_PFN c \<Longrightarrow>
           leaf_of c s' q =
             (if q div (P2M_MID_PER_PAGE c * P2M_PER_PAGE c) = t \<and> p2m_mid_index c q = m
              then L else leaf_of c s q)"
    and "\<And>q. q < MAX_P2M_PFN c \<Longrightarrow>
           get_phys_to_machine c s' q =
             (if q div (P2M_MID_PER_PAGE c * P2M_PER_PAGE c) = t \<and> p2m_mid_index c q = m
              then Inr (mem s L (p2m_index c q)) else get_phys_to_machine c s q)"
proof -
  let ?mid = "mem s (p2m_top s) t"
  note D = tree_rolesD [OF r]
  note o = off_treeD [OF off_tree_leaf [OF r rl ms]]
  have rmid: "r ?mid = R_mid t" using D(4) [OF t] n by blast
  have keep: "mem s' a j = mem s a j" if "a \<noteq> ?mid" for a j
    using that by (simp add: s'_def store_apply)
  have gl: "p2m_top s' = p2m_top s" "p2m_missing s' = p2m_missing s"
    "p2m_mid_missing s' = p2m_mid_missing s"
    by (simp_all add: s'_def)
  have top: "mem s' (p2m_top s) t' = mem s (p2m_top s) t'" for t'
    using rmid D(3) by (intro keep) auto
  have gm: "p2m_mid_missing s \<noteq> ?mid" "p2m_missing s \<noteq> ?mid"
    using rmid D(1,2) by auto
  have leafmid: "mem s (mem s (p2m_top s) t') m' \<noteq> ?mid"
    if "t' < P2M_TOP_PER_PAGE c" "m' < P2M_MID_PER_PAGE c" for t' m'
    using tree_leaf_role [OF r that] rmid by auto
  have slot: "mem s' (mem s (p2m_top s) t') m' =
                (if t' = t \<and> m' = m then L else mem s (mem s (p2m_top s) t') m')"
    if t': "t' < P2M_TOP_PER_PAGE c" for t' m'
  proof (cases "t' = t")
    case True
    then show ?thesis by (simp add: s'_def store_apply)
  next
    case False
    then have "mem s (p2m_top s) t' \<noteq> ?mid"
      using tree_mid_inj [OF r t t' n] by blast
    then show ?thesis using False by (simp add: keep)
  qed
  show "tree_roles c r s'"
  proof (rule tree_rolesI; (unfold gl top)?)
    show "r (p2m_missing s) = R_missing" "r (p2m_mid_missing s) = R_mid_missing"
      "r (p2m_top s) = R_top"
      by (rule D)+
  next
    fix t' assume t': "t' < P2M_TOP_PER_PAGE c"
      and ne: "mem s (p2m_top s) t' \<noteq> p2m_mid_missing s"
    show "r (mem s (p2m_top s) t') = R_mid t'" using D(4) [OF t'] ne by blast
  next
    fix t' m' assume t': "t' < P2M_TOP_PER_PAGE c" and m': "m' < P2M_MID_PER_PAGE c"
      and ne: "mem s' (mem s (p2m_top s) t') m' \<noteq> p2m_missing s"
    show "r (mem s' (mem s (p2m_top s) t') m') = R_leaf t' m'"
      using ne D(5) [OF t' m'] rl unfolding slot [OF t'] by (auto split: if_splits)
  next
    fix i assume "i < P2M_MID_PER_PAGE c"
    then show "mem s' (p2m_mid_missing s) i = p2m_missing s"
      using D(6) gm by (simp add: keep)
  next
    fix i assume "i < P2M_PER_PAGE c"
    then show "mem s' (p2m_missing s) i = INVALID_P2M_ENTRY"
      using D(7) gm by (simp add: keep)
  qed
  show l: "leaf_of c s' q =
             (if q div (P2M_MID_PER_PAGE c * P2M_PER_PAGE c) = t \<and> p2m_mid_index c q = m
              then L else leaf_of c s q)" if q: "q < MAX_P2M_PFN c" for q
    unfolding leaf_of_def mid_of_def gl top
    by (rule slot [OF top_index_less [OF q]])
  show "get_phys_to_machine c s' q =
             (if q div (P2M_MID_PER_PAGE c * P2M_PER_PAGE c) = t \<and> p2m_mid_index c q = m
              then Inr (mem s L (p2m_index c q)) else get_phys_to_machine c s q)"
    if q: "q < MAX_P2M_PFN c" for q
  proof -
    have a: "leaf_of c s q \<noteq> ?mid"
      unfolding leaf_of_def mid_of_def
      by (rule leafmid [OF top_index_less [OF q] mid_index_less [OF q]])
    have b: "L \<noteq> ?mid" using o(4) [OF t] .
    show ?thesis
      unfolding get_in_range [OF q] l [OF q] using a b by (simp add: keep)
  qed
qed


lemma dyn_done:
  "\<not> pfn < n \<Longrightarrow> build_dynamic_loop c ml n pfn s = Inr s"
  by (subst build_dynamic_loop.simps) simp

lemma dyn_bug:
  "pfn < n \<Longrightarrow> \<not> pfn < MAX_P2M_PFN c \<Longrightarrow> build_dynamic_loop c ml n pfn s = Inl BUG"
  by (subst build_dynamic_loop.simps) (simp add: p2m_top_index_def)

lemma dyn_step:
  assumes "pfn < n" "pfn < MAX_P2M_PFN c"
  shows "build_dynamic_loop c ml n pfn s =
     (case build_dynamic_mid c (pfn div (P2M_MID_PER_PAGE c * P2M_PER_PAGE c)) s of
        Inl e \<Rightarrow> Inl e
      | Inr s2 \<Rightarrow>
          build_dynamic_loop c ml n (pfn + P2M_PER_PAGE c)
            (build_dynamic_graft c ml pfn (build_dynamic_fill c ml n pfn s2)))"
  using assms
  by (subst build_dynamic_loop.simps)
     (simp add: top_index_Inr build_dynamic_mid_def build_dynamic_fill_def
       build_dynamic_graft_def Let_def split: sum.splits)


lemma tree_roles_brk [simp]: "tree_roles c r (s\<lparr>brk := b\<rparr>) = tree_roles c r s"
  by (simp add: tree_roles_def)

lemma leaf_of_brk [simp]: "leaf_of c (s\<lparr>brk := b\<rparr>) q = leaf_of c s q"
  by (simp add: leaf_of_def mid_of_def)

lemma get_brk [simp]:
  "get_phys_to_machine c (s\<lparr>brk := b\<rparr>) q = get_phys_to_machine c s q"
  by (simp add: get_phys_to_machine_def Let_def split: sum.splits)

lemma same_pointers_refl: "same_pointers s s"
  by (simp add: same_pointers_def)

lemma same_pointers_trans:
  "same_pointers s s1 \<Longrightarrow> same_pointers s1 s2 \<Longrightarrow> same_pointers s s2"
  by (simp add: same_pointers_def)

lemma dyn_mid_ok:
  assumes r: "tree_roles c r s"
    and F: "\<forall>p \<in> set (brk s @ free_pages s). r p = R_free"
    and Dd: "distinct (brk s @ free_pages s)"
    and t: "t < P2M_TOP_PER_PAGE c"
    and a: "build_dynamic_mid c t s = Inr s2"
  shows "\<exists>r2. tree_roles c r2 s2 \<and>
           (\<forall>p \<in> set (brk s2 @ free_pages s2). r2 p = R_free) \<and>
           distinct (brk s2 @ free_pages s2) \<and>
           (\<forall>a. r a \<noteq> R_free \<longrightarrow> r2 a = r a) \<and>
           (\<forall>a j. r a \<noteq> R_free \<longrightarrow> a \<noteq> p2m_top s \<longrightarrow> mem s2 a j = mem s a j) \<and>
           (\<forall>q < MAX_P2M_PFN c. leaf_of c s2 q = leaf_of c s q \<and>
              get_phys_to_machine c s2 q = get_phys_to_machine c s q) \<and>
           mem s2 (p2m_top s2) t \<noteq> p2m_mid_missing s2 \<and> same_pointers s s2"
proof (cases "mem s (p2m_top s) t = p2m_mid_missing s")
  case False
  with a have "s2 = s" by (simp add: build_dynamic_mid_def)
  with r F Dd False show ?thesis
    by (intro exI [of _ r]) (simp add: same_pointers_refl)
next
  case True
  with a obtain p ps where b: "brk s = p # ps"
    by (cases "brk s") (simp_all add: build_dynamic_mid_def extend_brk_def)
  let ?F = "fill_from p (p2m_missing s) (P2M_MID_PER_PAGE c) 0 (mem s)"
  let ?s1 = "s\<lparr>brk := ps\<rparr>"
  let ?sA = "?s1\<lparr>mem := ?F\<rparr>"
  from a True b have e: "s2 = ?sA\<lparr>mem := store (mem ?sA) (p2m_top ?sA) t p\<rparr>"
    by (simp add: build_dynamic_mid_def extend_brk_def p2m_mid_init_def)
  have fr: "r p = R_free" using F b by simp
  have r1: "tree_roles c r ?s1" using r by simp
  have o1: "off_tree c ?s1 p"
    by (rule off_tree_free [OF r1 fr])
  have Fa: "\<forall>a j. a \<noteq> p \<longrightarrow> ?F a j = mem ?s1 a j"
    by (simp add: fill_from_apply)
  have rA: "tree_roles c r ?sA" by (rule tree_frame [OF r1 o1 Fa])
  note lA = lookup_off_tree [OF o1 Fa]
  note fA = off_tree_frame [OF o1 Fa]
  have msA: "mem ?sA (p2m_top ?sA) t = p2m_mid_missing ?sA"
    using True fA(1) by simp
  have ctA: "\<forall>j < P2M_MID_PER_PAGE c. mem ?sA p j = p2m_missing ?sA"
    by (simp add: fill_from_apply)
  note cm = tree_claim_mid [OF rA fr t msA ctA]
  let ?r2 = "r(p := R_mid t)"
  have 1: "tree_roles c ?r2 s2" unfolding e by (rule cm(1))
  have pn: "p \<notin> set (ps @ free_pages s)" and dps: "distinct (ps @ free_pages s)"
    using Dd b by simp_all
  have 2: "\<forall>q \<in> set (brk s2 @ free_pages s2). ?r2 q = R_free"
    using F b pn unfolding e by auto
  have 3: "distinct (brk s2 @ free_pages s2)" using dps unfolding e by simp
  have 4: "\<forall>a. r a \<noteq> R_free \<longrightarrow> ?r2 a = r a" using fr by auto
  have 5: "\<forall>a j. r a \<noteq> R_free \<longrightarrow> a \<noteq> p2m_top s \<longrightarrow> mem s2 a j = mem s a j"
    using fr unfolding e by (auto simp: store_apply fill_from_apply)
  have 6: "\<forall>q < MAX_P2M_PFN c. leaf_of c s2 q = leaf_of c s q \<and>
              get_phys_to_machine c s2 q = get_phys_to_machine c s q"
    unfolding e using cm(2,3) lA by simp
  have 7: "mem s2 (p2m_top s2) t \<noteq> p2m_mid_missing s2" unfolding e by (rule cm(4))
  have 8: "same_pointers s s2" unfolding e by (simp add: same_pointers_def)
  show ?thesis using 1 2 3 4 5 6 7 8 by blast
qed


lemma dyn_leaf_ok:
  fixes n :: nat
  assumes r: "tree_roles c r s" and p: "pfn < MAX_P2M_PFN c"
    and rl: "r (mfn_list_at ml pfn) =
               R_leaf (pfn div (P2M_MID_PER_PAGE c * P2M_PER_PAGE c)) (p2m_mid_index c pfn)"
    and n: "mem s (p2m_top s) (pfn div (P2M_MID_PER_PAGE c * P2M_PER_PAGE c)) \<noteq>
              p2m_mid_missing s"
    and ms: "leaf_of c s pfn = p2m_missing s"
  defines "s4 \<equiv> build_dynamic_graft c ml pfn (build_dynamic_fill c ml n pfn s)"
  shows "tree_roles c r s4"
    and "\<And>q. q < MAX_P2M_PFN c \<Longrightarrow>
           leaf_of c s4 q =
             (if q div (P2M_MID_PER_PAGE c * P2M_PER_PAGE c) =
                   pfn div (P2M_MID_PER_PAGE c * P2M_PER_PAGE c) \<and>
                 p2m_mid_index c q = p2m_mid_index c pfn
              then mfn_list_at ml pfn else leaf_of c s q)"
    and "\<And>q. q < MAX_P2M_PFN c \<Longrightarrow>
           get_phys_to_machine c s4 q =
             (if q div (P2M_MID_PER_PAGE c * P2M_PER_PAGE c) =
                   pfn div (P2M_MID_PER_PAGE c * P2M_PER_PAGE c) \<and>
                 p2m_mid_index c q = p2m_mid_index c pfn
              then Inr (if n < pfn + P2M_PER_PAGE c \<and> n mod P2M_PER_PAGE c \<le> p2m_index c q
                        then INVALID_P2M_ENTRY
                        else mem s (mfn_list_at ml pfn) (p2m_index c q))
              else get_phys_to_machine c s q)"
    and "\<And>a j. a \<noteq> mfn_list_at ml pfn \<Longrightarrow>
           r a \<noteq> R_mid (pfn div (P2M_MID_PER_PAGE c * P2M_PER_PAGE c)) \<Longrightarrow>
           mem s4 a j = mem s a j"
    and "same_pointers s s4" and "brk s4 = brk s"
proof -
  let ?t = "pfn div (P2M_MID_PER_PAGE c * P2M_PER_PAGE c)"
  let ?m = "p2m_mid_index c pfn"
  let ?L = "mfn_list_at ml pfn"
  have t: "?t < P2M_TOP_PER_PAGE c" by (rule top_index_less [OF p])
  have m: "?m < P2M_MID_PER_PAGE c" by (rule mid_index_less [OF p])
  have ms': "mem s (mem s (p2m_top s) ?t) ?m = p2m_missing s"
    using ms by (simp add: leaf_of_def mid_of_def)
  have oL: "off_tree c s ?L" by (rule off_tree_leaf [OF r rl ms'])
  let ?m3 = "if pfn + P2M_PER_PAGE c > n then
                 fill_from ?L INVALID_P2M_ENTRY (P2M_PER_PAGE c) (n mod P2M_PER_PAGE c) (mem s)
               else mem s"
  let ?s3 = "s\<lparr>mem := ?m3\<rparr>"
  have e3: "build_dynamic_fill c ml n pfn s = ?s3"
    by (simp add: build_dynamic_fill_def)
  have F: "\<forall>a j. a \<noteq> ?L \<longrightarrow> ?m3 a j = mem s a j"
    by (simp add: fill_from_apply)
  have r3: "tree_roles c r ?s3" by (rule tree_frame [OF r oL F])
  note l3 = lookup_off_tree [OF oL F]
  note f3 = off_tree_frame [OF oL F]
  have n3: "mem ?s3 (p2m_top ?s3) ?t \<noteq> p2m_mid_missing ?s3"
    using n f3(1) [of ?t] by simp
  have ms3: "mem ?s3 (mem ?s3 (p2m_top ?s3) ?t) ?m = p2m_missing ?s3"
    using ms' f3(1) [of ?t] f3(2) [OF t, of ?m] by simp
  have e4: "s4 = ?s3\<lparr>mem := store (mem ?s3) (mem ?s3 (p2m_top ?s3) ?t) ?m ?L\<rparr>"
    unfolding s4_def e3 by (simp add: build_dynamic_graft_def)
  note g = tree_graft [OF r3 rl t m n3 ms3]
  show "tree_roles c r s4" unfolding e4 by (rule g(1))
  show "leaf_of c s4 q =
             (if q div (P2M_MID_PER_PAGE c * P2M_PER_PAGE c) = ?t \<and> p2m_mid_index c q = ?m
              then ?L else leaf_of c s q)" if q: "q < MAX_P2M_PFN c" for q
    unfolding e4 g(2) [OF q] l3(1) [OF q] ..
  have L3: "mem ?s3 ?L i =
              (if n < pfn + P2M_PER_PAGE c \<and> n mod P2M_PER_PAGE c \<le> i
               then INVALID_P2M_ENTRY else mem s ?L i)" if "i < P2M_PER_PAGE c" for i
    using that by (simp add: fill_from_apply)
  show "get_phys_to_machine c s4 q =
             (if q div (P2M_MID_PER_PAGE c * P2M_PER_PAGE c) = ?t \<and> p2m_mid_index c q = ?m
              then Inr (if n < pfn + P2M_PER_PAGE c \<and> n mod P2M_PER_PAGE c \<le> p2m_index c q
                        then INVALID_P2M_ENTRY
                        else mem s ?L (p2m_index c q))
              else get_phys_to_machine c s q)" if q: "q < MAX_P2M_PFN c" for q
    unfolding e4 g(3) [OF q] l3(2) [OF q] L3 [OF index_less [OF q]] ..
  have rmid: "r (mem s (p2m_top s) ?t) = R_mid ?t" using tree_rolesD(4) [OF r t] n by blast
  show "mem s4 a j = mem s a j" if "a \<noteq> ?L" "r a \<noteq> R_mid ?t" for a j
  proof -
    have "a \<noteq> mem s (p2m_top s) ?t" using that(2) rmid by auto
    then show ?thesis
      unfolding e4 using that(1) f3(1) [of ?t] by (simp add: store_apply fill_from_apply)
  qed
  show "same_pointers s s4" unfolding e4 by (simp add: same_pointers_def)
  show "brk s4 = brk s" unfolding e4 by simp
qed


lemma same_slot_div:
  assumes "q div (P2M_MID_PER_PAGE c * P2M_PER_PAGE c) =
             pfn div (P2M_MID_PER_PAGE c * P2M_PER_PAGE c)"
    and "p2m_mid_index c q = p2m_mid_index c pfn"
  shows "q div P2M_PER_PAGE c = pfn div P2M_PER_PAGE c"
proof -
  have "q div P2M_PER_PAGE c =
        q div P2M_PER_PAGE c div P2M_MID_PER_PAGE c * P2M_MID_PER_PAGE c +
        q div P2M_PER_PAGE c mod P2M_MID_PER_PAGE c"
    by simp
  also have "\<dots> = pfn div P2M_PER_PAGE c div P2M_MID_PER_PAGE c * P2M_MID_PER_PAGE c +
        pfn div P2M_PER_PAGE c mod P2M_MID_PER_PAGE c"
    using assms unfolding top_index_div p2m_mid_index_def by simp
  also have "\<dots> = pfn div P2M_PER_PAGE c" by simp
  finally show ?thesis .
qed

lemma after_block:
  assumes d: "P2M_PER_PAGE c dvd pfn" and q: "pfn + P2M_PER_PAGE c \<le> q"
    and pos: "0 < P2M_PER_PAGE c"
  shows "\<not> (q div (P2M_MID_PER_PAGE c * P2M_PER_PAGE c) =
             pfn div (P2M_MID_PER_PAGE c * P2M_PER_PAGE c) \<and>
           p2m_mid_index c q = p2m_mid_index c pfn)"
proof
  assume a: "q div (P2M_MID_PER_PAGE c * P2M_PER_PAGE c) =
             pfn div (P2M_MID_PER_PAGE c * P2M_PER_PAGE c) \<and>
           p2m_mid_index c q = p2m_mid_index c pfn"
  then have e: "q div P2M_PER_PAGE c = pfn div P2M_PER_PAGE c"
    using same_slot_div by blast
  have "q < Suc (q div P2M_PER_PAGE c) * P2M_PER_PAGE c"
    using pos by (simp add: dividend_less_times_div mult.commute)
  then have "q < pfn div P2M_PER_PAGE c * P2M_PER_PAGE c + P2M_PER_PAGE c"
    unfolding e by simp
  then have "q < pfn + P2M_PER_PAGE c" using d by simp
  with q show False by simp
qed

lemma block_index:
  assumes d: "P2M_PER_PAGE c dvd pfn" and q: "pfn \<le> q" "q < pfn + P2M_PER_PAGE c"
  shows "q mod P2M_PER_PAGE c = q - pfn" and "q - q mod P2M_PER_PAGE c = pfn"
proof -
  from d obtain k where k: "pfn = P2M_PER_PAGE c * k" by (elim dvdE)
  have "q = (q - pfn) + P2M_PER_PAGE c * k" using q(1) k by simp
  then have "q mod P2M_PER_PAGE c = (q - pfn) mod P2M_PER_PAGE c"
    by (metis mod_mult_self2)
  also have "\<dots> = q - pfn" using q by simp
  finally show 1: "q mod P2M_PER_PAGE c = q - pfn" .
  show "q - q mod P2M_PER_PAGE c = pfn" unfolding 1 using q(1) by simp
qed

lemma tail_cond:
  assumes d: "P2M_PER_PAGE c dvd pfn" and n: "pfn < n"
    and q: "pfn \<le> q" "q < pfn + P2M_PER_PAGE c"
  shows "(n < pfn + P2M_PER_PAGE c \<and> n mod P2M_PER_PAGE c \<le> q mod P2M_PER_PAGE c) =
         (\<not> q < n)"
proof (cases "n < pfn + P2M_PER_PAGE c")
  case True
  have "n mod P2M_PER_PAGE c = n - pfn"
    by (rule block_index(1) [OF d]) (use n True in simp_all)
  moreover have "q mod P2M_PER_PAGE c = q - pfn"
    by (rule block_index(1) [OF d q])
  ultimately show ?thesis using True n q by auto
next
  case False
  then show ?thesis using q by simp
qed


lemma dyn_loop_ok:
  fixes M0 :: memory
  assumes "build_dynamic_loop c ml n pfn s = Inr s'"
    and "tree_roles c r s"
    and "\<forall>p \<in> set (brk s @ free_pages s). r p = R_free"
    and "distinct (brk s @ free_pages s)"
    and "P2M_PER_PAGE c dvd pfn"
    and "\<forall>q. pfn \<le> q \<and> q < n \<and> P2M_PER_PAGE c dvd q \<longrightarrow>
           r (mfn_list_at ml q) =
             R_leaf (q div (P2M_MID_PER_PAGE c * P2M_PER_PAGE c)) (p2m_mid_index c q)"
    and "\<forall>q < MAX_P2M_PFN c. pfn \<le> q \<longrightarrow> leaf_of c s q = p2m_missing s"
    and "\<forall>q. pfn \<le> q \<and> q < n \<and> P2M_PER_PAGE c dvd q \<longrightarrow>
           (\<forall>i. mem s (mfn_list_at ml q) i = M0 (mfn_list_at ml q) i)"
    and "\<forall>q < MAX_P2M_PFN c. q < pfn \<longrightarrow>
           get_phys_to_machine c s q =
             Inr (if q < n then M0 (mfn_list_at ml (q - q mod P2M_PER_PAGE c))
                                 (q mod P2M_PER_PAGE c)
                  else INVALID_P2M_ENTRY)"
  shows "\<exists>r'. tree_roles c r' s' \<and>
           (\<forall>p \<in> set (brk s' @ free_pages s'). r' p = R_free) \<and>
           distinct (brk s' @ free_pages s') \<and>
           (\<forall>q < MAX_P2M_PFN c.
              get_phys_to_machine c s' q =
                Inr (if q < n then M0 (mfn_list_at ml (q - q mod P2M_PER_PAGE c))
                                    (q mod P2M_PER_PAGE c)
                     else INVALID_P2M_ENTRY)) \<and>
           same_pointers s s'"
  using assms
proof (induction "n - pfn" arbitrary: pfn s r rule: less_induct)
  case less
  note res = less.prems(1) and r = less.prems(2) and F = less.prems(3) and Dd = less.prems(4)
    and d = less.prems(5) and lf = less.prems(6) and un = less.prems(7)
    and ct = less.prems(8) and dn = less.prems(9)
  let ?t = "pfn div (P2M_MID_PER_PAGE c * P2M_PER_PAGE c)"
  let ?m = "p2m_mid_index c pfn"
  let ?L = "mfn_list_at ml pfn"
  let ?E = "\<lambda>q. Inr (if q < n then M0 (mfn_list_at ml (q - q mod P2M_PER_PAGE c))
                                 (q mod P2M_PER_PAGE c)
                  else INVALID_P2M_ENTRY) :: error + ulong"
  show ?case
  proof (cases "pfn < n")
    case False
    with res have e: "s' = s" by (simp add: dyn_done)
    have "get_phys_to_machine c s q = ?E q" if q: "q < MAX_P2M_PFN c" for q
    proof (cases "q < pfn")
      case True
      then show ?thesis using dn q by blast
    next
      case qp: False
      then have "leaf_of c s q = p2m_missing s" using un q by simp
      then have "get_phys_to_machine c s q = Inr INVALID_P2M_ENTRY"
        unfolding get_in_range [OF q]
        using tree_rolesD(7) [OF r index_less [OF q]] by simp
      moreover have "\<not> q < n" using qp False by simp
      ultimately show ?thesis by simp
    qed
    then show ?thesis
      unfolding e using r F Dd by (intro exI [of _ r]) (simp add: same_pointers_refl)
  next
    case True
    have p: "pfn < MAX_P2M_PFN c"
    proof (rule ccontr)
      assume "\<not> pfn < MAX_P2M_PFN c"
      with res True show False by (simp add: dyn_bug)
    qed
    have pos: "0 < P2M_PER_PAGE c" by (rule per_page_pos [OF p])
    have t: "?t < P2M_TOP_PER_PAGE c" by (rule top_index_less [OF p])
    note res' = res [unfolded dyn_step [OF True p]]
    then obtain s2 where a2: "build_dynamic_mid c ?t s = Inr s2"
      by (cases "build_dynamic_mid c ?t s") simp_all
    let ?s4 = "build_dynamic_graft c ml pfn (build_dynamic_fill c ml n pfn s2)"
    have res4: "build_dynamic_loop c ml n (pfn + P2M_PER_PAGE c) ?s4 = Inr s'"
      using res' a2 by simp
    from dyn_mid_ok [OF r F Dd t a2]
    obtain r2 where r2: "tree_roles c r2 s2"
      and F2: "\<forall>p \<in> set (brk s2 @ free_pages s2). r2 p = R_free"
      and D2: "distinct (brk s2 @ free_pages s2)"
      and rr: "\<And>a. r a \<noteq> R_free \<Longrightarrow> r2 a = r a"
      and mm: "\<And>a j. r a \<noteq> R_free \<Longrightarrow> a \<noteq> p2m_top s \<Longrightarrow> mem s2 a j = mem s a j"
      and l2: "\<And>q. q < MAX_P2M_PFN c \<Longrightarrow> leaf_of c s2 q = leaf_of c s q"
      and g2: "\<And>q. q < MAX_P2M_PFN c \<Longrightarrow>
                 get_phys_to_machine c s2 q = get_phys_to_machine c s q"
      and n2: "mem s2 (p2m_top s2) ?t \<noteq> p2m_mid_missing s2"
      and sp2: "same_pointers s s2"
      by blast
    have gl2: "p2m_missing s2 = p2m_missing s" "p2m_top s2 = p2m_top s"
      using sp2 by (simp_all add: same_pointers_def)
    have pg: "r (mfn_list_at ml q) =
                R_leaf (q div (P2M_MID_PER_PAGE c * P2M_PER_PAGE c)) (p2m_mid_index c q)"
      if "pfn \<le> q" "q < n" "P2M_PER_PAGE c dvd q" for q
      using lf that by blast
    have pg2: "r2 (mfn_list_at ml q) =
                R_leaf (q div (P2M_MID_PER_PAGE c * P2M_PER_PAGE c)) (p2m_mid_index c q)"
      if "pfn \<le> q" "q < n" "P2M_PER_PAGE c dvd q" for q
      using pg [OF that] rr [of "mfn_list_at ml q"] by simp
    have pm2: "mem s2 (mfn_list_at ml q) i = M0 (mfn_list_at ml q) i"
      if q: "pfn \<le> q" "q < n" "P2M_PER_PAGE c dvd q" for q i
    proof -
      have "mfn_list_at ml q \<noteq> p2m_top s"
        using pg [OF q] tree_rolesD(3) [OF r] by auto
      then have "mem s2 (mfn_list_at ml q) i = mem s (mfn_list_at ml q) i"
        using pg [OF q] by (intro mm) simp_all
      then show ?thesis using ct q by simp
    qed
    have rl: "r2 ?L = R_leaf ?t ?m" by (rule pg2 [OF _ True d]) simp
    have ms2: "leaf_of c s2 pfn = p2m_missing s2"
      unfolding l2 [OF p] gl2 using un p by simp
    note lk = dyn_leaf_ok [OF r2 p rl n2 ms2, where n = n]
    have sp4: "same_pointers s ?s4" by (rule same_pointers_trans [OF sp2 lk(5)])
    have gl4: "p2m_missing ?s4 = p2m_missing s" "free_pages ?s4 = free_pages s2"
      using sp4 lk(5) by (simp_all add: same_pointers_def)
    have lt: "n - (pfn + P2M_PER_PAGE c) < n - pfn" using True pos by simp
    have F4: "\<forall>p \<in> set (brk ?s4 @ free_pages ?s4). r2 p = R_free"
      using F2 unfolding lk(6) gl4 .
    have D4: "distinct (brk ?s4 @ free_pages ?s4)"
      using D2 unfolding lk(6) gl4 .
    have d4: "P2M_PER_PAGE c dvd pfn + P2M_PER_PAGE c" using d by simp
    have lf4: "\<forall>q. pfn + P2M_PER_PAGE c \<le> q \<and> q < n \<and> P2M_PER_PAGE c dvd q \<longrightarrow>
           r2 (mfn_list_at ml q) =
             R_leaf (q div (P2M_MID_PER_PAGE c * P2M_PER_PAGE c)) (p2m_mid_index c q)"
      using pg2 by simp
    have un4: "\<forall>q < MAX_P2M_PFN c. pfn + P2M_PER_PAGE c \<le> q \<longrightarrow>
                 leaf_of c ?s4 q = p2m_missing ?s4"
    proof (intro allI impI)
      fix q assume q: "q < MAX_P2M_PFN c" and ge: "pfn + P2M_PER_PAGE c \<le> q"
      have "leaf_of c ?s4 q = leaf_of c s2 q"
        unfolding lk(2) [OF q] by (rule if_not_P [OF after_block [OF d ge pos]])
      also have "\<dots> = p2m_missing s" unfolding l2 [OF q] using un q ge by simp
      finally show "leaf_of c ?s4 q = p2m_missing ?s4" unfolding gl4 .
    qed
    have ct4: "\<forall>q. pfn + P2M_PER_PAGE c \<le> q \<and> q < n \<and> P2M_PER_PAGE c dvd q \<longrightarrow>
           (\<forall>i. mem ?s4 (mfn_list_at ml q) i = M0 (mfn_list_at ml q) i)"
    proof (intro allI impI)
      fix q i assume "pfn + P2M_PER_PAGE c \<le> q \<and> q < n \<and> P2M_PER_PAGE c dvd q"
      then have q: "pfn \<le> q" "q < n" "P2M_PER_PAGE c dvd q"
        and ge: "pfn + P2M_PER_PAGE c \<le> q" by simp_all
      have "R_leaf (q div (P2M_MID_PER_PAGE c * P2M_PER_PAGE c)) (p2m_mid_index c q) \<noteq>
            R_leaf ?t ?m"
        using after_block [OF d ge pos] by auto
      then have 1: "mfn_list_at ml q \<noteq> ?L" using pg2 [OF q] rl by auto
      have 2: "r2 (mfn_list_at ml q) \<noteq> R_mid ?t" using pg2 [OF q] by simp
      show "mem ?s4 (mfn_list_at ml q) i = M0 (mfn_list_at ml q) i"
        unfolding lk(4) [OF 1 2] by (rule pm2 [OF q])
    qed
    have dn4: "\<forall>q < MAX_P2M_PFN c. q < pfn + P2M_PER_PAGE c \<longrightarrow>
                 get_phys_to_machine c ?s4 q = ?E q"
    proof (intro allI impI)
      fix q assume q: "q < MAX_P2M_PFN c" and lt: "q < pfn + P2M_PER_PAGE c"
      show "get_phys_to_machine c ?s4 q = ?E q"
      proof (cases "q < pfn")
        case True
        have "get_phys_to_machine c ?s4 q = get_phys_to_machine c s2 q"
          unfolding lk(3) [OF q] by (rule if_not_P [OF before_block [OF d True]])
        then show ?thesis unfolding g2 [OF q] using dn q True by simp
      next
        case False
        then have ge: "pfn \<le> q" by simp
        note bs = block_same [OF d ge lt]
        note bi = block_index [OF d ge lt]
        have "get_phys_to_machine c ?s4 q =
                Inr (if n < pfn + P2M_PER_PAGE c \<and>
                        n mod P2M_PER_PAGE c \<le> q mod P2M_PER_PAGE c
                     then INVALID_P2M_ENTRY else mem s2 ?L (q mod P2M_PER_PAGE c))"
          unfolding lk(3) [OF q] using bs by (simp add: p2m_index_def)
        also have "\<dots> = Inr (if \<not> q < n then INVALID_P2M_ENTRY
                               else M0 ?L (q mod P2M_PER_PAGE c))"
          unfolding tail_cond [OF d True ge lt] pm2 [OF order_refl True d] ..
        also have "\<dots> = ?E q" unfolding bi(2) by simp
        finally show ?thesis .
      qed
    qed
    from less.hyps [OF lt res4 lk(1) F4 D4 d4 lf4 un4 ct4 dn4]
    obtain r' where "tree_roles c r' s'"
      "\<forall>p \<in> set (brk s' @ free_pages s'). r' p = R_free"
      "distinct (brk s' @ free_pages s')"
      "\<forall>q < MAX_P2M_PFN c. get_phys_to_machine c s' q = ?E q"
      "same_pointers ?s4 s'"
      by blast
    then show ?thesis
      using same_pointers_trans [OF sp4] by blast
  qed
qed


lemma boot_page_mem:
  assumes "q < n" "P2M_PER_PAGE c dvd q" "0 < P2M_PER_PAGE c"
  shows "mfn_list_at ml q \<in> set (boot_pages c ml n)"
proof -
  let ?B = "P2M_PER_PAGE c"
  have e: "q div ?B * ?B = q" using assms(2) by simp
  have "q + ?B \<le> n + ?B - 1" using assms(1,3) by simp
  then have "(q + ?B) div ?B \<le> (n + ?B - 1) div ?B" by (rule div_le_mono)
  moreover have "(q + ?B) div ?B = Suc (q div ?B)"
    using div_add_self2 [of ?B q] assms(3) by simp
  ultimately have "q div ?B < (n + ?B - 1) div ?B" by simp
  then have "mfn_list_at ml (q div ?B * ?B) \<in> set (boot_pages c ml n)"
    unfolding boot_pages_def by simp
  then show ?thesis unfolding e .
qed

lemma leaf_roles_exist:
  assumes dp: "distinct (boot_pages c ml n)" and pos: "0 < P2M_PER_PAGE c"
  shows "\<exists>lr. \<forall>q. q < n \<and> P2M_PER_PAGE c dvd q \<longrightarrow>
           lr (mfn_list_at ml q) =
             R_leaf (q div (P2M_MID_PER_PAGE c * P2M_PER_PAGE c)) (p2m_mid_index c q)"
proof -
  let ?B = "P2M_PER_PAGE c"
  let ?K = "(n + ?B - 1) div ?B"
  let ?f = "\<lambda>k. mfn_list_at ml (k * ?B)"
  have inj: "inj_on ?f {..<?K}"
    using dp unfolding boot_pages_def by (simp add: distinct_map lessThan_atLeast0)
  define lr where "lr a = (let k = the_inv_into {..<?K} ?f a in
                     R_leaf (k div P2M_MID_PER_PAGE c) (k mod P2M_MID_PER_PAGE c))" for a
  have "lr (mfn_list_at ml q) =
             R_leaf (q div (P2M_MID_PER_PAGE c * P2M_PER_PAGE c)) (p2m_mid_index c q)"
    if q: "q < n" "?B dvd q" for q
  proof -
    have e: "q div ?B * ?B = q" using q(2) by simp
    have "q + ?B \<le> n + ?B - 1" using q(1) pos by simp
    then have "(q + ?B) div ?B \<le> (n + ?B - 1) div ?B" by (rule div_le_mono)
    moreover have "(q + ?B) div ?B = Suc (q div ?B)"
      using div_add_self2 [of ?B q] pos by simp
    ultimately have k: "q div ?B \<in> {..<?K}" by simp
    have "the_inv_into {..<?K} ?f (?f (q div ?B)) = q div ?B"
      by (rule the_inv_into_f_f [OF inj k])
    then have "lr (?f (q div ?B)) =
        R_leaf (q div ?B div P2M_MID_PER_PAGE c) (q div ?B mod P2M_MID_PER_PAGE c)"
      unfolding lr_def by (simp add: Let_def)
    then show ?thesis
      unfolding e top_index_div p2m_mid_index_def .
  qed
  then show ?thesis by blast
qed


lemma dyn_build_unfold:
  assumes "brk s = p1 # p2 # p3 # ps"
  shows "xen_build_dynamic_phys_to_machine c ml nr s =
     build_dynamic_loop c ml (min (MAX_DOMAIN_PAGES c) nr) 0
       (s\<lparr>xen_max_p2m_pfn := min (MAX_DOMAIN_PAGES c) nr, brk := ps,
           p2m_missing := p1, p2m_mid_missing := p2, p2m_top := p3,
           mem := fill_from p3 p2 (P2M_TOP_PER_PAGE c) 0
                    (fill_from p2 p1 (P2M_MID_PER_PAGE c) 0
                       (fill_from p1 INVALID_P2M_ENTRY (P2M_MID_PER_PAGE c) 0 (mem s)))\<rparr>)"
  using assms
  by (cases s)
     (simp add: xen_build_dynamic_phys_to_machine_def extend_brk_def Let_def
      p2m_init_def p2m_mid_init_def p2m_top_init_def)

lemma dyn_build_brk:
  assumes "xen_build_dynamic_phys_to_machine c ml nr s = Inr s1"
  shows "\<exists>p1 p2 p3 ps. brk s = p1 # p2 # p3 # ps"
proof (cases "brk s")
  case Nil
  with assms show ?thesis
    by (simp add: xen_build_dynamic_phys_to_machine_def extend_brk_def Let_def)
next
  case 1: (Cons p1 l1)
  show ?thesis
  proof (cases l1)
    case Nil
    with assms 1 show ?thesis
      by (simp add: xen_build_dynamic_phys_to_machine_def extend_brk_def Let_def)
  next
    case 2: (Cons p2 l2)
    show ?thesis
    proof (cases l2)
      case Nil
      with assms 1 2 show ?thesis
        by (simp add: xen_build_dynamic_phys_to_machine_def extend_brk_def Let_def)
    next
      case (Cons p3 ps)
      with 1 2 show ?thesis by simp
    qed
  qed
qed

lemma dyn_build_ok:
  assumes res: "xen_build_dynamic_phys_to_machine c ml nr s = Inr s1"
    and Dd: "distinct (brk s @ free_pages s @
               boot_pages c ml (min (MAX_DOMAIN_PAGES c) nr))"
  shows "\<exists>r. tree_roles c r s1 \<and>
           (\<forall>p \<in> set (brk s1 @ free_pages s1). r p = R_free) \<and>
           distinct (brk s1 @ free_pages s1) \<and>
           (\<forall>q < MAX_P2M_PFN c.
              get_phys_to_machine c s1 q = Inr (boot_lookup c ml nr s q)) \<and>
           free_pages s1 = free_pages s \<and> p2m_top_mfn s1 = p2m_top_mfn s \<and>
           auto_translated_physmap s1 = auto_translated_physmap s \<and>
           xen_max_p2m_pfn s1 = min (MAX_DOMAIN_PAGES c) nr"
proof -
  let ?n = "min (MAX_DOMAIN_PAGES c) nr"
  let ?B = "P2M_PER_PAGE c"
  from dyn_build_brk [OF res] obtain p1 p2 p3 ps where b: "brk s = p1 # p2 # p3 # ps"
    by blast
  let ?M = "fill_from p3 p2 (P2M_TOP_PER_PAGE c) 0
                    (fill_from p2 p1 (P2M_MID_PER_PAGE c) 0
                       (fill_from p1 INVALID_P2M_ENTRY (P2M_MID_PER_PAGE c) 0 (mem s)))"
  let ?s9 = "s\<lparr>xen_max_p2m_pfn := ?n, brk := ps,
           p2m_missing := p1, p2m_mid_missing := p2, p2m_top := p3, mem := ?M\<rparr>"
  have res9: "build_dynamic_loop c ml ?n 0 ?s9 = Inr s1"
    using res unfolding dyn_build_unfold [OF b] .
  have ne: "p1 \<noteq> p2" "p1 \<noteq> p3" "p2 \<noteq> p3"
    and nps: "p1 \<notin> set ps" "p2 \<notin> set ps" "p3 \<notin> set ps"
    and nfr: "p1 \<notin> set (free_pages s)" "p2 \<notin> set (free_pages s)" "p3 \<notin> set (free_pages s)"
    and npg: "p1 \<notin> set (boot_pages c ml ?n)" "p2 \<notin> set (boot_pages c ml ?n)"
      "p3 \<notin> set (boot_pages c ml ?n)"
    and dps: "distinct (ps @ free_pages s)"
    and dpg: "distinct (boot_pages c ml ?n)"
    and dis: "set (ps @ free_pages s) \<inter> set (boot_pages c ml ?n) = {}"
    using Dd unfolding b by auto
  have M: "?M a j = (if a = p3 \<and> j < P2M_TOP_PER_PAGE c then p2
                    else if a = p2 \<and> j < P2M_MID_PER_PAGE c then p1
                    else if a = p1 \<and> j < P2M_MID_PER_PAGE c then INVALID_P2M_ENTRY
                    else mem s a j)" for a j
    by (simp add: fill_from_apply)
  show ?thesis
  proof (cases "0 < ?B")
    case False
    then have z: "?B = 0" by simp
    then have mx: "MAX_P2M_PFN c = 0" by (simp add: MAX_P2M_PFN_def)
    have "\<not> 0 < ?n"
    proof
      assume "0 < ?n"
      then have "build_dynamic_loop c ml ?n 0 ?s9 = Inl BUG"
        by (rule dyn_bug) (simp add: mx)
      with res9 show False by simp
    qed
    then have e: "s1 = ?s9" using res9 by (simp add: dyn_done)
    let ?r = "\<lambda>a. if a = p1 then R_missing else if a = p2 then R_mid_missing
                   else if a = p3 then R_top else R_free"
    have "tree_roles c ?r ?s9"
      using ne z by (intro tree_rolesI) (simp_all add: fill_from_apply per_page_eq)
    moreover have "\<forall>p \<in> set (brk ?s9 @ free_pages ?s9). ?r p = R_free"
      using nps nfr by auto
    moreover have "distinct (brk ?s9 @ free_pages ?s9)" using dps by simp
    ultimately show ?thesis unfolding e by (intro exI [of _ ?r]) (simp add: mx)
  next
    case pos: True
    from leaf_roles_exist [OF dpg pos] obtain lr where
      lr: "\<And>q. q < ?n \<Longrightarrow> ?B dvd q \<Longrightarrow> lr (mfn_list_at ml q) =
             R_leaf (q div (P2M_MID_PER_PAGE c * P2M_PER_PAGE c)) (p2m_mid_index c q)"
      by blast
    let ?r = "\<lambda>a. if a = p1 then R_missing else if a = p2 then R_mid_missing
                   else if a = p3 then R_top
                   else if a \<in> set (boot_pages c ml ?n) then lr a else R_free"
    have pgm: "mfn_list_at ml q \<in> set (boot_pages c ml ?n)" if "q < ?n" "?B dvd q" for q
      by (rule boot_page_mem [OF that pos])
    have pgn: "mfn_list_at ml q \<noteq> p1" "mfn_list_at ml q \<noteq> p2" "mfn_list_at ml q \<noteq> p3"
      if "q < ?n" "?B dvd q" for q
      using pgm [OF that] npg by auto
    have r9: "tree_roles c ?r ?s9"
      using ne by (intro tree_rolesI) (simp_all add: fill_from_apply per_page_eq)
    have F9: "\<forall>p \<in> set (brk ?s9 @ free_pages ?s9). ?r p = R_free"
      using nps nfr dis by auto
    have D9: "distinct (brk ?s9 @ free_pages ?s9)" using dps by simp
    have d9: "?B dvd 0" by simp
    have lf9: "\<forall>q. 0 \<le> q \<and> q < ?n \<and> ?B dvd q \<longrightarrow>
           ?r (mfn_list_at ml q) =
             R_leaf (q div (P2M_MID_PER_PAGE c * P2M_PER_PAGE c)) (p2m_mid_index c q)"
      using pgm pgn lr by simp
    have un9: "\<forall>q < MAX_P2M_PFN c. 0 \<le> q \<longrightarrow> leaf_of c ?s9 q = p2m_missing ?s9"
    proof (intro allI impI)
      fix q assume q: "q < MAX_P2M_PFN c"
      show "leaf_of c ?s9 q = p2m_missing ?s9"
        using ne top_index_less [OF q] mid_index_less [OF q]
        by (simp add: leaf_of_def mid_of_def M)
    qed
    have ct9: "\<forall>q. 0 \<le> q \<and> q < ?n \<and> ?B dvd q \<longrightarrow>
           (\<forall>i. mem ?s9 (mfn_list_at ml q) i = mem s (mfn_list_at ml q) i)"
      using pgn by (simp add: M)
    have dn9: "\<forall>q < MAX_P2M_PFN c. q < 0 \<longrightarrow>
           get_phys_to_machine c ?s9 q =
             Inr (if q < ?n then mem s (mfn_list_at ml (q - q mod ?B)) (q mod ?B)
                  else INVALID_P2M_ENTRY)"
      by simp
    from dyn_loop_ok [OF res9 r9 F9 D9 d9 lf9 un9 ct9 dn9]
    obtain r' where r': "tree_roles c r' s1"
      "\<forall>p \<in> set (brk s1 @ free_pages s1). r' p = R_free"
      "distinct (brk s1 @ free_pages s1)"
      "\<forall>q < MAX_P2M_PFN c.
              get_phys_to_machine c s1 q =
                Inr (if q < ?n then mem s (mfn_list_at ml (q - q mod ?B)) (q mod ?B)
                     else INVALID_P2M_ENTRY)"
      "same_pointers ?s9 s1"
      by blast
    have "\<forall>q < MAX_P2M_PFN c. get_phys_to_machine c s1 q = Inr (boot_lookup c ml nr s q)"
      using r'(4) by (simp add: boot_lookup_def boot_mfn_def)
    then show ?thesis
      using r'(1-3,5) by (intro exI [of _ r']) (simp add: same_pointers_def)
  qed
qed


lemma tree_roles_upd:
  assumes r: "tree_roles c r s" and fr: "r p = R_free"
  shows "tree_roles c (r(p := x)) s"
proof -
  note D = tree_rolesD [OF r]
  note o = off_treeD [OF off_tree_free [OF r fr]]
  show ?thesis
  proof (rule tree_rolesI)
    show "(r(p := x)) (p2m_missing s) = R_missing"
      "(r(p := x)) (p2m_mid_missing s) = R_mid_missing"
      "(r(p := x)) (p2m_top s) = R_top"
      using D(1-3) o(1-3) by simp_all
  next
    fix t assume t: "t < P2M_TOP_PER_PAGE c"
      and "mem s (p2m_top s) t \<noteq> p2m_mid_missing s"
    then show "(r(p := x)) (mem s (p2m_top s) t) = R_mid t"
      using D(4) [OF t] o(4) [OF t] by auto
  next
    fix t m assume t: "t < P2M_TOP_PER_PAGE c" and m: "m < P2M_MID_PER_PAGE c"
      and "mem s (mem s (p2m_top s) t) m \<noteq> p2m_missing s"
    then show "(r(p := x)) (mem s (mem s (p2m_top s) t) m) = R_leaf t m"
      using D(5) [OF t m] o(5) [OF t m] by auto
  next
    show "\<And>i. i < P2M_MID_PER_PAGE c \<Longrightarrow> mem s (p2m_mid_missing s) i = p2m_missing s"
      by (rule D(6))
    show "\<And>i. i < P2M_PER_PAGE c \<Longrightarrow> mem s (p2m_missing s) i = INVALID_P2M_ENTRY"
      by (rule D(7))
  qed
qed

lemma roles_from_tree:
  assumes "tree_roles c r s"
    and "r (p2m_mid_missing_mfn s) = R_mid_missing_mfn"
    and "r (p2m_top_mfn s) = R_top_mfn"
    and "r (p2m_top_mfn_p s) = R_top_mfn_p"
    and "\<forall>t < P2M_TOP_PER_PAGE c.
        mem s (p2m_top_mfn_p s) t \<noteq> p2m_mid_missing_mfn s \<longrightarrow>
        r (mem s (p2m_top_mfn_p s) t) = R_mid_mfn t"
    and "\<forall>p \<in> set (free_pages s). r p = R_free \<and> p \<noteq> 0"
    and "distinct (free_pages s)"
  shows "p2m_roles c r s"
  using assms unfolding tree_roles_def p2m_roles_def by blast

lemma tree_roles_fields [simp]:
  "tree_roles c r (s\<lparr>p2m_mid_missing_mfn := a\<rparr>) = tree_roles c r s"
  "tree_roles c r (s\<lparr>p2m_top_mfn := a\<rparr>) = tree_roles c r s"
  "tree_roles c r (s\<lparr>p2m_top_mfn_p := a\<rparr>) = tree_roles c r s"
  by (simp_all add: tree_roles_def)

lemma off_tree_fields [simp]:
  "off_tree c (s\<lparr>p2m_mid_missing_mfn := a\<rparr>) q = off_tree c s q"
  "off_tree c (s\<lparr>p2m_top_mfn := a\<rparr>) q = off_tree c s q"
  "off_tree c (s\<lparr>p2m_top_mfn_p := a\<rparr>) q = off_tree c s q"
  "off_tree c (s\<lparr>brk := b\<rparr>) q = off_tree c s q"
  by (simp_all add: off_tree_def)

lemma get_fields [simp]:
  "get_phys_to_machine c (s\<lparr>p2m_mid_missing_mfn := a\<rparr>) q = get_phys_to_machine c s q"
  "get_phys_to_machine c (s\<lparr>p2m_top_mfn := a\<rparr>) q = get_phys_to_machine c s q"
  "get_phys_to_machine c (s\<lparr>p2m_top_mfn_p := a\<rparr>) q = get_phys_to_machine c s q"
  by (simp_all add: get_phys_to_machine_def Let_def split: sum.splits)

lemma mfn_init_brk:
  assumes "build_mfn_list_list_init c s = Inr s1" and "p2m_top_mfn s = 0"
  shows "\<exists>p1 p2 p3 ps. brk s = p1 # p2 # p3 # ps"
proof (cases "brk s")
  case Nil
  with assms show ?thesis
    by (simp add: build_mfn_list_list_init_def extend_brk_def Let_def)
next
  case 1: (Cons p1 l1)
  show ?thesis
  proof (cases l1)
    case Nil
    with assms 1 show ?thesis
      by (simp add: build_mfn_list_list_init_def extend_brk_def Let_def)
  next
    case 2: (Cons p2 l2)
    show ?thesis
    proof (cases l2)
      case Nil
      with assms 1 2 show ?thesis
        by (simp add: build_mfn_list_list_init_def extend_brk_def Let_def)
    next
      case (Cons p3 ps)
      with 1 2 show ?thesis by simp
    qed
  qed
qed

lemma mfn_init_unfold:
  assumes "brk s = p1 # p2 # p3 # ps" and "p2m_top_mfn s = 0"
  shows "build_mfn_list_list_init c s =
     Inr (s\<lparr>brk := ps, p2m_mid_missing_mfn := p1, p2m_top_mfn_p := p2, p2m_top_mfn := p3,
           mem := fill_from p3 (virt_to_mfn c p1) (P2M_TOP_PER_PAGE c) 0
                    (fill_from p2 p1 (P2M_TOP_PER_PAGE c) 0
                       (fill_from p1 (virt_to_mfn c (p2m_missing s))
                          (P2M_MID_PER_PAGE c) 0 (mem s)))\<rparr>)"
  using assms
  by (cases s)
     (simp add: build_mfn_list_list_init_def extend_brk_def Let_def
      p2m_mid_mfn_init_def p2m_top_mfn_p_init_def p2m_top_mfn_init_def)

lemma mfn_init_boot_ok:
  assumes res: "build_mfn_list_list_init c s = Inr s1" and z: "p2m_top_mfn s = 0"
    and r: "tree_roles c r s"
    and F: "\<forall>p \<in> set (brk s @ free_pages s). r p = R_free"
    and Dd: "distinct (brk s @ free_pages s)"
    and nz: "0 \<notin> set (free_pages s)"
  shows "\<exists>r1. p2m_roles c r1 s1 \<and> (\<forall>p \<in> set (brk s1). r1 p = R_free) \<and>
           distinct (brk s1 @ free_pages s1) \<and>
           (\<forall>q < MAX_P2M_PFN c. get_phys_to_machine c s1 q = get_phys_to_machine c s q) \<and>
           xen_max_p2m_pfn s1 = xen_max_p2m_pfn s \<and>
           auto_translated_physmap s1 = auto_translated_physmap s"
proof -
  from mfn_init_brk [OF res z] obtain p1 p2 p3 ps where b: "brk s = p1 # p2 # p3 # ps"
    by blast
  let ?M = "fill_from p3 (virt_to_mfn c p1) (P2M_TOP_PER_PAGE c) 0
                    (fill_from p2 p1 (P2M_TOP_PER_PAGE c) 0
                       (fill_from p1 (virt_to_mfn c (p2m_missing s))
                          (P2M_MID_PER_PAGE c) 0 (mem s)))"
  have e: "s1 = s\<lparr>brk := ps, p2m_mid_missing_mfn := p1, p2m_top_mfn_p := p2,
                   p2m_top_mfn := p3, mem := ?M\<rparr>"
    using res unfolding mfn_init_unfold [OF b z] by simp
  have ne: "p1 \<noteq> p2" "p1 \<noteq> p3" "p2 \<noteq> p3"
    and nps: "p1 \<notin> set ps" "p2 \<notin> set ps" "p3 \<notin> set ps"
    and nfr: "p1 \<notin> set (free_pages s)" "p2 \<notin> set (free_pages s)" "p3 \<notin> set (free_pages s)"
    and dps: "distinct (ps @ free_pages s)"
    using Dd unfolding b by auto
  have fr: "r p1 = R_free" "r p2 = R_free" "r p3 = R_free" using F b by simp_all
  let ?Ma = "fill_from p1 (virt_to_mfn c (p2m_missing s)) (P2M_MID_PER_PAGE c) 0 (mem s)"
  let ?Mb = "fill_from p2 p1 (P2M_TOP_PER_PAGE c) 0 ?Ma"
  let ?sa = "s\<lparr>mem := ?Ma\<rparr>"
  let ?sb = "?sa\<lparr>mem := ?Mb\<rparr>"
  let ?sc = "?sb\<lparr>mem := ?M\<rparr>"
  have o1: "off_tree c s p1" by (rule off_tree_free [OF r fr(1)])
  have Fa: "\<forall>a j. a \<noteq> p1 \<longrightarrow> ?Ma a j = mem s a j" by (simp add: fill_from_apply)
  have ra: "tree_roles c r ?sa" by (rule tree_frame [OF r o1 Fa])
  note la = lookup_off_tree(2) [OF o1 Fa]
  have o2: "off_tree c ?sa p2" by (rule off_tree_free [OF ra fr(2)])
  have Fb: "\<forall>a j. a \<noteq> p2 \<longrightarrow> ?Mb a j = mem ?sa a j" by (simp add: fill_from_apply)
  have rb: "tree_roles c r ?sb" by (rule tree_frame [OF ra o2 Fb])
  note lb = lookup_off_tree(2) [OF o2 Fb]
  have o3: "off_tree c ?sb p3" by (rule off_tree_free [OF rb fr(3)])
  have Fc: "\<forall>a j. a \<noteq> p3 \<longrightarrow> ?M a j = mem ?sb a j" by (simp add: fill_from_apply)
  have rc: "tree_roles c r ?sc" by (rule tree_frame [OF rb o3 Fc])
  note lc = lookup_off_tree(2) [OF o3 Fc]
  let ?r1 = "r(p1 := R_mid_missing_mfn, p2 := R_top_mfn_p, p3 := R_top_mfn)"
  have t1: "tree_roles c ?r1 ?sc"
    using ne by (intro tree_roles_upd rc) (auto simp: fr)
  have t1': "tree_roles c ?r1 s1"
    using t1 unfolding e tree_roles_def by simp
  have g: "p2m_mid_missing_mfn s1 = p1" "p2m_top_mfn_p s1 = p2" "p2m_top_mfn s1 = p3"
    "free_pages s1 = free_pages s" "brk s1 = ps" "mem s1 = ?M"
    unfolding e by simp_all
  have tp: "mem s1 (p2m_top_mfn_p s1) t = p2m_mid_missing_mfn s1"
    if "t < P2M_TOP_PER_PAGE c" for t
    unfolding g using that ne by (simp add: fill_from_apply)
  have 1: "p2m_roles c ?r1 s1"
  proof (rule roles_from_tree [OF t1'])
    show "?r1 (p2m_mid_missing_mfn s1) = R_mid_missing_mfn"
      "?r1 (p2m_top_mfn s1) = R_top_mfn" "?r1 (p2m_top_mfn_p s1) = R_top_mfn_p"
      unfolding g using ne by simp_all
    show "\<forall>t < P2M_TOP_PER_PAGE c.
        mem s1 (p2m_top_mfn_p s1) t \<noteq> p2m_mid_missing_mfn s1 \<longrightarrow>
        ?r1 (mem s1 (p2m_top_mfn_p s1) t) = R_mid_mfn t"
      using tp by simp
    show "\<forall>p \<in> set (free_pages s1). ?r1 p = R_free \<and> p \<noteq> 0"
      unfolding g using F nfr nz by auto
    show "distinct (free_pages s1)" unfolding g using dps by simp
  qed
  have 2: "\<forall>p \<in> set (brk s1). ?r1 p = R_free"
    unfolding g using F b nps by auto
  have 3: "distinct (brk s1 @ free_pages s1)" unfolding g by (rule dps)
  have 4: "get_phys_to_machine c s1 q = get_phys_to_machine c s q"
    if q: "q < MAX_P2M_PFN c" for q
  proof -
    have "get_phys_to_machine c s1 q = get_phys_to_machine c ?sc q"
      unfolding e by (simp add: get_phys_to_machine_def Let_def split: sum.splits)
    then show ?thesis using la [OF q] lb [OF q] lc [OF q] by simp
  qed
  have 5: "xen_max_p2m_pfn s1 = xen_max_p2m_pfn s"
    "auto_translated_physmap s1 = auto_translated_physmap s"
    unfolding e by simp_all
  show ?thesis using 1 2 3 4 5 by blast
qed


lemma p2m_roles_brk [simp]: "p2m_roles c r (s\<lparr>brk := b\<rparr>) = p2m_roles c r s"
  by (simp add: p2m_roles_def)

lemma loop_bug:
  "pfn < xen_max_p2m_pfn s \<Longrightarrow> \<not> pfn < MAX_P2M_PFN c \<Longrightarrow>
   build_mfn_list_list_loop c pfn s = Inl BUG"
  by (subst build_mfn_list_list_loop.simps) (simp add: p2m_top_index_def)

lemma loop_missing_bug:
  assumes "pfn < xen_max_p2m_pfn s" "pfn < MAX_P2M_PFN c"
    and "mem s (p2m_top s) (pfn div (P2M_MID_PER_PAGE c * P2M_PER_PAGE c)) = p2m_mid_missing s"
    and "p2m_mid_index c pfn \<noteq> 0 \<or>
         mem s (p2m_top_mfn_p s) (pfn div (P2M_MID_PER_PAGE c * P2M_PER_PAGE c)) \<noteq>
           p2m_mid_missing_mfn s"
  shows "build_mfn_list_list_loop c pfn s = Inl BUG"
  using assms
  by (subst build_mfn_list_list_loop.simps) (auto simp: top_index_Inr Let_def)

lemma loop_extend_bug:
  assumes "pfn < xen_max_p2m_pfn s" "pfn < MAX_P2M_PFN c"
    and "mem s (p2m_top s) (pfn div (P2M_MID_PER_PAGE c * P2M_PER_PAGE c)) \<noteq> p2m_mid_missing s"
    and "mem s (p2m_top_mfn_p s) (pfn div (P2M_MID_PER_PAGE c * P2M_PER_PAGE c)) =
           p2m_mid_missing_mfn s"
    and "brk s = []"
  shows "build_mfn_list_list_loop c pfn s = Inl BUG"
  using assms
  by (subst build_mfn_list_list_loop.simps) (simp add: top_index_Inr Let_def extend_brk_def)

lemma loop_extend:
  assumes "pfn < xen_max_p2m_pfn s" "pfn < MAX_P2M_PFN c"
    and "mem s (p2m_top s) (pfn div (P2M_MID_PER_PAGE c * P2M_PER_PAGE c)) \<noteq> p2m_mid_missing s"
    and "mem s (p2m_top_mfn_p s) (pfn div (P2M_MID_PER_PAGE c * P2M_PER_PAGE c)) =
           p2m_mid_missing_mfn s"
    and "brk s = p # ps"
  shows "build_mfn_list_list_loop c pfn s =
     build_mfn_list_list_loop c (pfn + P2M_PER_PAGE c)
       (s\<lparr>brk := ps,
           mem := store
             (store
                (store (fill_from p (virt_to_mfn c (p2m_missing s)) (P2M_MID_PER_PAGE c) 0 (mem s))
                   (p2m_top_mfn_p s) (pfn div (P2M_MID_PER_PAGE c * P2M_PER_PAGE c)) p)
                (p2m_top_mfn s) (pfn div (P2M_MID_PER_PAGE c * P2M_PER_PAGE c))
                (virt_to_mfn c p))
             p (p2m_mid_index c pfn)
             (virt_to_mfn c
                (store
                   (store (fill_from p (virt_to_mfn c (p2m_missing s))
                             (P2M_MID_PER_PAGE c) 0 (mem s))
                      (p2m_top_mfn_p s) (pfn div (P2M_MID_PER_PAGE c * P2M_PER_PAGE c)) p)
                   (p2m_top_mfn s) (pfn div (P2M_MID_PER_PAGE c * P2M_PER_PAGE c))
                   (virt_to_mfn c p)
                   (mem s (p2m_top s) (pfn div (P2M_MID_PER_PAGE c * P2M_PER_PAGE c)))
                   (p2m_mid_index c pfn)))\<rparr>)"
  using assms
  by (subst build_mfn_list_list_loop.simps)
     (simp add: top_index_Inr Let_def extend_brk_def p2m_mid_mfn_init_def)


lemma mirror_extend:
  assumes r: "p2m_roles c r s" and F: "\<forall>q \<in> set (brk s). r q = R_free"
    and Dd: "distinct (brk s @ free_pages s)"
    and t: "t < P2M_TOP_PER_PAGE c"
    and b: "brk s = p # ps"
  defines "s1 \<equiv> s\<lparr>brk := ps,
                  mem := store (fill_from p (virt_to_mfn c (p2m_missing s))
                                  (P2M_MID_PER_PAGE c) 0 (mem s))
                           (p2m_top_mfn_p s) t p\<rparr>"
  shows "p2m_roles c (r(p := R_mid_mfn t)) s1"
    and "\<And>q. q < MAX_P2M_PFN c \<Longrightarrow>
           get_phys_to_machine c s1 q = get_phys_to_machine c s q"
    and "mem s1 (p2m_top_mfn_p s1) t = p" and "p \<noteq> p2m_mid_missing_mfn s1"
    and "mem s1 (p2m_top s1) t = mem s (p2m_top s) t"
    and "\<And>j. mem s1 (mem s (p2m_top s) t) j = mem s (mem s (p2m_top s) t) j"
    and "\<forall>q \<in> set (brk s1). (r(p := R_mid_mfn t)) q = R_free"
    and "distinct (brk s1 @ free_pages s1)"
    and "xen_max_p2m_pfn s1 = xen_max_p2m_pfn s"
    and "auto_translated_physmap s1 = auto_translated_physmap s"
proof -
  let ?F = "fill_from p (virt_to_mfn c (p2m_missing s)) (P2M_MID_PER_PAGE c) 0 (mem s)"
  let ?sA = "s\<lparr>brk := ps\<rparr>"
  let ?sB = "?sA\<lparr>mem := ?F\<rparr>"
  have fr: "r p = R_free" using F b by simp
  have nf: "p \<notin> set (free_pages s)" and nps: "p \<notin> set ps"
    and dps: "distinct (ps @ free_pages s)"
    using Dd b by auto
  note fp = fresh_page [OF r fr]
  note g = roles_globals [OF r]
  note gn = global_neq [OF r]
  have rA: "p2m_roles c r ?sA" using r by simp
  have Fa: "?F a j = mem ?sA a j" if "a \<noteq> p" for a j
    using that by (simp add: fill_from_apply)
  have rB: "p2m_roles c r ?sB"
    by (rule roles_frame [OF rA, where p = p]) (simp_all add: fr Fa)
  have kB: "tree_kept c ?sA ?sB"
    by (rule tree_kept_frame [OF rA, where q = p]) (simp_all add: fr Fa)
  have e: "s1 = ?sB\<lparr>mem := store (mem ?sB) (p2m_top_mfn_p ?sB) t p\<rparr>"
    by (simp add: s1_def)
  have nfB: "p \<notin> set (free_pages ?sB)" using nf by simp
  show "p2m_roles c (r(p := R_mid_mfn t)) s1"
    unfolding e by (rule claim_mid_mfn [OF rB fr nfB t])
  have kC: "tree_kept c ?sB s1"
    unfolding e
    by (rule tree_kept_frame [OF rB, where q = "p2m_top_mfn_p s"]) (simp_all add: g store_apply)
  show "get_phys_to_machine c s1 q = get_phys_to_machine c s q" if "q < MAX_P2M_PFN c" for q
    using tree_kept_get [OF kC, of q] tree_kept_get [OF kB, of q] by simp
  show "mem s1 (p2m_top_mfn_p s1) t = p" by (simp add: s1_def store_apply)
  show "p \<noteq> p2m_mid_missing_mfn s1" using fp(3) by (simp add: s1_def)
  show "mem s1 (p2m_top s1) t = mem s (p2m_top s) t"
    using fp(4) gn(4) by (simp add: s1_def store_apply fill_from_apply)
  show "mem s1 (mem s (p2m_top s) t) j = mem s (mem s (p2m_top s) t) j" for j
    using fp(7) [OF t] mid_page_neq(3) [OF r t]
    by (simp add: s1_def store_apply fill_from_apply)
  show "\<forall>q \<in> set (brk s1). (r(p := R_mid_mfn t)) q = R_free"
    using F b nps by (auto simp: s1_def)
  show "distinct (brk s1 @ free_pages s1)" using dps by (simp add: s1_def)
  show "xen_max_p2m_pfn s1 = xen_max_p2m_pfn s"
    "auto_translated_physmap s1 = auto_translated_physmap s"
    by (simp_all add: s1_def)
qed

lemma mfn_loop_boot_ok:
  assumes "build_mfn_list_list_loop c pfn s = Inr s'"
    and "p2m_roles c r s" and "\<forall>q \<in> set (brk s). r q = R_free"
    and "distinct (brk s @ free_pages s)"
  shows "\<exists>r'. p2m_roles c r' s' \<and>
           (\<forall>q < MAX_P2M_PFN c. get_phys_to_machine c s' q = get_phys_to_machine c s q) \<and>
           auto_translated_physmap s' = auto_translated_physmap s \<and>
           xen_max_p2m_pfn s' = xen_max_p2m_pfn s"
  using assms
proof (induction "xen_max_p2m_pfn s - pfn" arbitrary: pfn s r rule: less_induct)
  case less
  note res = less.prems(1) and r = less.prems(2) and F = less.prems(3) and Dd = less.prems(4)
  let ?t = "pfn div (P2M_MID_PER_PAGE c * P2M_PER_PAGE c)"
  let ?m = "p2m_mid_index c pfn"
  show ?case
  proof (cases "pfn < xen_max_p2m_pfn s")
    case False
    with res have "s' = s" by (simp add: loop_done)
    with r show ?thesis by blast
  next
    case True
    have p: "pfn < MAX_P2M_PFN c"
    proof (rule ccontr)
      assume "\<not> pfn < MAX_P2M_PFN c"
      with res True show False by (simp add: loop_bug)
    qed
    have pos: "0 < P2M_PER_PAGE c" by (rule per_page_pos [OF p])
    have t: "?t < P2M_TOP_PER_PAGE c" by (rule top_index_less [OF p])
    have m: "?m < P2M_MID_PER_PAGE c" by (rule mid_index_less [OF p])
    have lt0: "xen_max_p2m_pfn s - (pfn + k) < xen_max_p2m_pfn s - pfn" if "0 < k" for k
      using True that by arith
    have fin: ?thesis
      if e: "build_mfn_list_list_loop c pfn s = build_mfn_list_list_loop c pfn1 s1"
        and lt: "xen_max_p2m_pfn s1 - pfn1 < xen_max_p2m_pfn s - pfn"
        and r1: "p2m_roles c r1 s1" and F1: "\<forall>q \<in> set (brk s1). r1 q = R_free"
        and D1: "distinct (brk s1 @ free_pages s1)"
        and g1: "\<And>q. q < MAX_P2M_PFN c \<Longrightarrow>
                   get_phys_to_machine c s1 q = get_phys_to_machine c s q"
        and a1: "auto_translated_physmap s1 = auto_translated_physmap s"
          "xen_max_p2m_pfn s1 = xen_max_p2m_pfn s"
      for pfn1 s1 r1
    proof -
      from res e have "build_mfn_list_list_loop c pfn1 s1 = Inr s'" by simp
      from less.hyps [OF lt this r1 F1 D1] show ?thesis using g1 a1 by auto
    qed
    show ?thesis
    proof (cases "mem s (p2m_top s) ?t = p2m_mid_missing s")
      case ms: True
      have ok: "\<not> (?m \<noteq> 0 \<or> mem s (p2m_top_mfn_p s) ?t \<noteq> p2m_mid_missing_mfn s)"
      proof
        assume "?m \<noteq> 0 \<or> mem s (p2m_top_mfn_p s) ?t \<noteq> p2m_mid_missing_mfn s"
        from loop_missing_bug [OF True p ms this] res show False by simp
      qed
      then have z: "?m = 0" and mm: "mem s (p2m_top_mfn_p s) ?t = p2m_mid_missing_mfn s"
        by blast+
      let ?s1 = "s\<lparr>mem := store (mem s) (p2m_top_mfn s) ?t
                            (virt_to_mfn c (p2m_mid_missing_mfn s))\<rparr>"
      note st = step_missing [OF r t ms]
      have npos: "0 < (P2M_MID_PER_PAGE c - 1) * P2M_PER_PAGE c + P2M_PER_PAGE c"
        using pos by simp
      show ?thesis
      proof (rule fin [OF loop_missing [OF True p ms z mm] _ st(1)])
        show "xen_max_p2m_pfn ?s1 -
                (pfn + (P2M_MID_PER_PAGE c - 1) * P2M_PER_PAGE c + P2M_PER_PAGE c)
              < xen_max_p2m_pfn s - pfn"
          using lt0 [OF npos] by (simp add: add.assoc)
        show "\<forall>q \<in> set (brk ?s1). r q = R_free" using F by simp
        show "distinct (brk ?s1 @ free_pages ?s1)" using Dd by simp
        show "\<And>q. get_phys_to_machine c ?s1 q = get_phys_to_machine c s q"
          by (rule tree_kept_get [OF st(2)])
      qed simp_all
    next
      case n: False
      show ?thesis
      proof (cases "mem s (p2m_top_mfn_p s) ?t = p2m_mid_missing_mfn s")
        case nm: False
        let ?s1 = "s\<lparr>mem := store (store (mem s) (p2m_top_mfn s) ?t
                                    (virt_to_mfn c (mem s (p2m_top_mfn_p s) ?t)))
                            (mem s (p2m_top_mfn_p s) ?t) ?m
                            (virt_to_mfn c (mem s (mem s (p2m_top s) ?t) ?m))\<rparr>"
        note st = step_alloc [OF r t m n nm]
        show ?thesis
        proof (rule fin [OF loop_alloc [OF True p n nm mid_page_neq(2) [OF r t]] _ st(1)])
          show "xen_max_p2m_pfn ?s1 - (pfn + P2M_PER_PAGE c) < xen_max_p2m_pfn s - pfn"
            using lt0 [OF pos] by simp
          show "\<forall>q \<in> set (brk ?s1). r q = R_free" using F by simp
          show "distinct (brk ?s1 @ free_pages ?s1)" using Dd by simp
          show "\<And>q. get_phys_to_machine c ?s1 q = get_phys_to_machine c s q"
            by (rule tree_kept_get [OF st(2)])
        qed simp_all
      next
        case mm: True
        obtain b0 ps where b: "brk s = b0 # ps"
        proof (cases "brk s")
          case Nil
          from loop_extend_bug [OF True p n mm Nil] res show ?thesis by simp
        next
          case (Cons x xs)
          then show ?thesis by (rule that)
        qed
        let ?sx = "s\<lparr>brk := ps,
                  mem := store (fill_from b0 (virt_to_mfn c (p2m_missing s))
                                  (P2M_MID_PER_PAGE c) 0 (mem s))
                           (p2m_top_mfn_p s) ?t b0\<rparr>"
        let ?rx = "r(b0 := R_mid_mfn ?t)"
        note x = mirror_extend [OF r F Dd t b]
        have nx: "mem ?sx (p2m_top ?sx) ?t \<noteq> p2m_mid_missing ?sx"
          unfolding x(5) using n by simp
        have nmx: "mem ?sx (p2m_top_mfn_p ?sx) ?t \<noteq> p2m_mid_missing_mfn ?sx"
          unfolding x(3) by (rule x(4))
        let ?s1 = "?sx\<lparr>mem := store (store (mem ?sx) (p2m_top_mfn ?sx) ?t
                                    (virt_to_mfn c (mem ?sx (p2m_top_mfn_p ?sx) ?t)))
                            (mem ?sx (p2m_top_mfn_p ?sx) ?t) ?m
                            (virt_to_mfn c (mem ?sx (mem ?sx (p2m_top ?sx) ?t) ?m))\<rparr>"
        note st = step_alloc [OF x(1) t m nx nmx]
        have topx: "mem ?sx (p2m_top s) ?t = mem s (p2m_top s) ?t" using x(5) by simp
        have tpx: "mem ?sx (p2m_top_mfn_p s) ?t = b0" using x(3) by simp
        have midx: "mem ?sx (mem s (p2m_top s) ?t) ?m = mem s (mem s (p2m_top s) ?t) ?m"
          by (rule x(6))
        have e: "build_mfn_list_list_loop c pfn s =
                 build_mfn_list_list_loop c (pfn + P2M_PER_PAGE c) ?s1"
          unfolding loop_extend [OF True p n mm b]
          using mid_page_neq(2) [OF r t] topx tpx midx
          by (simp add: store_apply)
        show ?thesis
        proof (rule fin [OF e _ st(1)])
          show "xen_max_p2m_pfn ?s1 - (pfn + P2M_PER_PAGE c) < xen_max_p2m_pfn s - pfn"
            using lt0 [OF pos] by simp
          show "\<forall>q \<in> set (brk ?s1). ?rx q = R_free" using x(7) by simp
          show "distinct (brk ?s1 @ free_pages ?s1)" using x(8) by simp
          show "get_phys_to_machine c ?s1 q = get_phys_to_machine c s q"
            if "q < MAX_P2M_PFN c" for q
            using tree_kept_get [OF st(2), of q] x(2) [OF that] by simp
        qed simp_all
      qed
    qed
  qed
qed


lemma boot_ok:
  assumes d: "xen_build_dynamic_phys_to_machine c ml nr s = Inr s1"
    and m: "xen_build_mfn_list_list c s1 = Inr s2"
    and Dd: "distinct (brk s @ free_pages s @ boot_pages c ml (min (MAX_DOMAIN_PAGES c) nr))"
    and nz: "0 \<notin> set (free_pages s)"
    and z: "p2m_top_mfn s = 0"
  shows "p2m_wf c s2"
    and "\<And>q. q < MAX_P2M_PFN c \<Longrightarrow>
           get_phys_to_machine c s2 q = Inr (boot_lookup c ml nr s q)"
    and "auto_translated_physmap s2 = auto_translated_physmap s"
    and "xen_max_p2m_pfn s2 = min (MAX_DOMAIN_PAGES c) nr"
proof -
  from dyn_build_ok [OF d Dd] obtain r where r: "tree_roles c r s1"
    and F: "\<forall>p \<in> set (brk s1 @ free_pages s1). r p = R_free"
    and D1: "distinct (brk s1 @ free_pages s1)"
    and g1: "\<And>q. q < MAX_P2M_PFN c \<Longrightarrow>
               get_phys_to_machine c s1 q = Inr (boot_lookup c ml nr s q)"
    and e1: "free_pages s1 = free_pages s" "p2m_top_mfn s1 = p2m_top_mfn s"
      "auto_translated_physmap s1 = auto_translated_physmap s"
      "xen_max_p2m_pfn s1 = min (MAX_DOMAIN_PAGES c) nr"
    by blast
  from m obtain si where i: "build_mfn_list_list_init c s1 = Inr si"
    and l: "build_mfn_list_list_loop c 0 si = Inr s2"
    by (auto simp: xen_build_mfn_list_list_def split: sum.splits)
  have z1: "p2m_top_mfn s1 = 0" using z e1 by simp
  have nz1: "0 \<notin> set (free_pages s1)" using nz e1 by simp
  from mfn_init_boot_ok [OF i z1 r F D1 nz1] obtain ri where ri: "p2m_roles c ri si"
    and Fi: "\<forall>p \<in> set (brk si). ri p = R_free"
    and Di: "distinct (brk si @ free_pages si)"
    and gi: "\<And>q. q < MAX_P2M_PFN c \<Longrightarrow>
               get_phys_to_machine c si q = get_phys_to_machine c s1 q"
    and ei: "xen_max_p2m_pfn si = xen_max_p2m_pfn s1"
      "auto_translated_physmap si = auto_translated_physmap s1"
    by blast
  from mfn_loop_boot_ok [OF l ri Fi Di] obtain r2 where r2: "p2m_roles c r2 s2"
    and g2: "\<And>q. q < MAX_P2M_PFN c \<Longrightarrow>
               get_phys_to_machine c s2 q = get_phys_to_machine c si q"
    and e2: "auto_translated_physmap s2 = auto_translated_physmap si"
      "xen_max_p2m_pfn s2 = xen_max_p2m_pfn si"
    by blast
  show "p2m_wf c s2" using r2 unfolding p2m_wf_def by blast
  show "get_phys_to_machine c s2 q = Inr (boot_lookup c ml nr s q)"
    if "q < MAX_P2M_PFN c" for q
    using g2 [OF that] gi [OF that] g1 [OF that] by simp
  show "auto_translated_physmap s2 = auto_translated_physmap s"
    using e2 ei e1 by simp
  show "xen_max_p2m_pfn s2 = min (MAX_DOMAIN_PAGES c) nr"
    using e2 ei e1 by simp
qed


lemma boot_one_page:
  "\<exists>s1 s. xen_build_dynamic_phys_to_machine cfg0 0x100 1 s_boot = Inr s1 \<and>
      xen_build_mfn_list_list cfg0 s1 = Inr s \<and>
      leaf_of cfg0 s 0 \<noteq> p2m_missing s \<and> \<not> auto_translated_physmap s"
  apply (simp add: xen_build_dynamic_phys_to_machine_def s_boot_def extend_brk_def Let_def)
  apply (simp add: build_dynamic_loop.simps p2m_top_index_def p2m_mid_index_def extend_brk_def
      Let_def p2m_top_init_def p2m_mid_init_def p2m_init_def fill_from_apply store_apply
      mfn_list_at_def sizeof_ulong_def)
  apply (simp add: xen_build_mfn_list_list_def build_mfn_list_list_init_def extend_brk_def Let_def)
  apply (simp add: build_mfn_list_list_loop.simps p2m_top_index_def p2m_mid_index_def
      extend_brk_def Let_def p2m_top_mfn_init_def p2m_top_mfn_p_init_def p2m_mid_mfn_init_def
      fill_from_apply store_apply leaf_of_def mid_of_def)
  done



section \<open>The claims about the p2m tree\<close>

text \<open>
  C3. For every pfn at or beyond \<open>MAX_P2M_PFN\<close>: \<open>get_phys_to_machine\<close> returns
  \<open>INVALID_P2M_ENTRY\<close> and, as a step, leaves the state as it was (it takes nothing
  from the page pool and writes nothing); \<open>__set_phys_to_machine\<close> returns true and
  leaves the state as it was when the mfn is \<open>INVALID_P2M_ENTRY\<close>, and hits its
  \<open>BUG_ON\<close> for every other mfn.
\<close>

theorem out_of_range_lookup_and_update:
  assumes "MAX_P2M_PFN c \<le> pfn"
  shows "get_phys_to_machine c s pfn = Inr INVALID_P2M_ENTRY \<and>
         p2m_step c s (Op_get pfn) = Inr s \<and>
         try_set_phys_to_machine c s pfn INVALID_P2M_ENTRY = Inr (True, s) \<and>
         (mfn \<noteq> INVALID_P2M_ENTRY \<longrightarrow> try_set_phys_to_machine c s pfn mfn = Inl BUG)"
  using assms by (simp add: get_out_of_range try_set_out_of_range)

theorem out_of_range_lookup_and_update_witness:
  "MAX_P2M_PFN cfg0 \<le> 8 \<and>
   get_phys_to_machine cfg0 s0 8 = Inr INVALID_P2M_ENTRY \<and>
   p2m_step cfg0 s0 (Op_get 8) = Inr s0 \<and>
   try_set_phys_to_machine cfg0 s0 8 INVALID_P2M_ENTRY = Inr (True, s0) \<and>
   try_set_phys_to_machine cfg0 s0 8 5 = Inl BUG"
proof -
  have h: "MAX_P2M_PFN cfg0 \<le> 8" by simp
  have "(5 :: ulong) \<noteq> INVALID_P2M_ENTRY" by (simp add: INVALID_P2M_ENTRY_def)
  with out_of_range_lookup_and_update [OF h, of s0 5] h show ?thesis by blast
qed

text \<open>
  C4. For every pfn below \<open>MAX_P2M_PFN\<close>, on a well-formed tree:
  \<open>__set_phys_to_machine\<close> returns false exactly when the mid page or the leaf that
  covers the pfn is still the missing placeholder and the mfn is not
  \<open>INVALID_P2M_ENTRY\<close>; when the covering level is the placeholder and the mfn is
  \<open>INVALID_P2M_ENTRY\<close> it returns true and writes nothing; when the leaf is allocated
  it returns true, and after it the slot \<open>p2m_index(pfn)\<close> of the leaf holds the mfn,
  every other word of memory holds what it held, the leaf is the page it was, and
  \<open>get_phys_to_machine\<close> returns the mfn at this pfn and what it returned before at
  every other.
\<close>

theorem try_set_in_range_result:
  assumes "p2m_wf c s" and "pfn < MAX_P2M_PFN c"
  shows "((\<exists>s'. try_set_phys_to_machine c s pfn mfn = Inr (False, s')) \<longleftrightarrow>
            (mid_of c s pfn = p2m_mid_missing s \<or> leaf_of c s pfn = p2m_missing s) \<and>
            mfn \<noteq> INVALID_P2M_ENTRY) \<and>
         ((mid_of c s pfn = p2m_mid_missing s \<or> leaf_of c s pfn = p2m_missing s) \<and>
            mfn = INVALID_P2M_ENTRY \<longrightarrow>
            try_set_phys_to_machine c s pfn mfn = Inr (True, s)) \<and>
         (mid_of c s pfn \<noteq> p2m_mid_missing s \<and> leaf_of c s pfn \<noteq> p2m_missing s \<longrightarrow>
            (\<exists>s'. try_set_phys_to_machine c s pfn mfn = Inr (True, s') \<and>
               mem s' (leaf_of c s pfn) (p2m_index c pfn) = mfn \<and>
               (\<forall>a i. (a, i) \<noteq> (leaf_of c s pfn, p2m_index c pfn) \<longrightarrow>
                  mem s' a i = mem s a i) \<and>
               same_globals s s' \<and> free_pages s' = free_pages s \<and>
               leaf_of c s' pfn = leaf_of c s pfn \<and>
               get_phys_to_machine c s' pfn = Inr mfn \<and>
               (\<forall>pfn'. pfn' \<noteq> pfn \<longrightarrow>
                  get_phys_to_machine c s' pfn' = get_phys_to_machine c s pfn')))"
proof -
  from assms(1) obtain r where r: "p2m_roles c r s"
    unfolding p2m_wf_def by blast
  have ml: "leaf_of c s pfn = p2m_missing s" if "mid_of c s pfn = p2m_mid_missing s"
    using roles_mid_missing_leaf [OF r assms(2) that] .
  have 1: "(\<exists>s'. try_set_phys_to_machine c s pfn mfn = Inr (False, s')) \<longleftrightarrow>
            (mid_of c s pfn = p2m_mid_missing s \<or> leaf_of c s pfn = p2m_missing s) \<and>
            mfn \<noteq> INVALID_P2M_ENTRY"
    using ml by (auto simp: try_set_in_range [OF assms(2)])
  have 2: "(mid_of c s pfn = p2m_mid_missing s \<or> leaf_of c s pfn = p2m_missing s) \<and>
            mfn = INVALID_P2M_ENTRY \<longrightarrow>
            try_set_phys_to_machine c s pfn mfn = Inr (True, s)"
    using ml by (auto simp: try_set_in_range [OF assms(2)])
  have 3: "\<exists>s'. try_set_phys_to_machine c s pfn mfn = Inr (True, s') \<and>
               mem s' (leaf_of c s pfn) (p2m_index c pfn) = mfn \<and>
               (\<forall>a i. (a, i) \<noteq> (leaf_of c s pfn, p2m_index c pfn) \<longrightarrow>
                  mem s' a i = mem s a i) \<and>
               same_globals s s' \<and> free_pages s' = free_pages s \<and>
               leaf_of c s' pfn = leaf_of c s pfn \<and>
               get_phys_to_machine c s' pfn = Inr mfn \<and>
               (\<forall>pfn'. pfn' \<noteq> pfn \<longrightarrow>
                  get_phys_to_machine c s' pfn' = get_phys_to_machine c s pfn')"
    if l: "leaf_of c s pfn \<noteq> p2m_missing s"
  proof -
    let ?s' = "s\<lparr>mem := store (mem s) (leaf_of c s pfn) (p2m_index c pfn) mfn\<rparr>"
    have a: "try_set_phys_to_machine c s pfn mfn = Inr (True, ?s')"
      using l by (simp add: try_set_in_range [OF assms(2)])
    note o = try_set_ok [OF r a]
    have b: "mem ?s' (leaf_of c s pfn) (p2m_index c pfn) = mfn"
      by (simp add: store_apply)
    have c: "\<forall>a i. (a, i) \<noteq> (leaf_of c s pfn, p2m_index c pfn) \<longrightarrow>
               mem ?s' a i = mem s a i"
      by (simp add: store_apply)
    have d: "leaf_of c ?s' pfn = leaf_of c s pfn"
      by (rule leaf_of_store_leaf [OF r assms(2) assms(2) l])
    have e: "free_pages ?s' = free_pages s" by simp
    show ?thesis
      using a b c d e o(2) o(4) o(5) by blast
  qed
  show ?thesis using 1 2 3 by blast
qed

theorem try_set_in_range_result_witness:
  "p2m_wf cfg0 s0 \<and> 0 < MAX_P2M_PFN cfg0 \<and> 2 < MAX_P2M_PFN cfg0 \<and> 4 < MAX_P2M_PFN cfg0 \<and>
   (\<exists>s'. try_set_phys_to_machine cfg0 s0 0 5 = Inr (True, s') \<and>
      mem s' 0x100 0 = 5 \<and> mem s' 0x100 1 = 9 \<and>
      get_phys_to_machine cfg0 s' 0 = Inr 5 \<and> get_phys_to_machine cfg0 s' 1 = Inr 9) \<and>
   (\<exists>s'. try_set_phys_to_machine cfg0 s0 2 5 = Inr (False, s')) \<and>
   try_set_phys_to_machine cfg0 s0 4 INVALID_P2M_ENTRY = Inr (True, s0)"
proof -
  have h0: "0 < MAX_P2M_PFN cfg0" and h2: "2 < MAX_P2M_PFN cfg0" and h4: "4 < MAX_P2M_PFN cfg0"
    by simp_all
  have m0: "mid_of cfg0 s0 0 = 0x40" "leaf_of cfg0 s0 0 = 0x100" "p2m_index cfg0 0 = 0"
    by (simp_all add: leaf_of_def mid_of_def p2m_mid_index_def p2m_index_def s0_def mem0_def)
  have m2: "leaf_of cfg0 s0 2 = p2m_missing s0"
    by (simp add: leaf_of_def mid_of_def p2m_mid_index_def s0_def mem0_def)
  have m4: "mid_of cfg0 s0 4 = p2m_mid_missing s0"
    by (simp add: mid_of_def s0_def mem0_def)
  have g: "p2m_mid_missing s0 = 0x20" "p2m_missing s0 = 0x10"
    by (simp_all add: s0_def)
  have n5: "(5 :: ulong) \<noteq> INVALID_P2M_ENTRY" by (simp add: INVALID_P2M_ENTRY_def)
  have old: "mem s0 0x100 1 = 9" "get_phys_to_machine cfg0 s0 1 = Inr 9"
    by (simp_all add: get_phys_to_machine_def p2m_top_index_def p2m_mid_index_def
        p2m_index_def s0_def mem0_def)
  from try_set_in_range_result [OF wf0 h0, of 5] m0 g
  obtain s' where s': "try_set_phys_to_machine cfg0 s0 0 5 = Inr (True, s')"
    "mem s' 0x100 0 = 5"
    "\<And>a i. (a, i) \<noteq> (0x100, 0) \<Longrightarrow> mem s' a i = mem s0 a i"
    "get_phys_to_machine cfg0 s' 0 = Inr 5"
    "\<And>pfn'. pfn' \<noteq> 0 \<Longrightarrow> get_phys_to_machine cfg0 s' pfn' = get_phys_to_machine cfg0 s0 pfn'"
    by auto
  have a: "\<exists>s'. try_set_phys_to_machine cfg0 s0 0 5 = Inr (True, s') \<and>
      mem s' 0x100 0 = 5 \<and> mem s' 0x100 1 = 9 \<and>
      get_phys_to_machine cfg0 s' 0 = Inr 5 \<and> get_phys_to_machine cfg0 s' 1 = Inr 9"
    using s'(1,2,4) s'(3) [of "0x100" 1] s'(5) [of 1] old
    by (intro exI [of _ s']) simp
  have b: "\<exists>s'. try_set_phys_to_machine cfg0 s0 2 5 = Inr (False, s')"
    using try_set_in_range_result [OF wf0 h2, of 5] m2 n5 by blast
  have c: "try_set_phys_to_machine cfg0 s0 4 INVALID_P2M_ENTRY = Inr (True, s0)"
    using try_set_in_range_result [OF wf0 h4, of INVALID_P2M_ENTRY] m4 by blast
  show ?thesis using wf0 h0 h2 h4 a b c by blast
qed

text \<open>
  C1. On a well-formed tree of a guest that is not auto-translated: if
  \<open>set_phys_to_machine(pfn, mfn)\<close> returns true, then \<open>get_phys_to_machine(pfn)\<close>
  returns \<open>mfn\<close> right after it, and still does after any further calls of
  \<open>set_phys_to_machine\<close> of which none is a successful call at \<open>pfn\<close> (calls at other
  pfns, and failed calls at \<open>pfn\<close>).
\<close>

theorem set_get_round_trip:
  assumes "p2m_wf c s" and "\<not> auto_translated_physmap s"
    and "set_phys_to_machine c s pfn mfn = Inr (True, s1)"
    and "kept c pfn s1 s2"
  shows "get_phys_to_machine c s2 pfn = Inr mfn"
proof -
  from assms(1) obtain r where r: "p2m_roles c r s" unfolding p2m_wf_def by blast
  note o = set_ok [OF r assms(2,3)]
  have w1: "p2m_wf c s1" using o(1) unfolding p2m_wf_def by blast
  have "get_phys_to_machine c s2 pfn = get_phys_to_machine c s1 pfn"
    using kept_inv [OF assms(4) w1] by blast
  then show ?thesis using o(3) by simp
qed

theorem set_get_round_trip_witness:
  "p2m_wf cfg0 s0 \<and> \<not> auto_translated_physmap s0 \<and>
   (\<exists>s1 s2. set_phys_to_machine cfg0 s0 2 5 = Inr (True, s1) \<and>
      set_phys_to_machine cfg0 s1 0 6 = Inr (True, s2) \<and>
      kept cfg0 2 s1 s2 \<and>
      get_phys_to_machine cfg0 s1 2 = Inr 5 \<and>
      get_phys_to_machine cfg0 s2 2 = Inr 5)"
proof -
  have na: "\<not> auto_translated_physmap s0" by (simp add: s0_def)
  define s1 where "s1 = s0\<lparr>free_pages := [0x510, 0x520],
       mem := store (store (store (fill_from 0x500 INVALID_P2M_ENTRY 2 0 mem0)
                              0x40 1 0x500) 0x80 1 (0x500 + 4096)) 0x500 0 5\<rparr>"
  have a: "set_phys_to_machine cfg0 s0 2 5 = Inr (True, s1)"
    unfolding s1_def by (rule s0_set_2)
  have na1: "\<not> auto_translated_physmap s1" by (simp add: s1_def s0_def)
  have l1: "leaf_of cfg0 s1 0 \<noteq> p2m_missing s1"
    by (simp add: s1_def s0_def mem0_def leaf_of_def mid_of_def p2m_mid_index_def
        store_apply fill_from_apply)
  define s2 where "s2 = s1\<lparr>mem := store (mem s1) (leaf_of cfg0 s1 0) (p2m_index cfg0 0) 6\<rparr>"
  have b: "set_phys_to_machine cfg0 s1 0 6 = Inr (True, s2)"
    unfolding s2_def by (rule set_allocated [OF na1 _ l1]) simp
  have k: "kept cfg0 2 s1 s2"
    by (rule kept_step [OF kept_refl b]) simp
  show ?thesis
    using wf0 na a b k set_get_round_trip [OF wf0 na a kept_refl]
      set_get_round_trip [OF wf0 na a k]
    by blast
qed

theorem set_get_auto_translated_counterexample:
  "p2m_wf cfg0 (s0\<lparr>auto_translated_physmap := True\<rparr>) \<and> (1 :: nat) < MAX_P2M_PFN cfg0 \<and>
   set_phys_to_machine cfg0 (s0\<lparr>auto_translated_physmap := True\<rparr>) 1 1 =
     Inr (True, s0\<lparr>auto_translated_physmap := True\<rparr>) \<and>
   get_phys_to_machine cfg0 (s0\<lparr>auto_translated_physmap := True\<rparr>) 1 = Inr 9 \<and>
   (9 :: ulong) \<noteq> 1"
proof -
  have "p2m_wf cfg0 (s0\<lparr>auto_translated_physmap := True\<rparr>)"
    unfolding p2m_wf_def using roles0 by (auto intro: exI [of _ roles0])
  moreover have "set_phys_to_machine cfg0 (s0\<lparr>auto_translated_physmap := True\<rparr>) 1 1 =
     Inr (True, s0\<lparr>auto_translated_physmap := True\<rparr>)"
    by (simp add: set_phys_to_machine_def)
  moreover have "get_phys_to_machine cfg0 (s0\<lparr>auto_translated_physmap := True\<rparr>) 1 = Inr 9"
    by (simp add: get_phys_to_machine_def p2m_top_index_def p2m_mid_index_def p2m_index_def
        s0_def mem0_def)
  ultimately show ?thesis by simp
qed

text \<open>
  C5. Let the tree be the one that \<open>xen_build_dynamic_phys_to_machine\<close> and
  \<open>xen_build_mfn_list_list\<close> build at boot, from a state in which the pages of the brk
  area, of the page pool and of \<open>mfn_list\<close> are all different pages. After any sequence
  of calls of \<open>get_phys_to_machine\<close>, \<open>__set_phys_to_machine\<close>, \<open>set_phys_to_machine\<close>
  and \<open>alloc_p2m\<close> that runs to its end: \<open>p2m_missing\<close> and \<open>p2m_mid_missing\<close> are the
  pages they were, every entry of \<open>p2m_missing\<close> is \<open>INVALID_P2M_ENTRY\<close> and every entry
  of \<open>p2m_mid_missing\<close> is \<open>p2m_missing\<close>; and for every pfn below \<open>MAX_P2M_PFN\<close> that
  no call of the sequence set, \<open>get_phys_to_machine\<close> returns \<open>INVALID_P2M_ENTRY\<close>
  when the pfn is at or above \<open>min(MAX_DOMAIN_PAGES, nr_pages)\<close>, and the entry
  \<open>mfn_list[pfn]\<close> of the domain builder when it is below.
\<close>

theorem placeholders_never_written:
  assumes "xen_build_dynamic_phys_to_machine c ml nr sb = Inr s1"
    and "xen_build_mfn_list_list c s1 = Inr s"
    and "distinct (brk sb @ free_pages sb @ boot_pages c ml (min (MAX_DOMAIN_PAGES c) nr))"
    and "0 \<notin> set (free_pages sb)"
    and "p2m_top_mfn sb = 0"
    and "p2m_run c s ops = Inr s'"
  shows "p2m_missing s' = p2m_missing s \<and> p2m_mid_missing s' = p2m_mid_missing s \<and>
         (\<forall>i < P2M_PER_PAGE c. mem s' (p2m_missing s) i = INVALID_P2M_ENTRY) \<and>
         (\<forall>i < P2M_MID_PER_PAGE c. mem s' (p2m_mid_missing s) i = p2m_missing s) \<and>
         (\<forall>pfn < MAX_P2M_PFN c. pfn \<notin> set_targets ops \<longrightarrow>
            get_phys_to_machine c s' pfn =
              Inr (if pfn < min (MAX_DOMAIN_PAGES c) nr then boot_mfn c ml sb pfn
                   else INVALID_P2M_ENTRY))"
proof -
  note b = boot_ok [OF assms(1-5)]
  note o = p2m_run_ok [OF b(1) assms(6)]
  from o have g: "p2m_missing s' = p2m_missing s" "p2m_mid_missing s' = p2m_mid_missing s"
    by (simp_all add: same_globals_def)
  from o have w: "p2m_wf c s'" by blast
  have "get_phys_to_machine c s' pfn =
              Inr (if pfn < min (MAX_DOMAIN_PAGES c) nr then boot_mfn c ml sb pfn
                   else INVALID_P2M_ENTRY)"
    if "pfn < MAX_P2M_PFN c" "pfn \<notin> set_targets ops" for pfn
    using o that(2) b(2) [OF that(1)] by (simp add: boot_lookup_def)
  then show ?thesis
    using g wf_placeholders [OF w] by simp
qed


theorem placeholders_never_written_witness:
  "\<exists>s1 s s'.
     xen_build_dynamic_phys_to_machine cfg0 0x100 1 s_boot = Inr s1 \<and>
     xen_build_mfn_list_list cfg0 s1 = Inr s \<and>
     distinct (brk s_boot @ free_pages s_boot @
       boot_pages cfg0 0x100 (min (MAX_DOMAIN_PAGES cfg0) 1)) \<and>
     0 \<notin> set (free_pages s_boot) \<and> p2m_top_mfn s_boot = 0 \<and>
     p2m_run cfg0 s [Op_set 0 5, Op_get 1] = Inr s' \<and>
     mem s' (p2m_missing s) 0 = INVALID_P2M_ENTRY \<and>
     mem s' (p2m_mid_missing s) 1 = p2m_missing s \<and>
     get_phys_to_machine cfg0 s' 1 = Inr INVALID_P2M_ENTRY \<and>
     get_phys_to_machine cfg0 s' 6 = Inr INVALID_P2M_ENTRY"
proof -
  from boot_one_page obtain s1 s where
    d: "xen_build_dynamic_phys_to_machine cfg0 0x100 1 s_boot = Inr s1"
    and m: "xen_build_mfn_list_list cfg0 s1 = Inr s"
    and l: "leaf_of cfg0 s 0 \<noteq> p2m_missing s" and na: "\<not> auto_translated_physmap s"
    by blast
  have Dd: "distinct (brk s_boot @ free_pages s_boot @
       boot_pages cfg0 0x100 (min (MAX_DOMAIN_PAGES cfg0) 1))"
    by (simp add: s_boot_def boot_pages_def mfn_list_at_def)
  have nz: "0 \<notin> set (free_pages s_boot)" by (simp add: s_boot_def)
  have z: "p2m_top_mfn s_boot = 0" by (simp add: s_boot_def)
  let ?s' = "s\<lparr>mem := store (mem s) (leaf_of cfg0 s 0) (p2m_index cfg0 0) 5\<rparr>"
  have 1: "set_phys_to_machine cfg0 s 0 5 = Inr (True, ?s')"
    by (rule set_allocated [OF na _ l]) simp
  have run: "p2m_run cfg0 s [Op_set 0 5, Op_get 1] = Inr ?s'"
    by (simp add: 1 get_in_range)
  note t = placeholders_never_written [OF d m Dd nz z run]
  have a: "mem ?s' (p2m_missing s) 0 = INVALID_P2M_ENTRY"
    "mem ?s' (p2m_mid_missing s) 1 = p2m_missing s"
    using t by simp_all
  have b: "get_phys_to_machine cfg0 ?s' 1 = Inr INVALID_P2M_ENTRY"
    "get_phys_to_machine cfg0 ?s' 6 = Inr INVALID_P2M_ENTRY"
    using t by simp_all
  show ?thesis using d m Dd nz z run a b by blast
qed


theorem never_set_lookup_counterexample:
  "(case xen_build_dynamic_phys_to_machine cfg0 0x100 2 s_boot of
      Inl e \<Rightarrow> Inl e | Inr s \<Rightarrow> xen_build_mfn_list_list cfg0 s) = Inr s0 \<and>
   p2m_wf cfg0 s0 \<and> (0 :: nat) < MAX_P2M_PFN cfg0 \<and>
   get_phys_to_machine cfg0 s0 0 = Inr 7 \<and> (7 :: ulong) \<noteq> INVALID_P2M_ENTRY"
proof -
  have "get_phys_to_machine cfg0 s0 0 = Inr 7"
    by (simp add: get_phys_to_machine_def p2m_top_index_def p2m_mid_index_def
        p2m_index_def s0_def mem0_def)
  moreover have "(7 :: ulong) \<noteq> INVALID_P2M_ENTRY" by (simp add: INVALID_P2M_ENTRY_def)
  ultimately show ?thesis using boot_reaches_s0 wf0 by simp
qed




text \<open>
  C8. On a well-formed tree whose mfn tree exists and has a mid page exactly where the
  p2m tree has one, with \<open>xen_max_p2m_pfn\<close> within the tree, after any sequence of calls
  of \<open>set_phys_to_machine\<close> that all returned true: \<open>xen_build_mfn_list_list\<close> returns,
  it leaves every lookup as it was, and after it, for every pfn below
  \<open>xen_max_p2m_pfn\<close>: where the mid page is allocated, \<open>p2m_top_mfn[topidx]\<close> is the mfn
  of the mid mfn page and its entry \<open>mididx\<close> is the mfn of the leaf; where the mid page
  is \<open>p2m_mid_missing\<close>, \<open>p2m_top_mfn[topidx]\<close> is the mfn of \<open>p2m_mid_missing_mfn\<close>.
  Nothing is assumed of the entries of the mfn tree before the call (the mfns may all
  have changed): they are written again.
\<close>

theorem build_mfn_list_list_result:
  assumes "p2m_wf c s" and "mfn_shape c s" and "p2m_top_mfn s \<noteq> 0"
    and "xen_max_p2m_pfn s \<le> MAX_P2M_PFN c"
    and "set_seq c s xs = Inr (True, s1)"
  shows "\<exists>s'. xen_build_mfn_list_list c s1 = Inr s' \<and> p2m_wf c s' \<and> tree_kept c s1 s' \<and>
           (\<forall>pfn < xen_max_p2m_pfn s1. mirror_at c s' pfn)"
proof -
  from set_seq_ok [OF assms(1,2,5)]
  have w1: "p2m_wf c s1" and sh1: "mfn_shape c s1" and g: "same_globals s s1" by blast+
  from g assms(3,4) have n1: "p2m_top_mfn s1 \<noteq> 0"
    and mx1: "xen_max_p2m_pfn s1 \<le> MAX_P2M_PFN c"
    by (simp_all add: same_globals_def)
  from w1 obtain r where r: "p2m_roles c r s1" unfolding p2m_wf_def by blast
  let ?s2 = "s1\<lparr>mem := fill_from (p2m_mid_missing_mfn s1) (virt_to_mfn c (p2m_missing s1))
                              (P2M_MID_PER_PAGE c) 0 (mem s1)\<rparr>"
  note i = init_again [OF r n1]
  have mx: "xen_max_p2m_pfn ?s2 \<le> MAX_P2M_PFN c" using mx1 by simp
  have d: "P2M_PER_PAGE c dvd 0" by simp
  have bs: "mem ?s2 (p2m_top ?s2) (0 div (P2M_MID_PER_PAGE c * P2M_PER_PAGE c)) =
              p2m_mid_missing ?s2 \<longrightarrow> p2m_mid_index c 0 = 0"
    by (simp add: p2m_mid_index_def)
  from loop_ok [OF i(2) i(4) [OF sh1] mx d bs]
  obtain s' where s': "build_mfn_list_list_loop c 0 ?s2 = Inr s'" "p2m_roles c r s'"
    "tree_kept c ?s2 s'" "\<And>q. q < xen_max_p2m_pfn s1 \<Longrightarrow> mirror_at c s' q"
    by auto
  have "xen_build_mfn_list_list c s1 = Inr s'"
    using i(1) s'(1) by (simp add: xen_build_mfn_list_list_def)
  moreover have "p2m_wf c s'" using s'(2) unfolding p2m_wf_def by blast
  moreover have "tree_kept c s1 s'" by (rule tree_kept_trans [OF i(3) s'(3)])
  ultimately show ?thesis using s'(4) by blast
qed

theorem build_mfn_list_list_result_witness:
  "p2m_wf (cfg0\<lparr>virt_to_mfn := (\<lambda>a. a + 8192)\<rparr>) (s0\<lparr>xen_max_p2m_pfn := 8\<rparr>) \<and>
   mfn_shape (cfg0\<lparr>virt_to_mfn := (\<lambda>a. a + 8192)\<rparr>) (s0\<lparr>xen_max_p2m_pfn := 8\<rparr>) \<and>
   p2m_top_mfn (s0\<lparr>xen_max_p2m_pfn := 8\<rparr>) \<noteq> 0 \<and>
   xen_max_p2m_pfn (s0\<lparr>xen_max_p2m_pfn := 8\<rparr>) \<le>
     MAX_P2M_PFN (cfg0\<lparr>virt_to_mfn := (\<lambda>a. a + 8192)\<rparr>) \<and>
   (\<exists>s1 s'. set_seq (cfg0\<lparr>virt_to_mfn := (\<lambda>a. a + 8192)\<rparr>)
              (s0\<lparr>xen_max_p2m_pfn := 8\<rparr>) [(0, 6), (1, 8)] = Inr (True, s1) \<and>
      xen_build_mfn_list_list (cfg0\<lparr>virt_to_mfn := (\<lambda>a. a + 8192)\<rparr>) s1 = Inr s' \<and>
      mirror_at (cfg0\<lparr>virt_to_mfn := (\<lambda>a. a + 8192)\<rparr>) s' 0 \<and>
            mirror_at (cfg0\<lparr>virt_to_mfn := (\<lambda>a. a + 8192)\<rparr>) s' 5)"
proof -
  let ?c = "cfg0\<lparr>virt_to_mfn := (\<lambda>a. a + 8192)\<rparr>"
  let ?s = "s0\<lparr>xen_max_p2m_pfn := 8\<rparr>"
  have per: "P2M_PER_PAGE ?c = 2" "P2M_MID_PER_PAGE ?c = 2" "P2M_TOP_PER_PAGE ?c = 2"
    "MAX_P2M_PFN ?c = 8"
    by (simp_all add: cfg0_def P2M_PER_PAGE_def P2M_MID_PER_PAGE_def P2M_TOP_PER_PAGE_def
        MAX_P2M_PFN_def sizeof_ulong_def sizeof_ptr_def)
  have w: "p2m_wf ?c ?s"
    unfolding p2m_wf_def using roles0 by (auto intro: exI [of _ roles0])
  have sh: "mfn_shape ?c ?s"
    using shape0 unfolding mfn_shape_def per cfg0_per by simp
  have n: "p2m_top_mfn ?s \<noteq> 0" by (simp add: s0_def)
  have mx: "xen_max_p2m_pfn ?s \<le> MAX_P2M_PFN ?c" by (simp add: per)
  have "\<exists>s1. set_seq ?c ?s [(0, 6), (1, 8)] = Inr (True, s1)"
  proof -
    have na: "\<not> auto_translated_physmap ?s" by (simp add: s0_def)
    have l0: "leaf_of ?c ?s 0 \<noteq> p2m_missing ?s"
      by (simp add: s0_def mem0_def leaf_of_def mid_of_def p2m_mid_index_def per)
    let ?s1 = "?s\<lparr>mem := store (mem ?s) (leaf_of ?c ?s 0) (p2m_index ?c 0) 6\<rparr>"
    have 1: "set_phys_to_machine ?c ?s 0 6 = Inr (True, ?s1)"
      by (rule set_allocated [OF na _ l0]) (simp add: per)
    have na1: "\<not> auto_translated_physmap ?s1" by (simp add: s0_def)
    have l1: "leaf_of ?c ?s1 1 \<noteq> p2m_missing ?s1"
      by (simp add: s0_def mem0_def leaf_of_def mid_of_def p2m_mid_index_def per store_apply)
    have 2: "set_phys_to_machine ?c ?s1 1 8 =
       Inr (True, ?s1\<lparr>mem := store (mem ?s1) (leaf_of ?c ?s1 1) (p2m_index ?c 1) 8\<rparr>)"
      by (rule set_allocated [OF na1 _ l1]) (simp add: per)
    show ?thesis using 1 2 by simp
  qed
  then obtain s1 where s1: "set_seq ?c ?s [(0, 6), (1, 8)] = Inr (True, s1)" by blast
  from set_seq_ok [OF w sh s1] have g: "xen_max_p2m_pfn s1 = 8"
    by (simp add: same_globals_def)
  from build_mfn_list_list_result [OF w sh n mx s1]
  obtain s' where "xen_build_mfn_list_list ?c s1 = Inr s'"
    "\<And>q. q < 8 \<Longrightarrow> mirror_at ?c s' q"
    unfolding g by auto
  then have "\<exists>s'. xen_build_mfn_list_list ?c s1 = Inr s' \<and> mirror_at ?c s' 0 \<and>
    mirror_at ?c s' 5"
    by (intro exI [of _ s']) simp
  with w sh n mx s1 show ?thesis by blast
qed


end
